(* ===== verification/Titan_Prelude.thy ===== *)
theory Titan_Prelude
  imports Main "HOL-Library.Word" "HOL-Library.Monad_Syntax"
begin

text \<open>
  Shared vocabulary of the development.

  \<^item> \<open>omap\<close>: the ordered map \<open>std::map\<close> as a strictly key-sorted association list, with
    the member functions the sources call (\<open>find\<close>, \<open>operator[]\<close>, \<open>erase\<close>).
  \<^item> the option monad as the effect of a C++ call: \<open>None\<close> stands for a call that has no
    normal result (it loops for ever, throws, or reaches undefined behaviour such as
    dereferencing \<open>end()\<close> or calling \<open>front()\<close> on an empty container), \<open>Some\<close> for a
    call that returns.  A theorem that an operation returns \<open>Some\<close> therefore rules out all
    three at once.
  \<^item> list, option and word lemmas the components share.
\<close>

named_theorems omap_simps \<open>rewrite rules for ordered maps\<close>
named_theorems level_simps \<open>rewrite rules for price levels seen as priority queues\<close>
named_theorems book_simps \<open>rewrite rules for the abstract book operations\<close>

type_synonym u8 = "8 word"
type_synonym u16 = "16 word"
type_synonym u32 = "32 word"
type_synonym u64 = "64 word"

section \<open>Ordered maps\<close>

type_synonym ('k, 'v) omap = "('k \<times> 'v) list"

text \<open>\<open>m[k] = v\<close>: overwrite the entry of \<open>k\<close>, or insert it at its sorted position.\<close>

fun omap_set :: "'k::linorder \<Rightarrow> 'v \<Rightarrow> ('k, 'v) omap \<Rightarrow> ('k, 'v) omap" where
  "omap_set k v [] = [(k, v)]"
| "omap_set k v (e # m) =
     (if fst e < k then e # omap_set k v m
      else if fst e = k then (k, v) # m
      else (k, v) # e # m)"

text \<open>The value read through \<open>m[k]\<close>, which default-constructs \<open>d\<close> for a missing key.\<close>

definition omap_at :: "'v \<Rightarrow> 'k \<Rightarrow> ('k, 'v) omap \<Rightarrow> 'v" where
  "omap_at d k m = (case map_of m k of None \<Rightarrow> d | Some v \<Rightarrow> v)"

definition omap_erase :: "'k \<Rightarrow> ('k, 'v) omap \<Rightarrow> ('k, 'v) omap" where
  "omap_erase k m = filter (\<lambda>e. fst e \<noteq> k) m"

text \<open>Values changed pointwise, keys kept: how two representations of a map are compared.\<close>

definition omap_map :: "('v \<Rightarrow> 'w) \<Rightarrow> ('k, 'v) omap \<Rightarrow> ('k, 'w) omap" where
  "omap_map f m = map (\<lambda>(k, v). (k, f v)) m"

abbreviation omap_ok :: "('k::linorder, 'v) omap \<Rightarrow> bool" where
  "omap_ok m \<equiv> sorted_wrt (<) (map fst m)"

lemma omap_ok_distinct: "omap_ok m \<Longrightarrow> distinct (map fst m)"
  by (simp add: strict_sorted_iff)

lemma omap_split_found:
  assumes "omap_ok m" "map_of m k = Some v"
  obtains m1 m2 where "m = m1 @ (k, v) # m2" "\<forall>e\<in>set m1. fst e < k" "\<forall>e\<in>set m2. k < fst e"
proof -
  from assms(2) have "(k, v) \<in> set m" by (rule map_of_SomeD)
  then obtain m1 m2 where m: "m = m1 @ (k, v) # m2" by (auto dest: split_list)
  with assms(1) have "\<forall>e\<in>set m1. fst e < k" "\<forall>e\<in>set m2. k < fst e"
    by (auto simp: sorted_wrt_append)
  with m show ?thesis by (rule that)
qed

lemma omap_split_missing:
  assumes "omap_ok m" "map_of m k = None"
  obtains m1 m2 where "m = m1 @ m2" "\<forall>e\<in>set m1. fst e < k" "\<forall>e\<in>set m2. k < fst e"
proof -
  have "\<exists>m1 m2. m = m1 @ m2 \<and> (\<forall>e\<in>set m1. fst e < k) \<and> (\<forall>e\<in>set m2. k < fst e)"
    using assms
  proof (induction m)
    case Nil
    then show ?case by simp
  next
    case (Cons e m)
    show ?case
    proof (cases "fst e < k")
      case True
      from Cons have "\<exists>m1 m2. m = m1 @ m2 \<and> (\<forall>e\<in>set m1. fst e < k) \<and> (\<forall>e\<in>set m2. k < fst e)"
        by (auto split: if_splits)
      then obtain m1 m2 where "m = m1 @ m2" "\<forall>e\<in>set m1. fst e < k" "\<forall>e\<in>set m2. k < fst e"
        by blast
      with True have "e # m = (e # m1) @ m2 \<and> (\<forall>e\<in>set (e # m1). fst e < k)
          \<and> (\<forall>e\<in>set m2. k < fst e)" by simp
      then show ?thesis by blast
    next
      case False
      with Cons.prems have "k < fst e" by (auto split: if_splits)
      with Cons.prems(1) have "\<forall>e'\<in>set (e # m). k < fst e'" by fastforce
      then have "e # m = [] @ (e # m) \<and> (\<forall>e\<in>set []. fst e < k) \<and> (\<forall>e'\<in>set (e # m). k < fst e')"
        by simp
      then show ?thesis by blast
    qed
  qed
  then show ?thesis using that by blast
qed

lemma omap_set_present:
  "\<forall>e\<in>set m1. fst e < k \<Longrightarrow> omap_set k v (m1 @ (k, u) # m2) = m1 @ (k, v) # m2"
  by (induction m1) auto

lemma omap_set_absent:
  "\<forall>e\<in>set m1. fst e < k \<Longrightarrow> \<forall>e\<in>set m2. k < fst e \<Longrightarrow> omap_set k v (m1 @ m2) = m1 @ (k, v) # m2"
  by (induction m1) (cases m2; fastforce)+

lemma omap_erase_present:
  fixes k :: "'k::linorder"
  assumes "\<forall>e\<in>set m1. fst e < k" "\<forall>e\<in>set m2. k < fst e"
  shows "omap_erase k (m1 @ (k, u) # m2) = m1 @ m2"
proof -
  have "filter (\<lambda>e. fst e \<noteq> k) m1 = m1"
    by (rule filter_True) (metis assms(1) less_irrefl)
  moreover have "filter (\<lambda>e. fst e \<noteq> k) m2 = m2"
    by (rule filter_True) (metis assms(2) less_irrefl)
  ultimately show ?thesis by (simp add: omap_erase_def)
qed

lemma set_omap_set_keys [omap_simps]: "fst ` set (omap_set k v m) = insert k (fst ` set m)"
  by (induction m) auto

lemma omap_ok_set [omap_simps, intro]: "omap_ok m \<Longrightarrow> omap_ok (omap_set k v m)"
proof (induction m)
  case (Cons e m)
  then show ?case by (cases e) (auto simp: set_omap_set_keys simp flip: image_set)
qed simp

lemma omap_ok_erase [omap_simps, intro]: "omap_ok m \<Longrightarrow> omap_ok (omap_erase k m)"
  by (induction m) (auto simp: omap_erase_def)

lemma map_of_omap_set [omap_simps]: "map_of (omap_set k v m) = (map_of m)(k \<mapsto> v)"
  by (induction m) (auto simp: fun_eq_iff)

lemma map_of_omap_erase [omap_simps]: "map_of (omap_erase k m) = (map_of m)(k := None)"
  by (induction m) (auto simp: omap_erase_def fun_eq_iff)

lemma map_fst_omap_map [omap_simps]: "map fst (omap_map f m) = map fst m"
  by (auto simp: omap_map_def)

lemma omap_map_set [omap_simps]: "omap_map f (omap_set k v m) = omap_set k (f v) (omap_map f m)"
  by (induction m) (auto simp: omap_map_def)

lemma omap_map_erase [omap_simps]: "omap_map f (omap_erase k m) = omap_erase k (omap_map f m)"
  by (induction m) (auto simp: omap_map_def omap_erase_def)

lemma map_of_omap_map [omap_simps]: "map_of (omap_map f m) k = map_option f (map_of m k)"
  by (induction m) (auto simp: omap_map_def)

lemma omap_map_Nil [omap_simps]: "omap_map f m = [] \<longleftrightarrow> m = []" "omap_map f [] = []"
  by (auto simp: omap_map_def)

text \<open>Sums and sizes over the entries.\<close>

lemma omap_sum_insert:
  fixes f :: "'k::linorder \<times> 'v \<Rightarrow> nat"
  assumes "omap_ok m" "map_of m k = None"
  shows "sum_list (map f (omap_set k v m)) = sum_list (map f m) + f (k, v)" "length (omap_set k v m) = Suc (length m)"
proof -
  obtain m1 m2 where m: "m = m1 @ m2" "\<forall>e\<in>set m1. fst e < k" "\<forall>e\<in>set m2. k < fst e"
    using omap_split_missing [OF assms] .
  have "omap_set k v m = m1 @ (k, v) # m2" unfolding m(1) by (rule omap_set_absent [OF m(2,3)])
  with m(1) show "sum_list (map f (omap_set k v m)) = sum_list (map f m) + f (k, v)" "length (omap_set k v m) = Suc (length m)"
    by simp_all
qed

lemma omap_sum_update:
  fixes f :: "'k::linorder \<times> 'v \<Rightarrow> nat"
  assumes "omap_ok m" "map_of m k = Some u"
  shows "sum_list (map f (omap_set k v m)) + f (k, u) = sum_list (map f m) + f (k, v)"
    "sum_list (map f (omap_erase k m)) + f (k, u) = sum_list (map f m)"
    "length (omap_set k v m) = length m" "Suc (length (omap_erase k m)) = length m"
proof -
  obtain m1 m2 where m: "m = m1 @ (k, u) # m2" "\<forall>e\<in>set m1. fst e < k" "\<forall>e\<in>set m2. k < fst e"
    using omap_split_found [OF assms] .
  have "omap_set k v m = m1 @ (k, v) # m2" unfolding m(1) by (rule omap_set_present [OF m(2)])
  moreover have "omap_erase k m = m1 @ m2" unfolding m(1) by (rule omap_erase_present [OF m(2,3)])
  moreover note m(1)
  ultimately show "sum_list (map f (omap_set k v m)) + f (k, u) = sum_list (map f m) + f (k, v)"
    "sum_list (map f (omap_erase k m)) + f (k, u) = sum_list (map f m)"
    "length (omap_set k v m) = length m" "Suc (length (omap_erase k m)) = length m"
    by simp_all
qed

lemma omap_set_entries: "set (omap_set k v m) \<subseteq> insert (k, v) (set m)" "set (omap_erase k m) \<subseteq> set m"
  by (induction m) (auto simp: omap_erase_def split: if_splits)

section \<open>Lists, options and words\<close>

lemma takeWhile_append_all:
  "\<forall>x\<in>set xs. P x \<Longrightarrow> \<forall>y\<in>set ys. \<not> P y \<Longrightarrow> takeWhile P (xs @ ys) = xs"
  by (cases ys) (auto simp: takeWhile_eq_all_conv)

lemma dropWhile_append_all:
  "\<forall>x\<in>set xs. P x \<Longrightarrow> \<forall>y\<in>set ys. \<not> P y \<Longrightarrow> dropWhile P (xs @ ys) = ys"
  by (cases ys) (auto simp: dropWhile_append)

lemma foldl_add_sum_list:
  "foldl (\<lambda>a x. a + f x) (c::'a::comm_monoid_add) xs = c + sum_list (map f xs)"
  by (induction xs arbitrary: c) (auto simp: add.assoc)

lemma distinct_map_around:
  assumes "distinct (map f (A @ xs @ B))" "x \<in> set xs" "y \<in> set A \<union> set B"
  shows "f y \<noteq> f x"
proof -
  from assms(1) have "f ` set A \<inter> f ` set xs = {}" "f ` set xs \<inter> f ` set B = {}"
    by (auto simp: image_Un)
  with assms(2,3) show ?thesis by (metis IntI UnE empty_iff imageI)
qed

lemma list_all2_pick: "list_all2 P xs ys \<Longrightarrow> x \<in> set xs \<Longrightarrow> \<exists>y\<in>set ys. P x y"
  by (induction rule: list_all2_induct) auto

lemma word_pos_iff [simp]: "(0::'a::len word) < x \<longleftrightarrow> x \<noteq> 0"
  by (simp add: word_gt_0)

lemma word_min_le: "min a b \<le> (a::'a::len word)" "min a b \<le> (b::'a::len word)"
  by auto

lemma word_sub_min_zero: "(b::'a::len word) - min a b = 0 \<longleftrightarrow> b \<le> a"
  by (auto simp: min_def)

lemma unat_sub_le: "(b::'a::len word) \<le> a \<Longrightarrow> unat (a - b) = unat a - unat b"
  by (rule unat_sub)

end
