(* ===== verification/Titan_Types.thy ===== *)
theory Titan_Types
  imports Titan_Prelude
begin

text \<open>
  The value types every layer exchanges: \<open>include/titan/core/types.hpp\<close>,
  \<open>order_types.hpp\<close>, \<open>events.hpp\<close> and \<open>include/titan/market_data/book_snapshot.hpp\<close>.
  Identifiers, prices, quantities and accounts are \<open>uint64_t\<close>, so words of 64 bits whose
  arithmetic wraps; \<open>std::string\<close> is \<^typ>\<open>string\<close>; \<open>size_t\<close> counts of in-memory
  containers are \<^typ>\<open>nat\<close>.
\<close>

type_synonym OrderId = u64
type_synonym Price = u64
type_synonym Quantity = u64
type_synonym AccountId = u64
type_synonym Symbol = string

datatype Side = Buy | Sell

datatype OrderType = Limit | Market

datatype TimeInForce = GTC | IOC

datatype OrderStatus = New | PartiallyFilled | Filled | Cancelled | Rejected

datatype RejectReason =
    NoReason
  | ZeroQuantity
  | ZeroPrice
  | DuplicateOrderId
  | UnknownOrder
  | OrderNotResting
  | InvalidReplace
  | InvalidOrderType
  | ReplaceWouldCross
  | UnknownSymbol

record Order =
  order_id :: OrderId
  order_side :: Side
  order_price :: Price
  order_quantity :: Quantity
  order_accountId :: AccountId
  order_type :: OrderType
  order_tif :: TimeInForce
  order_status :: OrderStatus

text \<open>
  The defaulted members of \<open>Order\<close>: \<open>Order{id, side, price, quantity}\<close> leaves account 0,
  a GTC limit order in status New.
\<close>

definition limit_order :: "OrderId \<Rightarrow> Side \<Rightarrow> Price \<Rightarrow> Quantity \<Rightarrow> Order" where
  "limit_order i s p q =
     \<lparr>order_id = i, order_side = s, order_price = p, order_quantity = q, order_accountId = 0,
      order_type = Limit, order_tif = GTC, order_status = New\<rparr>"

text \<open>\<open>Order()\<close>, the value a pool slot is constructed with.\<close>

definition default_order :: Order where
  "default_order = limit_order 0 Buy 0 0"

record Trade =
  trade_incoming :: OrderId
  trade_resting :: OrderId
  trade_price :: Price
  trade_quantity :: Quantity

record PriceLevel =
  level_price :: Price
  level_quantity :: Quantity

record BookSnapshot =
  snap_symbol :: Symbol
  snap_sequence :: u64
  snap_bids :: "PriceLevel list"
  snap_asks :: "PriceLevel list"

datatype EventPayload =
    OrderSubmitted Symbol OrderId Side Price Quantity
  | OrderCancelled Symbol OrderId
  | OrderReplaced Symbol OrderId Price Quantity
  | TradeExecuted Symbol OrderId OrderId Price Quantity
  | OrderRejected Symbol OrderId RejectReason

record Event =
  event_sequence :: u64
  event_payload :: EventPayload

primrec opposite :: "Side \<Rightarrow> Side" where
  "opposite Buy = Sell"
| "opposite Sell = Buy"

lemma UNIV_Side: "UNIV = {Buy, Sell}"
  using Side.exhaust by auto

lemma opposite_opposite [simp]: "opposite (opposite s) = s"
  by (cases s) auto

lemma opposite_neq [simp]: "opposite s \<noteq> s" "s \<noteq> opposite s"
  by (cases s; simp)+

lemma side_neq_iff: "s \<noteq> t \<longleftrightarrow> s = opposite t"
  by (cases s; cases t) auto

text \<open>
  \<open>crosses s p q\<close>: an incoming order of side \<open>s\<close> with limit \<open>p\<close> may trade with an order
  resting at \<open>q\<close> on the other side.
\<close>

primrec crosses :: "Side \<Rightarrow> Price \<Rightarrow> Price \<Rightarrow> bool" where
  "crosses Buy p q \<longleftrightarrow> p \<ge> q"
| "crosses Sell p q \<longleftrightarrow> p \<le> q"

text \<open>
  \<open>ahead s p q\<close>: on side \<open>s\<close> an order resting at \<open>p\<close> is served no later than one at \<open>q\<close>
  (bids from the highest price, asks from the lowest).
\<close>

primrec ahead :: "Side \<Rightarrow> Price \<Rightarrow> Price \<Rightarrow> bool" where
  "ahead Buy p q \<longleftrightarrow> p \<ge> q"
| "ahead Sell p q \<longleftrightarrow> p \<le> q"

lemma ahead_refl [simp]: "ahead s p p"
  by (cases s) auto

lemma ahead_trans: "ahead s p q \<Longrightarrow> ahead s q r \<Longrightarrow> ahead s p r"
  by (cases s) auto

lemma ahead_antisym: "ahead s p q \<Longrightarrow> ahead s q p \<Longrightarrow> p = q"
  by (cases s) auto

lemma ahead_total: "\<not> ahead s p q \<Longrightarrow> ahead s q p"
  by (cases s) auto

lemma crosses_ahead: "crosses s p q \<longleftrightarrow> ahead (opposite s) q p"
  by (cases s) auto

lemma crosses_mono: "crosses s p q \<Longrightarrow> ahead (opposite s) q' q \<Longrightarrow> crosses s p q'"
  by (cases s) auto

end
