(* ===== verification/Price_Levels.thy ===== *)
theory Price_Levels
  imports Titan_Types
begin

text \<open>
  Price levels as the program stores them (an ordered map from price to the FIFO of that
  price) and the one priority queue they stand for.  Both matchers and the order manager's
  shadow book keep such a map per side; \<open>flat\<close> is what they have in common, and the lemmas
  here are the only ones that look at the sorted association lists.
\<close>

text \<open>Best price first: asks ascend, bids descend.\<close>

primrec dir :: "Side \<Rightarrow> 'a list \<Rightarrow> 'a list" where
  "dir Buy m = rev m"
| "dir Sell m = m"

definition level_items :: "'p \<times> 'x list \<Rightarrow> ('p \<times> 'x) list" where
  "level_items e = map (Pair (fst e)) (snd e)"

definition flat :: "Side \<Rightarrow> ('p, 'x list) omap \<Rightarrow> ('p \<times> 'x) list" where
  "flat s m = concat (map level_items (dir s m))"

text \<open>The level at \<open>begin()\<close> (asks) or \<open>std::prev(end())\<close> (bids); \<open>None\<close> on an empty map.\<close>

definition best_level :: "Side \<Rightarrow> ('p, 'v) omap \<Rightarrow> ('p \<times> 'v) option" where
  "best_level s m = (case dir s m of [] \<Rightarrow> None | e # _ \<Rightarrow> Some e)"

text \<open>Insertion behind every item whose price is at least as good.\<close>

definition enqueue_at :: "Side \<Rightarrow> Price \<Rightarrow> 'x \<Rightarrow> (Price \<times> 'x) list \<Rightarrow> (Price \<times> 'x) list" where
  "enqueue_at s p x q =
     takeWhile (\<lambda>e. ahead s (fst e) p) q @ (p, x) # dropWhile (\<lambda>e. ahead s (fst e) p) q"

definition no_empty_level :: "('p, 'x list) omap \<Rightarrow> bool" where
  "no_empty_level m \<longleftrightarrow> (\<forall>e\<in>set m. snd e \<noteq> [])"

lemma dir_simps [simp]:
  "dir s [] = []" "set (dir s m) = set m" "dir s m = [] \<longleftrightarrow> m = []" "length (dir s m) = length m"
  "dir s [x] = [x]" "map f (dir s m) = dir s (map f m)"
  by (cases s; simp add: rev_map)+

lemma flat_Nil [level_simps, simp]: "flat s [] = []"
  by (simp add: flat_def)

lemma best_level_Nil [level_simps, simp]: "best_level s [] = None"
  by (simp add: best_level_def)

lemma best_level_None [level_simps]: "best_level s m = None \<longleftrightarrow> m = []"
  using dir_simps(3) [of s m] by (auto simp: best_level_def split: list.splits)

lemma level_items_simps [level_simps, simp]:
  "level_items (p, xs) = map (Pair p) xs"
  "set (level_items e) = Pair (fst e) ` set (snd e)"
  "level_items (p, []) = []"
  by (auto simp: level_items_def)

lemma in_flat_iff [level_simps]: "(p, x) \<in> set (flat s m) \<longleftrightarrow> (\<exists>xs. (p, xs) \<in> set m \<and> x \<in> set xs)"
  by (force simp: flat_def)

lemma in_flat_map_of:
  assumes "omap_ok m"
  shows "(p, x) \<in> set (flat s m) \<longleftrightarrow> (\<exists>xs. map_of m p = Some xs \<and> x \<in> set xs)"
proof -
  from assms have "distinct (map fst m)"
    by (rule omap_ok_distinct)
  then show ?thesis by (simp add: in_flat_iff map_of_eq_Some_iff)
qed

lemma flat_map [level_simps]:
  "flat s (omap_map (map f) m) = map (\<lambda>(p, x). (p, f x)) (flat s m)"
  by (cases s) (auto simp: flat_def omap_map_def map_concat rev_map level_items_def o_def
      split_beta intro!: arg_cong [where f = concat])

lemma flat_eq_Nil: "no_empty_level m \<Longrightarrow> flat s m = [] \<longleftrightarrow> m = []"
  by (cases m) (auto simp: flat_def no_empty_level_def level_items_def)

lemma no_empty_level_set:
  "no_empty_level m \<Longrightarrow> xs \<noteq> [] \<Longrightarrow> no_empty_level (omap_set p xs m)"
  by (induction m) (auto simp: no_empty_level_def)

lemma no_empty_level_erase: "no_empty_level m \<Longrightarrow> no_empty_level (omap_erase p m)"
  by (auto simp: no_empty_level_def omap_erase_def)

text \<open>
  One level cut out of the queue: what stands before it is strictly better priced, what
  stands after it strictly worse, and writing or erasing the level changes nothing else.
\<close>

lemma flat_split_found:
  assumes "omap_ok m" "map_of m p = Some xs"
  obtains A B where "flat s m = A @ map (Pair p) xs @ B"
    and "\<And>ys. flat s (omap_set p ys m) = A @ map (Pair p) ys @ B"
    and "flat s (omap_erase p m) = A @ B"
    and "\<forall>e\<in>set A. \<not> ahead s p (fst e)" and "\<forall>e\<in>set B. \<not> ahead s (fst e) p"
proof -
  obtain m1 m2 where m: "m = m1 @ (p, xs) # m2"
    and lt: "\<forall>e\<in>set m1. fst e < p" and gt: "\<forall>e\<in>set m2. p < fst e"
    using omap_split_found [OF assms] by blast
  note set = omap_set_present [OF lt] and erase = omap_erase_present [OF lt gt]
  show ?thesis
  proof (cases s)
    case Sell
    show ?thesis
      by (rule that [of "concat (map level_items m1)" "concat (map level_items m2)"])
        (use Sell lt gt in \<open>auto simp: m set erase flat_def\<close>)
  next
    case Buy
    show ?thesis
      by (rule that [of "concat (map level_items (rev m2))" "concat (map level_items (rev m1))"])
        (use Buy lt gt in \<open>auto simp: m set erase flat_def\<close>)
  qed
qed

lemma flat_split_missing:
  assumes "omap_ok m" "map_of m p = None"
  obtains A B where "flat s m = A @ B"
    and "\<And>ys. flat s (omap_set p ys m) = A @ map (Pair p) ys @ B"
    and "\<forall>e\<in>set A. \<not> ahead s p (fst e)" and "\<forall>e\<in>set B. \<not> ahead s (fst e) p"
proof -
  obtain m1 m2 where m: "m = m1 @ m2"
    and lt: "\<forall>e\<in>set m1. fst e < p" and gt: "\<forall>e\<in>set m2. p < fst e"
    using omap_split_missing [OF assms] by blast
  note set = omap_set_absent [OF lt gt]
  show ?thesis
  proof (cases s)
    case Sell
    show ?thesis
      by (rule that [of "concat (map level_items m1)" "concat (map level_items m2)"])
        (use Sell lt gt in \<open>auto simp: m set flat_def\<close>)
  next
    case Buy
    show ?thesis
      by (rule that [of "concat (map level_items (rev m2))" "concat (map level_items (rev m1))"])
        (use Buy lt gt in \<open>auto simp: m set flat_def\<close>)
  qed
qed

lemma enqueue_at_between:
  assumes "\<forall>e\<in>set A. ahead s (fst e) p" "\<forall>e\<in>set B. \<not> ahead s (fst e) p"
  shows "enqueue_at s p x (A @ B) = A @ (p, x) # B"
  unfolding enqueue_at_def
  using takeWhile_append_all [OF assms] dropWhile_append_all [OF assms] by simp

lemma enqueue_at_split:
  obtains A B where "q = A @ B" "enqueue_at s p x q = A @ (p, x) # B"
proof
  show "q = takeWhile (\<lambda>e. ahead s (fst e) p) q @ dropWhile (\<lambda>e. ahead s (fst e) p) q" by simp
qed (simp add: enqueue_at_def)

lemma set_enqueue_at [level_simps]: "set (enqueue_at s p x q) = insert (p, x) (set q)"
  by (rule enqueue_at_split [of q s p x]) auto

lemma distinct_map_enqueue_at:
  assumes "distinct (map f q)" "f (p, x) \<notin> f ` set q"
  shows "distinct (map f (enqueue_at s p x q))"
  by (rule enqueue_at_split [of q s p x]) (use assms in auto)

text \<open>Appending to a level, found or fresh, is insertion into the priority queue.\<close>

lemma flat_push:
  assumes "omap_ok m"
  shows "flat s (omap_set p (omap_at [] p m @ [x]) m) = enqueue_at s p x (flat s m)"
proof (cases "map_of m p")
  case None
  then obtain A B where *: "flat s m = A @ B"
    "\<And>ys. flat s (omap_set p ys m) = A @ map (Pair p) ys @ B"
    "\<forall>e\<in>set A. \<not> ahead s p (fst e)" "\<forall>e\<in>set B. \<not> ahead s (fst e) p"
    using flat_split_missing [OF assms None, where s = s] by metis
  then have "\<forall>e\<in>set A. ahead s (fst e) p" by (auto dest: ahead_total)
  with * None show ?thesis by (simp add: omap_at_def enqueue_at_between)
next
  case (Some xs)
  then obtain A B where *: "flat s m = A @ map (Pair p) xs @ B"
    "\<And>ys. flat s (omap_set p ys m) = A @ map (Pair p) ys @ B"
    "\<forall>e\<in>set A. \<not> ahead s p (fst e)" "\<forall>e\<in>set B. \<not> ahead s (fst e) p"
    using flat_split_found [OF assms Some, where s = s] by metis
  then have "\<forall>e\<in>set (A @ map (Pair p) xs). ahead s (fst e) p" by (auto dest: ahead_total)
  from enqueue_at_between [OF this *(4)] *(1,2) Some show ?thesis by (simp add: omap_at_def)
qed

lemma best_level_found:
  assumes "omap_ok m" "best_level s m = Some (p, xs)"
  shows "map_of m p = Some xs"
proof -
  from assms(2) obtain m' where "dir s m = (p, xs) # m'"
    by (auto simp: best_level_def split: list.splits)
  then have "(p, xs) \<in> set (dir s m)" by simp
  then have "(p, xs) \<in> set m" by simp
  moreover from assms(1) have "distinct (map fst m)" by (rule omap_ok_distinct)
  ultimately show ?thesis by simp
qed

text \<open>The best level is the head of the queue, and stays so when it is rewritten.\<close>

lemma best_level_flat:
  assumes "omap_ok m" "best_level s m = Some (p, xs)"
  obtains B where "flat s m = map (Pair p) xs @ B"
    and "\<And>ys. flat s (omap_set p ys m) = map (Pair p) ys @ B"
    and "flat s (omap_erase p m) = B"
    and "\<forall>e\<in>set B. \<not> ahead s (fst e) p"
proof -
  from assms obtain m' where m: "dir s m = (p, xs) # m'"
    by (auto simp: best_level_def split: list.splits)
  obtain A B where *: "flat s m = A @ map (Pair p) xs @ B"
    "\<And>ys. flat s (omap_set p ys m) = A @ map (Pair p) ys @ B"
    "flat s (omap_erase p m) = A @ B"
    "\<forall>e\<in>set A. \<not> ahead s p (fst e)" "\<forall>e\<in>set B. \<not> ahead s (fst e) p"
    using flat_split_found [OF assms(1) best_level_found [OF assms], where s = s] by metis
  have "\<forall>e\<in>set m. ahead s p (fst e)"
  proof (cases s)
    case Sell
    with m assms(1) show ?thesis by auto
  next
    case Buy
    with m have "m = rev m' @ [(p, xs)]" by (metis dir.simps(1) rev.simps(2) rev_rev_ident)
    with assms(1) Buy show ?thesis by (auto simp: sorted_wrt_append)
  qed
  moreover have "set A \<subseteq> set (flat s m)" using *(1) by auto
  ultimately have "\<forall>e\<in>set A. ahead s p (fst e)" by (fastforce simp: in_flat_iff)
  with *(4) have "A = []" by (cases A) auto
  with * show ?thesis by (intro that [of B]) auto
qed

lemma sorted_level_items: "sorted_wrt (\<lambda>a b. ahead s (fst a) (fst b)) (level_items e)"
  unfolding level_items_def by (induction "snd e" arbitrary: e) (auto simp: sorted_wrt_map sorted_wrt_iff_nth_less)

lemma sorted_concat_levels:
  assumes "sorted_wrt (\<lambda>a b. ahead s (fst a) (fst b)) m"
  shows "sorted_wrt (\<lambda>a b. ahead s (fst a) (fst b)) (concat (map level_items m))"
  using assms
proof (induction m)
  case (Cons e m)
  then show ?case by (auto simp: sorted_wrt_append sorted_level_items)
qed simp

lemma sorted_flat:
  assumes "omap_ok m"
  shows "sorted_wrt (\<lambda>a b. ahead s (fst a) (fst b)) (flat s m)"
proof -
  have "sorted_wrt (\<lambda>a b. ahead s (fst a) (fst b)) (dir s m)"
    using assms by (cases s) (auto simp: sorted_wrt_map sorted_wrt_rev elim: sorted_wrt_mono_rel [rotated])
  then show ?thesis unfolding flat_def by (rule sorted_concat_levels)
qed

end
