(* ===== verification/Matcher_Spec.thy ===== *)
theory Matcher_Spec
  imports Price_Levels
begin

text \<open>
  The contract of \<open>IMatcher\<close> (\<open>include/titan/book/i_matcher.hpp\<close>).  A book is, per side, one
  queue of resting orders in price-time priority.  Matching sweeps the opposite queue from
  its head, resting inserts behind every order with an equally good or better price,
  cancelling removes by id.  The locale \<open>price_time_matcher\<close> at the end states what an
  implementation promises over its own state; both matchers are interpreted in it and the
  order manager relies on nothing else.
\<close>

type_synonym book = "Side \<Rightarrow> Order list"

text \<open>The virtual functions of \<open>IMatcher\<close>, over the state \<open>'m\<close> of an implementation.\<close>

record 'm IMatcher =
  vt_addOrder :: "'m \<Rightarrow> Order \<Rightarrow> 'm option"
  vt_cancelOrder :: "'m \<Rightarrow> OrderId \<Rightarrow> 'm option"
  vt_matchOrder :: "'m \<Rightarrow> Order \<Rightarrow> (Trade list \<times> 'm) option"
  vt_bestBid :: "'m \<Rightarrow> Price"
  vt_bestAsk :: "'m \<Rightarrow> Price"
  vt_bidDepth :: "'m \<Rightarrow> nat \<Rightarrow> PriceLevel list option"
  vt_askDepth :: "'m \<Rightarrow> nat \<Rightarrow> PriceLevel list option"

section \<open>The abstract book\<close>

fun sweep :: "Side \<Rightarrow> Price \<Rightarrow> OrderId \<Rightarrow> Quantity \<Rightarrow> Order list \<Rightarrow> Trade list \<times> Order list \<times> Quantity" where
  "sweep s p i q [] = ([], [], q)"
| "sweep s p i q (r # rs) =
     (if 0 < q \<and> crosses s p (order_price r) then
        (let t = min q (order_quantity r);
             tr = \<lparr>trade_incoming = i, trade_resting = order_id r, trade_price = order_price r,
                   trade_quantity = t\<rparr>
         in if order_quantity r - t = 0 then
              (case sweep s p i (q - t) rs of (ts, rs', q') \<Rightarrow> (tr # ts, rs', q'))
            else ([tr], r\<lparr>order_quantity := order_quantity r - t\<rparr> # rs, q - t))
      else ([], r # rs, q))"

definition enqueue :: "Side \<Rightarrow> Order \<Rightarrow> Order list \<Rightarrow> Order list" where
  "enqueue s ord q =
     takeWhile (\<lambda>r. ahead s (order_price r) (order_price ord)) q @
     ord # dropWhile (\<lambda>r. ahead s (order_price r) (order_price ord)) q"

definition spec_rest :: "book \<Rightarrow> Order \<Rightarrow> book" where
  "spec_rest b ord = b(order_side ord := enqueue (order_side ord) ord (b (order_side ord)))"

definition spec_cross :: "book \<Rightarrow> Order \<Rightarrow> Trade list \<times> book \<times> Order" where
  "spec_cross b ord =
     (let s = order_side ord in
      case sweep s (order_price ord) (order_id ord) (order_quantity ord) (b (opposite s)) of
        (ts, q, left) \<Rightarrow> (ts, b(opposite s := q), ord\<lparr>order_quantity := left\<rparr>))"

definition spec_match :: "book \<Rightarrow> Order \<Rightarrow> Trade list \<times> book" where
  "spec_match b ord =
     (case spec_cross b ord of (ts, b', ord') \<Rightarrow>
        (ts, if 0 < order_quantity ord' then spec_rest b' ord' else b'))"

definition spec_cancel :: "book \<Rightarrow> OrderId \<Rightarrow> book" where
  "spec_cancel b i = (\<lambda>s. filter (\<lambda>r. order_id r \<noteq> i) (b s))"

fun aggregate :: "(Price \<times> Quantity) list \<Rightarrow> PriceLevel list" where
  "aggregate [] = []"
| "aggregate ((p, q) # rest) =
     (case aggregate rest of
        [] \<Rightarrow> [\<lparr>level_price = p, level_quantity = q\<rparr>]
      | l # ls \<Rightarrow>
          if level_price l = p then \<lparr>level_price = p, level_quantity = q + level_quantity l\<rparr> # ls
          else \<lparr>level_price = p, level_quantity = q\<rparr> # l # ls)"

definition spec_depth :: "book \<Rightarrow> Side \<Rightarrow> nat \<Rightarrow> PriceLevel list" where
  "spec_depth b s n = take n (aggregate (map (\<lambda>r. (order_price r, order_quantity r)) (b s)))"

text \<open>The empty-side sentinels both implementations use: \<open>max()\<close> for bids, 0 for asks.\<close>

definition spec_best :: "book \<Rightarrow> Side \<Rightarrow> Price" where
  "spec_best b s =
     (case b s of [] \<Rightarrow> (case s of Buy \<Rightarrow> -1 | Sell \<Rightarrow> 0) | r # _ \<Rightarrow> order_price r)"

definition book_ids :: "book \<Rightarrow> OrderId set" where
  "book_ids b = (\<Union>s. order_id ` set (b s))"

definition empty_book :: book where
  "empty_book = (\<lambda>_. [])"

section \<open>Well-formed books\<close>

definition queue_ok :: "Side \<Rightarrow> Order list \<Rightarrow> bool" where
  "queue_ok s q \<longleftrightarrow>
     sorted_wrt (\<lambda>a b. ahead s (order_price a) (order_price b)) q \<and>
     (\<forall>r\<in>set q. order_side r = s \<and> order_quantity r \<noteq> 0) \<and>
     distinct (map order_id q)"

definition uncrossed :: "book \<Rightarrow> bool" where
  "uncrossed b \<longleftrightarrow> (\<forall>x\<in>set (b Buy). \<forall>y\<in>set (b Sell). order_price x < order_price y)"

definition book_ok :: "book \<Rightarrow> bool" where
  "book_ok b \<longleftrightarrow> queue_ok Buy (b Buy) \<and> queue_ok Sell (b Sell) \<and>
     order_id ` set (b Buy) \<inter> order_id ` set (b Sell) = {} \<and> uncrossed b"

lemma book_ok_queue: "book_ok b \<Longrightarrow> queue_ok s (b s)"
  by (cases s) (auto simp: book_ok_def)

lemma in_book_ids: "r \<in> set (b s) \<Longrightarrow> order_id r \<in> book_ids b"
  by (auto simp: book_ids_def)

lemma book_ids_two: "book_ids b = order_id ` set (b Buy) \<union> order_id ` set (b Sell)"
  by (simp add: book_ids_def UNIV_Side)

lemma book_ok_empty [simp, intro]: "book_ok empty_book"
  by (auto simp: book_ok_def empty_book_def queue_ok_def uncrossed_def)

lemma uncrossed_iff_crosses:
  "uncrossed b \<longleftrightarrow> (\<forall>x\<in>set (b s). \<forall>y\<in>set (b (opposite s)). \<not> crosses s (order_price x) (order_price y))"
  by (cases s) (auto simp: uncrossed_def not_le)

lemma book_ok_sides:
  "book_ok b \<longleftrightarrow> queue_ok s (b s) \<and> queue_ok (opposite s) (b (opposite s)) \<and>
     order_id ` set (b s) \<inter> order_id ` set (b (opposite s)) = {} \<and>
     (\<forall>x\<in>set (b s). \<forall>y\<in>set (b (opposite s)). \<not> crosses s (order_price x) (order_price y))"
  by (cases s) (auto simp: book_ok_def uncrossed_def not_le)

section \<open>What a sweep does\<close>

lemma sweep_conserves:
  assumes "sweep s p i q rs = (ts, rs', left)"
  shows "unat q = (\<Sum>t\<leftarrow>ts. unat (trade_quantity t)) + unat left"
  using assms
proof (induction rs arbitrary: q ts rs' left)
  case (Cons r rs)
  have "unat (min q (order_quantity r)) \<le> unat q"
    by (simp add: word_le_nat_alt [symmetric])
  then have "unat q = unat (min q (order_quantity r)) + unat (q - min q (order_quantity r))"
    by (simp add: unat_sub_le)
  with Cons show ?case by (auto simp: Let_def split: if_splits prod.splits)
qed simp

lemma sweep_trades:
  assumes "sweep s p i q rs = (ts, rs', left)" "\<forall>r\<in>set rs. order_quantity r \<noteq> 0" "t \<in> set ts"
  shows "trade_incoming t = i \<and> crosses s p (trade_price t) \<and> trade_quantity t \<noteq> 0 \<and>
    (\<exists>r\<in>set rs. order_id r = trade_resting t \<and> order_price r = trade_price t)"
  using assms
proof (induction rs arbitrary: q ts rs' left)
  case (Cons r rs)
  then show ?case by (fastforce simp: Let_def min_def split: if_splits prod.splits)
qed simp

text \<open>Time priority: the orders hit are exactly the first ones of the queue, in its order.\<close>

lemma sweep_prefix:
  assumes "sweep s p i q rs = (ts, rs', left)"
  shows "map trade_resting ts = take (length ts) (map order_id rs) \<and> length ts \<le> length rs"
  using assms
proof (induction rs arbitrary: q ts rs' left)
  case (Cons r rs)
  then show ?case by (fastforce simp: Let_def split: if_splits prod.splits)
qed simp

text \<open>What remains is the queue without the filled prefix, its head possibly reduced.\<close>

lemma sweep_rest:
  assumes "sweep s p i q rs = (ts, rs', left)"
  shows "\<exists>n. rs' = drop n rs \<or> (\<exists>r rest x. drop n rs = r # rest \<and> x \<noteq> 0 \<and> rs' = r\<lparr>order_quantity := x\<rparr> # rest)"
  using assms
proof (induction rs arbitrary: q ts rs' left)
  case (Cons r rs)
  show ?case
  proof (cases "0 < q \<and> crosses s p (order_price r) \<and> order_quantity r - min q (order_quantity r) = 0")
    case True
    then obtain ts' where "sweep s p i (q - min q (order_quantity r)) rs = (ts', rs', left)"
      using Cons.prems by (auto simp: Let_def split: prod.splits)
    from Cons.IH [OF this] obtain n where "rs' = drop (Suc n) (r # rs) \<or>
      (\<exists>r' rest x. drop (Suc n) (r # rs) = r' # rest \<and> x \<noteq> 0 \<and> rs' = r'\<lparr>order_quantity := x\<rparr> # rest)"
      by auto
    then show ?thesis by blast
  next
    case False
    then have "rs' = r # rs \<or> (\<exists>x. x \<noteq> 0 \<and> rs' = r\<lparr>order_quantity := x\<rparr> # rs)"
      using Cons.prems by (cases "0 < q \<and> crosses s p (order_price r)")
        (auto simp: Let_def simp del: right_minus_eq
          intro!: exI [of _ "order_quantity r - min q (order_quantity r)"])
    then show ?thesis by (intro exI [of _ 0]) auto
  qed
qed simp

lemma sweep_stops:
  assumes "sweep s p i q rs = (ts, rs', left)" "left \<noteq> 0"
  shows "rs' = [] \<or> \<not> crosses s p (order_price (hd rs'))"
  using assms
proof (induction rs arbitrary: q ts rs' left)
  case (Cons r rs)
  then show ?case by (fastforce simp: Let_def min_def split: if_splits prod.splits)
qed simp

lemma queue_ok_drop: "queue_ok s q \<Longrightarrow> queue_ok s (drop n q)"
  by (auto simp: queue_ok_def sorted_wrt_drop distinct_drop drop_map [symmetric] dest: in_set_dropD)

lemma queue_ok_reduce: "queue_ok s (r # rest) \<Longrightarrow> x \<noteq> 0 \<Longrightarrow> queue_ok s (r\<lparr>order_quantity := x\<rparr> # rest)"
  by (auto simp: queue_ok_def)

lemma sweep_queue_ok:
  assumes "sweep s p i q rs = (ts, rs', left)" "queue_ok s' rs"
  shows "queue_ok s' rs'"
proof -
  obtain n where "rs' = drop n rs \<or>
      (\<exists>r rest x. drop n rs = r # rest \<and> x \<noteq> 0 \<and> rs' = r\<lparr>order_quantity := x\<rparr> # rest)"
    using sweep_rest [OF assms(1)] by blast
  with queue_ok_drop [OF assms(2), of n] show ?thesis by (auto intro: queue_ok_reduce)
qed

lemma sweep_subset:
  assumes "sweep s p i q rs = (ts, rs', left)" "r \<in> set rs'"
  shows "\<exists>r'\<in>set rs. order_id r' = order_id r \<and> order_price r' = order_price r \<and>
    order_side r' = order_side r \<and> order_accountId r' = order_accountId r"
proof -
  obtain n where n: "rs' = drop n rs \<or>
      (\<exists>r rest x. drop n rs = r # rest \<and> x \<noteq> 0 \<and> rs' = r\<lparr>order_quantity := x\<rparr> # rest)"
    using sweep_rest [OF assms(1)] by blast
  have "set (drop n rs) \<subseteq> set rs" by (rule set_drop_subset)
  with n assms(2) show ?thesis by fastforce
qed

section \<open>Resting and cancelling\<close>

lemma dropWhile_behind:
  assumes "sorted_wrt (\<lambda>a b. ahead s (order_price a) (order_price b)) q"
    "r \<in> set (dropWhile (\<lambda>r. ahead s (order_price r) p) q)"
  shows "ahead s p (order_price r)"
  using assms
  by (induction q) (auto split: if_splits dest: ahead_total intro: ahead_trans)

lemma enqueue_split:
  obtains A B where "q = A @ B" "enqueue s ord q = A @ ord # B"
    "\<forall>r\<in>set A. ahead s (order_price r) (order_price ord)"
    "sorted_wrt (\<lambda>a b. ahead s (order_price a) (order_price b)) q \<Longrightarrow>
       \<forall>r\<in>set B. ahead s (order_price ord) (order_price r)"
proof
  let ?P = "\<lambda>r. ahead s (order_price r) (order_price ord)"
  show "q = takeWhile ?P q @ dropWhile ?P q" by simp
  show "enqueue s ord q = takeWhile ?P q @ ord # dropWhile ?P q" by (simp add: enqueue_def)
  show "\<forall>r\<in>set (takeWhile ?P q). ?P r" by (auto dest: set_takeWhileD)
  show "\<forall>r\<in>set (dropWhile ?P q). ahead s (order_price ord) (order_price r)"
    if "sorted_wrt (\<lambda>a b. ahead s (order_price a) (order_price b)) q"
    using dropWhile_behind [OF that] by blast
qed

lemma set_enqueue [book_simps]: "set (enqueue s ord q) = insert ord (set q)"
  by (rule enqueue_split [of q s ord]) auto

lemma map_enqueue_at:
  assumes "\<forall>e\<in>set q. order_price (g e) = fst e" "order_price (g (p, x)) = p"
  shows "map g (enqueue_at s p x q) = enqueue s (g (p, x)) (map g q)"
proof -
  have "takeWhile (\<lambda>r. ahead s (order_price r) p) (map g q) = map g (takeWhile (\<lambda>e. ahead s (fst e) p) q)"
    "dropWhile (\<lambda>r. ahead s (order_price r) p) (map g q) = map g (dropWhile (\<lambda>e. ahead s (fst e) p) q)"
    using assms(1) by (induction q) auto
  with assms(2) show ?thesis by (simp add: enqueue_def enqueue_at_def)
qed

lemma enqueue_sorted:
  assumes "sorted_wrt (\<lambda>a b. ahead s (order_price a) (order_price b)) q"
  shows "sorted_wrt (\<lambda>a b. ahead s (order_price a) (order_price b)) (enqueue s ord q)"
  by (rule enqueue_split [of q s ord]) (use assms in \<open>auto simp: sorted_wrt_append\<close>)

lemma distinct_enqueue:
  assumes "distinct (map order_id q)" "order_id ord \<notin> order_id ` set q"
  shows "distinct (map order_id (enqueue s ord q))"
  by (rule enqueue_split [of q s ord]) (use assms in auto)

lemma queue_ok_enqueue:
  assumes "queue_ok s q" "order_id ord \<notin> order_id ` set q" "order_side ord = s" "order_quantity ord \<noteq> 0"
  shows "queue_ok s (enqueue s ord q)"
  using assms by (auto simp: queue_ok_def set_enqueue enqueue_sorted distinct_enqueue)

lemma queue_ok_filter: "queue_ok s q \<Longrightarrow> queue_ok s (filter P q)"
  by (auto simp: queue_ok_def sorted_wrt_filter distinct_map_filter)

lemma book_ok_cancel:
  assumes "book_ok b"
  shows "book_ok (spec_cancel b i)"
  using assms by (auto simp: book_ok_def spec_cancel_def queue_ok_filter uncrossed_def)

lemma book_ids_cancel [book_simps]: "book_ids (spec_cancel b i) = book_ids b - {i}"
  by (auto simp: book_ids_def spec_cancel_def)

lemma spec_cancel_fresh: "i \<notin> book_ids b \<Longrightarrow> spec_cancel b i = b"
  by (auto simp: spec_cancel_def book_ids_def fun_eq_iff intro!: filter_True)

lemma queue_not_crossed:
  assumes "queue_ok (opposite s) rs" "rs = [] \<or> \<not> crosses s p (order_price (hd rs))" "r \<in> set rs"
  shows "\<not> crosses s p (order_price r)"
proof (cases rs)
  case (Cons r' rest)
  with assms(1,3) have "ahead (opposite s) (order_price r') (order_price r)"
    by (auto simp: queue_ok_def)
  with assms(2) Cons show ?thesis by (auto dest: crosses_mono)
qed (use assms in simp)

lemma spec_cross_parts:
  assumes "spec_cross b ord = (ts, b', ord')"
  obtains q left where
    "sweep (order_side ord) (order_price ord) (order_id ord) (order_quantity ord)
       (b (opposite (order_side ord))) = (ts, q, left)"
    "b' = b(opposite (order_side ord) := q)" "ord' = ord\<lparr>order_quantity := left\<rparr>"
  using assms by (auto simp: spec_cross_def Let_def split: prod.splits)

lemma book_ok_cross:
  assumes "spec_cross b ord = (ts, b', ord')" "book_ok b"
  shows "book_ok b'"
proof -
  let ?s = "order_side ord"
  obtain q left where sw: "sweep ?s (order_price ord) (order_id ord) (order_quantity ord)
      (b (opposite ?s)) = (ts, q, left)" and b': "b' = b(opposite ?s := q)"
    using spec_cross_parts [OF assms(1)] by metis
  have ok: "queue_ok (opposite ?s) q"
    by (rule sweep_queue_ok [OF sw]) (use assms(2) in \<open>simp add: book_ok_queue\<close>)
  have sub: "\<exists>y'\<in>set (b (opposite ?s)). order_id y' = order_id y \<and> order_price y' = order_price y"
    if "y \<in> set q" for y using sweep_subset [OF sw that] by blast
  from assms(2) have disj: "\<forall>x\<in>set (b ?s). \<forall>y\<in>set (b (opposite ?s)). order_id x \<noteq> order_id y"
    and nc: "\<forall>x\<in>set (b ?s). \<forall>y\<in>set (b (opposite ?s)). \<not> crosses ?s (order_price x) (order_price y)"
    unfolding book_ok_sides [of _ ?s] by auto
  have "\<forall>x\<in>set (b ?s). \<forall>y\<in>set q. order_id x \<noteq> order_id y" using disj sub by metis
  moreover have "\<forall>x\<in>set (b ?s). \<forall>y\<in>set q. \<not> crosses ?s (order_price x) (order_price y)"
    using nc sub by metis
  ultimately show ?thesis
    using ok book_ok_queue [OF assms(2)] unfolding book_ok_sides [of _ ?s] b' by auto
qed

lemma book_ids_cross:
  assumes "spec_cross b ord = (ts, b', ord')"
  shows "book_ids b' \<subseteq> book_ids b"
proof -
  obtain q left where sw: "sweep (order_side ord) (order_price ord) (order_id ord) (order_quantity ord)
      (b (opposite (order_side ord))) = (ts, q, left)" and b': "b' = b(opposite (order_side ord) := q)"
    using spec_cross_parts [OF assms] by metis
  show ?thesis
  proof
    fix i assume "i \<in> book_ids b'"
    then obtain t r where r: "r \<in> set (b' t)" "order_id r = i" by (auto simp: book_ids_def)
    show "i \<in> book_ids b"
    proof (cases "t = opposite (order_side ord)")
      case True
      with r sweep_subset [OF sw] show ?thesis by (metis b' fun_upd_same in_book_ids)
    next
      case False
      with r show ?thesis by (auto simp: b' in_book_ids)
    qed
  qed
qed

lemma book_ok_match:
  assumes "spec_match b ord = (ts, b')" "book_ok b" "order_id ord \<notin> book_ids b"
  shows "book_ok b'"
proof -
  let ?s = "order_side ord"
  obtain b1 ord' where c: "spec_cross b ord = (ts, b1, ord')"
    and b': "b' = (if 0 < order_quantity ord' then spec_rest b1 ord' else b1)"
    using assms(1) by (auto simp: spec_match_def split: prod.splits)
  obtain q left where sw: "sweep ?s (order_price ord) (order_id ord) (order_quantity ord)
      (b (opposite ?s)) = (ts, q, left)" and b1: "b1 = b(opposite ?s := q)"
    and ord': "ord' = ord\<lparr>order_quantity := left\<rparr>"
    using spec_cross_parts [OF c] by metis
  have ok1: "book_ok b1" by (rule book_ok_cross [OF c assms(2)])
  have ids: "order_id ord \<notin> book_ids b1" using book_ids_cross [OF c] assms(3) by blast
  show ?thesis
  proof (cases "left = 0")
    case True
    with b' ord' ok1 show ?thesis by simp
  next
    case False
    have qo: "queue_ok (opposite ?s) q"
      using book_ok_queue [OF ok1, of "opposite ?s"] by (simp add: b1)
    have nc: "\<forall>y\<in>set q. \<not> crosses ?s (order_price ord) (order_price y)"
      using queue_not_crossed [OF qo sweep_stops [OF sw False]] by blast
    have fresh: "order_id ord \<notin> order_id ` set (b1 t)" for t
      using ids in_book_ids [of _ b1] by fastforce
    have "queue_ok ?s (enqueue ?s ord' (b ?s))"
      by (rule queue_ok_enqueue)
        (use book_ok_queue [OF ok1, of ?s] fresh [of ?s] False in \<open>auto simp: ord' b1\<close>)
    with False ok1 nc fresh [of "opposite ?s"] show ?thesis
      unfolding book_ok_sides [of _ ?s]
      by (simp add: b' ord' b1 spec_rest_def set_enqueue)
  qed
qed

lemma book_ids_match:
  assumes "spec_match b ord = (ts, b')"
  shows "book_ids b' \<subseteq> insert (order_id ord) (book_ids b)"
proof -
  obtain b1 ord' where c: "spec_cross b ord = (ts, b1, ord')"
    and b': "b' = (if 0 < order_quantity ord' then spec_rest b1 ord' else b1)"
    using assms by (auto simp: spec_match_def split: prod.splits)
  have "order_id ord' = order_id ord" by (rule spec_cross_parts [OF c]) simp
  then have "book_ids b' \<subseteq> insert (order_id ord) (book_ids b1)"
    by (cases "order_side ord'") (auto simp: b' spec_rest_def book_ids_two set_enqueue)
  with book_ids_cross [OF c] show ?thesis by blast
qed

section \<open>Depth\<close>

lemma aggregate_head:
  assumes "rest \<noteq> []"
  obtains l ls where "aggregate rest = l # ls" "level_price l = fst (hd rest)"
proof (cases rest)
  case (Cons e es)
  then have "\<exists>l ls. aggregate rest = l # ls \<and> level_price l = fst (hd rest)"
    by (cases e; cases "aggregate es") auto
  then show ?thesis using that by blast
qed (use assms in simp)

lemma aggregate_level:
  assumes "rest = [] \<or> fst (hd rest) \<noteq> p"
  shows "aggregate (map (Pair p) (q # qs) @ rest) =
    \<lparr>level_price = p, level_quantity = sum_list (q # qs)\<rparr> # aggregate rest"
proof (induction qs arbitrary: q)
  case Nil
  show ?case
  proof (cases "rest = []")
    case False
    then obtain l ls where "aggregate rest = l # ls" "level_price l = fst (hd rest)"
      by (rule aggregate_head)
    with False assms show ?thesis by simp
  qed simp
next
  case (Cons q' qs)
  then show ?case by simp
qed

lemma aggregate_levels:
  assumes "distinct (map fst m)" "no_empty_level m"
  shows "aggregate (concat (map level_items m)) =
    map (\<lambda>e. \<lparr>level_price = fst e, level_quantity = sum_list (snd e)\<rparr>) m"
  using assms
proof (induction m)
  case (Cons e m)
  obtain p q qs where e: "e = (p, q # qs)"
    using Cons.prems(2) by (cases e; cases "snd e") (auto simp: no_empty_level_def)
  let ?rest = "concat (map level_items m)"
  have "fst x \<noteq> p" if "x \<in> set ?rest" for x
    using that Cons.prems(1) by (auto simp: e) force
  then have "?rest = [] \<or> fst (hd ?rest) \<noteq> p" using hd_in_set by blast
  from aggregate_level [OF this, of q qs] Cons show ?case
    by (simp add: e no_empty_level_def)
qed simp

lemma dir_distinct: "distinct (map fst m) \<Longrightarrow> distinct (map fst (dir s m))"
  by (cases s) (auto simp: rev_map [symmetric])

lemma aggregate_flat:
  assumes "omap_ok m" "no_empty_level m"
  shows "aggregate (flat s m) =
    map (\<lambda>e. \<lparr>level_price = fst e, level_quantity = sum_list (snd e)\<rparr>) (dir s m)"
  unfolding flat_def
  by (rule aggregate_levels)
    (use assms dir_distinct [OF omap_ok_distinct [OF assms(1)]] in \<open>auto simp: no_empty_level_def\<close>)

lemma aggregate_prices: "level_price ` set (aggregate xs) = fst ` set xs"
proof (induction xs rule: aggregate.induct)
  case (2 p q rest)
  then show ?case by (cases "aggregate rest") (auto simp: image_iff)
qed simp

lemma aggregate_sorted:
  assumes "sorted_wrt (\<lambda>a b. ahead s (fst a) (fst b)) xs"
  shows "sorted_wrt (\<lambda>a b. \<not> ahead s (level_price b) (level_price a)) (aggregate xs)"
  using assms
proof (induction xs rule: aggregate.induct)
  case (2 p q rest)
  show ?case
  proof (cases "aggregate rest")
    case (Cons l ls)
    with 2 have IH: "sorted_wrt (\<lambda>a b. \<not> ahead s (level_price b) (level_price a)) (l # ls)" by simp
    have "level_price l \<in> fst ` set rest" using aggregate_prices [of rest] by (auto simp: Cons)
    then have pl: "ahead s p (level_price l)" using 2(2) by auto
    have "\<not> ahead s (level_price x) p" if "x \<in> set ls" for x
      using IH that ahead_trans [OF _ pl, of "level_price x"] by auto
    moreover have "\<not> ahead s (level_price l) p" if "level_price l \<noteq> p"
      using that pl ahead_antisym by blast
    ultimately show ?thesis using IH Cons by auto
  qed simp
qed simp

lemma aggregate_quantity:
  assumes "sorted_wrt (\<lambda>a b. ahead s (fst a) (fst b)) xs" "l \<in> set (aggregate xs)"
  shows "level_quantity l = (\<Sum>e\<leftarrow>filter (\<lambda>e. fst e = level_price l) xs. snd e)"
  using assms
proof (induction xs arbitrary: l rule: aggregate.induct)
  case (2 p q rest)
  have IH: "level_quantity k = (\<Sum>e\<leftarrow>filter (\<lambda>e. fst e = level_price k) rest. snd e)" if "k \<in> set (aggregate rest)" for k
    using 2 that by simp
  show ?case
  proof (cases "aggregate rest")
    case Nil
    then have "rest = []" using aggregate_prices [of rest] by simp
    with 2(3) show ?thesis by simp
  next
    case (Cons h ls)
    note srt = aggregate_sorted [OF 2(2)]
    have other: "level_quantity k = (\<Sum>e\<leftarrow>filter (\<lambda>e. fst e = level_price k) ((p, q) # rest). snd e)"
      if "k \<in> set (aggregate rest)" "level_price k \<noteq> p" for k using IH [OF that(1)] that(2) by simp
    show ?thesis
    proof (cases "level_price h = p")
      case True
      with Cons srt have "level_price k \<noteq> p" if "k \<in> set ls" for k using that by fastforce
      from this [of l] True Cons 2(3) other [of l] IH [of h] show ?thesis by auto
    next
      case False
      with Cons srt have ne: "level_price k \<noteq> p" if "k \<in> set (aggregate rest)" for k using that by fastforce
      then have "p \<notin> fst ` set rest" unfolding aggregate_prices [symmetric] by (metis imageE)
      then have none: "filter (\<lambda>e. fst e = p) rest = []" by (auto simp: filter_empty_conv)
      from 2(3) False Cons have "l = \<lparr>level_price = p, level_quantity = q\<rparr> \<or> l \<in> set (aggregate rest)" by auto
      then show ?thesis using none ne [of l] other [of l] by auto
    qed
  qed
qed simp

lemma spec_depth_quantity:
  assumes "book_ok b" "l \<in> set (spec_depth b s n)"
  shows "level_quantity l = (\<Sum>r\<leftarrow>filter (\<lambda>r. order_price r = level_price l) (b s). order_quantity r)"
proof -
  have "sorted_wrt (\<lambda>x y. ahead s (fst x) (fst y)) (map (\<lambda>r. (order_price r, order_quantity r)) (b s))"
    using book_ok_queue [OF assms(1), of s] by (simp add: queue_ok_def sorted_wrt_map)
  from aggregate_quantity [OF this, of l] assms(2) show ?thesis
    by (auto simp: spec_depth_def filter_map o_def dest: in_set_takeD)
qed

text \<open>A depth lists the distinct prices of the queue in queue order, and leaves none out but those beyond \<open>n\<close>.\<close>

lemma aggregate_price_list: "map level_price (aggregate xs) = remdups_adj (map fst xs)"
proof (induction xs rule: aggregate.induct)
  case (2 p q rest)
  show ?case
  proof (cases "aggregate rest")
    case Nil
    then have "rest = []" using aggregate_prices [of rest] by simp
    then show ?thesis by simp
  next
    case (Cons l ls)
    then have "rest \<noteq> []" by auto
    then have "level_price l = fst (hd rest)" using Cons by (metis aggregate_head list.inject)
    with 2 Cons \<open>rest \<noteq> []\<close> show ?thesis by (cases rest) auto
  qed
qed simp

lemma spec_depth_prices: "map level_price (spec_depth b s n) = take n (remdups_adj (map order_price (b s)))"
  by (simp add: spec_depth_def take_map [symmetric] aggregate_price_list o_def)

lemma length_spec_depth: "length (spec_depth b s n) \<le> n"
  by (simp add: spec_depth_def)

lemma spec_depth_sorted:
  assumes "book_ok b"
  shows "sorted_wrt (\<lambda>x y. \<not> ahead s (level_price y) (level_price x)) (spec_depth b s n)"
proof -
  have "sorted_wrt (\<lambda>x y. ahead s (fst x) (fst y)) (map (\<lambda>r. (order_price r, order_quantity r)) (b s))"
    using book_ok_queue [OF assms, of s] by (simp add: queue_ok_def sorted_wrt_map)
  then show ?thesis unfolding spec_depth_def by (intro sorted_wrt_take aggregate_sorted)
qed

section \<open>The interface\<close>

text \<open>
  What the order manager and the registry rely on.  \<open>inv\<close> is an implementation's
  representation invariant and \<open>abs\<close> the book it stands for.  Every mutating call returns
  (no loop, no undefined behaviour) provided the id it may rest is not resting already.
\<close>

locale price_time_matcher =
  fixes M :: "'m IMatcher"
    and inv :: "'m \<Rightarrow> bool"
    and abs :: "'m \<Rightarrow> book"
  assumes abs_ok: "inv m \<Longrightarrow> book_ok (abs m)"
    and match_law: "inv m \<Longrightarrow> order_id ord \<notin> book_ids (abs m) \<Longrightarrow>
      \<exists>m'. vt_matchOrder M m ord = Some (fst (spec_match (abs m) ord), m') \<and>
           inv m' \<and> abs m' = snd (spec_match (abs m) ord)"
    and add_law: "inv m \<Longrightarrow> order_id ord \<notin> book_ids (abs m) \<Longrightarrow>
      \<exists>m'. vt_addOrder M m ord = Some m' \<and> inv m' \<and> abs m' = snd (spec_match (abs m) ord)"
    and cancel_law: "inv m \<Longrightarrow>
      \<exists>m'. vt_cancelOrder M m i = Some m' \<and> inv m' \<and> abs m' = spec_cancel (abs m) i"
    and bestBid_law: "inv m \<Longrightarrow> vt_bestBid M m = spec_best (abs m) Buy"
    and bestAsk_law: "inv m \<Longrightarrow> vt_bestAsk M m = spec_best (abs m) Sell"
    and bidDepth_law: "inv m \<Longrightarrow> vt_bidDepth M m n = Some (spec_depth (abs m) Buy n)"
    and askDepth_law: "inv m \<Longrightarrow> vt_askDepth M m n = Some (spec_depth (abs m) Sell n)"

section \<open>Crossing loops\<close>

text \<open>
  Both implementations match by a loop that trades with the front of the opposite side and
  then rest the remainder.  Whatever the representation, a loop that stops when the book
  does not cross and otherwise takes one such step performs a \<open>sweep\<close>, and it terminates,
  because a step either uses up the incoming order or shortens the opposite queue.
\<close>

locale crossing_loop =
  fixes st :: "'m \<Rightarrow> bool"
    and bk :: "'m \<Rightarrow> book"
    and loop :: "'m \<Rightarrow> Order \<Rightarrow> Trade list \<Rightarrow> (Trade list \<times> 'm \<times> Order) option"
    and rest :: "'m \<Rightarrow> Order \<Rightarrow> 'm option"
  assumes loop_stop: "st m \<Longrightarrow> s = order_side inc \<Longrightarrow>
      order_quantity inc = 0 \<or> bk m (opposite s) = [] \<or>
        \<not> crosses s (order_price inc) (order_price (hd (bk m (opposite s)))) \<Longrightarrow>
      loop m inc trades = Some (trades, m, inc)"
    and loop_step: "st m \<Longrightarrow> s = order_side inc \<Longrightarrow> bk m (opposite s) = r # q \<Longrightarrow>
      order_quantity inc \<noteq> 0 \<Longrightarrow> crosses s (order_price inc) (order_price r) \<Longrightarrow>
      t = min (order_quantity inc) (order_quantity r) \<Longrightarrow>
      \<exists>m'. loop m inc trades = loop m' (inc\<lparr>order_quantity := order_quantity inc - t\<rparr>)
             (trades @ [\<lparr>trade_incoming = order_id inc, trade_resting = order_id r,
                         trade_price = order_price r, trade_quantity = t\<rparr>]) \<and>
           st m' \<and> bk m' = (bk m)(opposite s := if order_quantity r - t = 0 then q
             else r\<lparr>order_quantity := order_quantity r - t\<rparr> # q)"
    and rest_step: "st m \<Longrightarrow> order_id ord \<notin> book_ids (bk m) \<Longrightarrow>
      \<exists>m'. rest m ord = Some m' \<and> st m' \<and> bk m' = spec_rest (bk m) ord"
begin

lemma loop_sweep:
  assumes "st m" "s = order_side inc" "bk m (opposite s) = rs"
    "sweep s (order_price inc) (order_id inc) (order_quantity inc) rs = (ts, rs', left)"
  shows "\<exists>m'. loop m inc trades = Some (trades @ ts, m', inc\<lparr>order_quantity := left\<rparr>) \<and>
    st m' \<and> bk m' = (bk m)(opposite s := rs')"
  using assms
proof (induction rs arbitrary: m inc trades ts left)
  case Nil
  then show ?case by (auto simp: loop_stop fun_eq_iff)
next
  case (Cons r q)
  show ?case
  proof (cases "order_quantity inc \<noteq> 0 \<and> crosses s (order_price inc) (order_price r)")
    case False
    with Cons.prems show ?thesis by (auto simp: loop_stop fun_eq_iff)
  next
    case True
    define t where "t = min (order_quantity inc) (order_quantity r)"
    let ?t = "\<lparr>trade_incoming = order_id inc, trade_resting = order_id r,
      trade_price = order_price r, trade_quantity = t\<rparr>"
    let ?inc = "inc\<lparr>order_quantity := order_quantity inc - t\<rparr>"
    obtain m1 where m1: "loop m inc trades = loop m1 ?inc (trades @ [?t])" "st m1"
      "bk m1 = (bk m)(opposite s := if order_quantity r - t = 0 then q
         else r\<lparr>order_quantity := order_quantity r - t\<rparr> # q)"
      using loop_step [OF Cons.prems(1-3) _ _ t_def, of trades] True by blast
    show ?thesis
    proof (cases "order_quantity r - t = 0")
      case filled: True
      obtain ts' where ts': "sweep s (order_price ?inc) (order_id ?inc) (order_quantity ?inc) q = (ts', rs', left)"
        "ts = ?t # ts'"
        using True filled Cons.prems(4) by (auto simp: Let_def t_def split: prod.splits)
      have "\<exists>m'. loop m1 ?inc (trades @ [?t]) =
          Some ((trades @ [?t]) @ ts', m', ?inc\<lparr>order_quantity := left\<rparr>) \<and>
          st m' \<and> bk m' = (bk m1)(opposite s := rs')"
        by (rule Cons.IH [OF m1(2) _ _ ts'(1)]) (use Cons.prems(2) m1(3) filled in auto)
      with filled m1 ts'(2) show ?thesis by auto
    next
      case False
      then have "order_quantity inc - t = 0"
        by (auto simp: t_def min_def split: if_splits)
      with False True Cons.prems m1 show ?thesis
        by (auto simp: Let_def t_def [symmetric] loop_stop fun_eq_iff)
    qed
  qed
qed

lemma match_refines:
  assumes "st m" "book_ok (bk m)" "order_id ord \<notin> book_ids (bk m)"
  shows "\<exists>m'. do { (ts, m1, inc) \<leftarrow> loop m ord [];
                  m2 \<leftarrow> (if 0 < order_quantity inc then rest m1 inc else Some m1);
                  Some (ts, m2) } = Some (fst (spec_match (bk m) ord), m') \<and>
    st m' \<and> book_ok (bk m') \<and> bk m' = snd (spec_match (bk m) ord)"
proof -
  let ?s = "order_side ord"
  obtain ts b1 ord' where c: "spec_cross (bk m) ord = (ts, b1, ord')" by (metis prod_cases3)
  obtain q left where sw: "sweep ?s (order_price ord) (order_id ord) (order_quantity ord)
      (bk m (opposite ?s)) = (ts, q, left)" and b1: "b1 = (bk m)(opposite ?s := q)"
    and ord': "ord' = ord\<lparr>order_quantity := left\<rparr>"
    using spec_cross_parts [OF c] by metis
  obtain m1 where m1: "loop m ord [] = Some (ts, m1, ord')" "st m1" "bk m1 = b1"
    using loop_sweep [OF assms(1) refl refl sw, of "[]"] by (auto simp: b1 ord')
  have "order_id ord' \<notin> book_ids (bk m1)"
    using book_ids_cross [OF c] assms(3) by (auto simp: m1(3) ord')
  then obtain m2 where m2: "rest m1 ord' = Some m2" "st m2" "bk m2 = spec_rest (bk m1) ord'"
    using rest_step [OF m1(2)] by blast
  have ok: "book_ok (snd (spec_match (bk m) ord))"
    by (rule book_ok_match [OF prod.collapse [symmetric] assms(2,3)])
  show ?thesis
  proof (cases "0 < order_quantity ord'")
    case True
    with ok m1 m2 show ?thesis by (intro exI [of _ m2]) (auto simp: spec_match_def c)
  next
    case False
    with ok m1 show ?thesis by (intro exI [of _ m1]) (auto simp: spec_match_def c)
  qed
qed

end

end
