(* ===== verification/Reference_Matcher.thy ===== *)
theory Reference_Matcher
  imports Matcher_Spec
begin

text \<open>
  \<open>ReferenceMatcher\<close> (\<open>reference/order_book.hpp\<close>, \<open>reference/order_book.cpp\<close>), the
  correctness oracle: a \<open>std::map\<close> of \<open>std::list\<close> levels per side and a table from order id
  to the order's place.  A list node keeps its identity while it lives, which is what the
  stored iterator relies on: nodes are numbered by \<open>ref_fresh\<close>, an iterator is a node
  number, and erasing through an iterator whose node is gone has no result (\<open>None\<close>).

  The section on refinement shows that from every well-formed state every operation returns
  and does on the queues exactly what the contract of \<open>IMatcher\<close> says.
\<close>

section \<open>State and operations\<close>

type_synonym OrderList = "(nat \<times> Order) list"
type_synonym PriceLevels = "(Price, OrderList) omap"

record OrderLocation =
  loc_side :: Side
  loc_price :: Price
  loc_it :: nat

record ReferenceMatcher =
  ref_bids :: PriceLevels
  ref_asks :: PriceLevels
  ref_orderTable :: "OrderId \<rightharpoonup> OrderLocation"
  ref_fresh :: nat

definition new_ReferenceMatcher :: ReferenceMatcher where
  "new_ReferenceMatcher =
     \<lparr>ref_bids = [], ref_asks = [], ref_orderTable = Map.empty, ref_fresh = 0\<rparr>"

primrec ref_levels :: "ReferenceMatcher \<Rightarrow> Side \<Rightarrow> PriceLevels" where
  "ref_levels r Buy = ref_bids r"
| "ref_levels r Sell = ref_asks r"

primrec ref_put_levels :: "Side \<Rightarrow> PriceLevels \<Rightarrow> ReferenceMatcher \<Rightarrow> ReferenceMatcher" where
  "ref_put_levels Buy m r = r\<lparr>ref_bids := m\<rparr>"
| "ref_put_levels Sell m r = r\<lparr>ref_asks := m\<rparr>"

definition ref_restOrder :: "ReferenceMatcher \<Rightarrow> Order \<Rightarrow> ReferenceMatcher" where
  "ref_restOrder r ord =
     (let s = order_side ord;
          levels = ref_levels r s;
          level = omap_at [] (order_price ord) levels;
          node = ref_fresh r;
          location = \<lparr>loc_side = s, loc_price = order_price ord, loc_it = node\<rparr>;
          r' = ref_put_levels s (omap_set (order_price ord) (level @ [(node, ord)]) levels) r
      in r'\<lparr>ref_orderTable := (ref_orderTable r)(order_id ord \<mapsto> location), ref_fresh := Suc node\<rparr>)"

definition ref_bestBid :: "ReferenceMatcher \<Rightarrow> Price" where
  "ref_bestBid r = (if ref_bids r \<noteq> [] then fst (last (ref_bids r)) else -1)"

definition ref_bestAsk :: "ReferenceMatcher \<Rightarrow> Price" where
  "ref_bestAsk r = (if ref_asks r \<noteq> [] then fst (hd (ref_asks r)) else 0)"

definition ref_removeOrder :: "ReferenceMatcher \<Rightarrow> OrderId \<Rightarrow> ReferenceMatcher option" where
  "ref_removeOrder r i =
     (case ref_orderTable r i of
        None \<Rightarrow> Some r
      | Some location \<Rightarrow>
          (let s = loc_side location; p = loc_price location; levels = ref_levels r s in
           case map_of levels p of
             None \<Rightarrow> None
           | Some level \<Rightarrow>
               if loc_it location \<notin> fst ` set level then None
               else
                 let level' = filter (\<lambda>x. fst x \<noteq> loc_it location) level;
                     levels' = (if level' = [] then omap_erase p levels else omap_set p level' levels)
                 in Some ((ref_put_levels s levels' r)
                      \<lparr>ref_orderTable := (ref_orderTable r)(i := None)\<rparr>)))"

text \<open>
  One iteration of the loops in \<open>cross\<close> against side \<open>s\<close>; \<open>front()\<close> of an empty level has no
  result.
\<close>

definition ref_fill :: "Side \<Rightarrow> Price \<Rightarrow> ReferenceMatcher \<Rightarrow> Order \<Rightarrow> (Trade \<times> ReferenceMatcher \<times> Order) option" where
  "ref_fill s best r inc =
     (case omap_at [] best (ref_levels r s) of
        [] \<Rightarrow> None
      | (node, resting) # rest \<Rightarrow>
          (let traded = min (order_quantity inc) (order_quantity resting);
               trade = \<lparr>trade_incoming = order_id inc, trade_resting = order_id resting,
                        trade_price = order_price resting, trade_quantity = traded\<rparr>;
               resting' = resting\<lparr>order_quantity := order_quantity resting - traded\<rparr>;
               r' = ref_put_levels s (omap_set best ((node, resting') # rest) (ref_levels r s)) r;
               inc' = inc\<lparr>order_quantity := order_quantity inc - traded\<rparr>
           in if order_quantity resting' = 0
              then do { r'' \<leftarrow> ref_removeOrder r' (order_id resting'); Some (trade, r'', inc') }
              else Some (trade, r', inc')))"

partial_function (option) ref_cross_loop ::
  "ReferenceMatcher \<Rightarrow> Order \<Rightarrow> Trade list \<Rightarrow> (Trade list \<times> ReferenceMatcher \<times> Order) option" where
  "ref_cross_loop r inc trades =
     (if order_side inc = Buy then
        (if 0 < order_quantity inc \<and> order_price inc \<ge> ref_bestAsk r \<and> ref_asks r \<noteq> []
         then do { (t, r', inc') \<leftarrow> ref_fill Sell (ref_bestAsk r) r inc;
                   ref_cross_loop r' inc' (trades @ [t]) }
         else Some (trades, r, inc))
      else
        (if 0 < order_quantity inc \<and> order_price inc \<le> ref_bestBid r \<and> ref_bids r \<noteq> []
         then do { (t, r', inc') \<leftarrow> ref_fill Buy (ref_bestBid r) r inc;
                   ref_cross_loop r' inc' (trades @ [t]) }
         else Some (trades, r, inc)))"

declare ref_cross_loop.simps [code]

definition ref_cross :: "ReferenceMatcher \<Rightarrow> Order \<Rightarrow> (Trade list \<times> ReferenceMatcher \<times> Order) option" where
  "ref_cross r inc = ref_cross_loop r inc []"

definition ref_addOrder :: "ReferenceMatcher \<Rightarrow> Order \<Rightarrow> ReferenceMatcher option" where
  "ref_addOrder r ord =
     do { (_, r', inc) \<leftarrow> ref_cross r ord;
          Some (if 0 < order_quantity inc then ref_restOrder r' inc else r') }"

definition ref_cancelOrder :: "ReferenceMatcher \<Rightarrow> OrderId \<Rightarrow> ReferenceMatcher option" where
  "ref_cancelOrder r i = ref_removeOrder r i"

definition ref_matchOrder :: "ReferenceMatcher \<Rightarrow> Order \<Rightarrow> (Trade list \<times> ReferenceMatcher) option" where
  "ref_matchOrder r ord =
     do { (trades, r', inc) \<leftarrow> ref_cross r ord;
          Some (trades, if 0 < order_quantity inc then ref_restOrder r' inc else r') }"

fun ref_depth_loop :: "(Price \<times> OrderList) list \<Rightarrow> nat \<Rightarrow> PriceLevel list \<Rightarrow> PriceLevel list" where
  "ref_depth_loop [] n result = result"
| "ref_depth_loop ((p, orders) # levels) n result =
     (if length result < n
      then ref_depth_loop levels n
        (result @ [\<lparr>level_price = p,
                    level_quantity = foldl (\<lambda>total x. total + order_quantity (snd x)) 0 orders\<rparr>])
      else result)"

definition ref_depthFrom :: "PriceLevels \<Rightarrow> bool \<Rightarrow> nat \<Rightarrow> PriceLevel list" where
  "ref_depthFrom levels reverse n = ref_depth_loop (if reverse then rev levels else levels) n []"

definition ref_bidDepth :: "ReferenceMatcher \<Rightarrow> nat \<Rightarrow> PriceLevel list option" where
  "ref_bidDepth r n = Some (ref_depthFrom (ref_bids r) True n)"

definition ref_askDepth :: "ReferenceMatcher \<Rightarrow> nat \<Rightarrow> PriceLevel list option" where
  "ref_askDepth r n = Some (ref_depthFrom (ref_asks r) False n)"

definition ReferenceMatcher_vtable :: "ReferenceMatcher IMatcher" where
  "ReferenceMatcher_vtable =
     \<lparr>vt_addOrder = ref_addOrder, vt_cancelOrder = ref_cancelOrder, vt_matchOrder = ref_matchOrder,
      vt_bestBid = ref_bestBid, vt_bestAsk = ref_bestAsk,
      vt_bidDepth = ref_bidDepth, vt_askDepth = ref_askDepth\<rparr>"

section \<open>Representation invariant and abstraction\<close>

abbreviation ref_flat :: "ReferenceMatcher \<Rightarrow> Side \<Rightarrow> (Price \<times> nat \<times> Order) list" where
  "ref_flat r s \<equiv> flat s (ref_levels r s)"

definition ref_book :: "ReferenceMatcher \<Rightarrow> book" where
  "ref_book r s = map (\<lambda>e. snd (snd e)) (ref_flat r s)"

definition ref_levels_ok :: "ReferenceMatcher \<Rightarrow> Side \<Rightarrow> bool" where
  "ref_levels_ok r s \<longleftrightarrow>
     omap_ok (ref_levels r s) \<and> no_empty_level (ref_levels r s) \<and>
     (\<forall>e\<in>set (ref_flat r s). order_price (snd (snd e)) = fst e \<and> fst (snd e) < ref_fresh r) \<and>
     distinct (map (\<lambda>e. fst (snd e)) (ref_flat r s)) \<and>
     distinct (map order_id (ref_book r s))"

definition ref_table_ok :: "ReferenceMatcher \<Rightarrow> bool" where
  "ref_table_ok r \<longleftrightarrow>
     (\<forall>i l. ref_orderTable r i = Some l \<longleftrightarrow>
        (\<exists>ord. (loc_price l, loc_it l, ord) \<in> set (ref_flat r (loc_side l)) \<and> order_id ord = i))"

definition ref_struct :: "ReferenceMatcher \<Rightarrow> bool" where
  "ref_struct r \<longleftrightarrow> (\<forall>s. ref_levels_ok r s) \<and> ref_table_ok r \<and>
     order_id ` set (ref_book r Buy) \<inter> order_id ` set (ref_book r Sell) = {}"

definition ref_inv :: "ReferenceMatcher \<Rightarrow> bool" where
  "ref_inv r \<longleftrightarrow> ref_struct r \<and> book_ok (ref_book r)"

lemma ref_levels_put [simp]:
  "ref_levels (ref_put_levels s m r) t = (if t = s then m else ref_levels r t)"
  "ref_fresh (ref_put_levels s m r) = ref_fresh r"
  "ref_orderTable (ref_put_levels s m r) = ref_orderTable r"
  by (cases s; cases t; simp)+

lemma ref_levels_more [simp]:
  "ref_levels (r\<lparr>ref_orderTable := T\<rparr>) t = ref_levels r t"
  "ref_levels (r\<lparr>ref_fresh := n\<rparr>) t = ref_levels r t"
  by (cases t; simp)+

lemma ref_structD:
  assumes "ref_struct r"
  shows "omap_ok (ref_levels r s)" "no_empty_level (ref_levels r s)"
    "distinct (map (\<lambda>e. fst (snd e)) (ref_flat r s))" "distinct (map order_id (ref_book r s))"
    "e \<in> set (ref_flat r s) \<Longrightarrow> order_price (snd (snd e)) = fst e"
    "e \<in> set (ref_flat r s) \<Longrightarrow> fst (snd e) < ref_fresh r"
    "ref_table_ok r"
  using assms by (auto simp: ref_struct_def ref_levels_ok_def)

lemma ref_book_entry: "ord \<in> set (ref_book r s) \<longleftrightarrow> (\<exists>p n. (p, n, ord) \<in> set (ref_flat r s))"
  by (force simp: ref_book_def)

lemma ref_same_node:
  assumes "ref_struct r" "(p, n, x) \<in> set (ref_flat r s)" "(q, n, y) \<in> set (ref_flat r s)"
  shows "p = q \<and> x = y"
proof -
  from assms(1) have "inj_on (\<lambda>e. fst (snd e)) (set (ref_flat r s))"
    using ref_structD(3) by (auto simp: distinct_map)
  from inj_onD [OF this _ assms(2,3)] show ?thesis by simp
qed

lemma ref_same_id:
  assumes "ref_struct r" "(p, n, x) \<in> set (ref_flat r s)" "(q, k, y) \<in> set (ref_flat r s)"
    "order_id x = order_id y"
  shows "p = q \<and> n = k \<and> x = y"
proof -
  from assms(1) have "distinct (map (\<lambda>e. order_id (snd (snd e))) (ref_flat r s))"
    using ref_structD(4) [OF assms(1), of s] by (simp add: ref_book_def o_def)
  then have "inj_on (\<lambda>e. order_id (snd (snd e))) (set (ref_flat r s))" by (simp add: distinct_map)
  from inj_onD [OF this _ assms(2,3)] assms(4) show ?thesis by simp
qed

lemma ref_ids_disjoint:
  assumes "ref_struct r" "x \<in> set (ref_book r s)" "y \<in> set (ref_book r t)" "order_id x = order_id y"
  shows "s = t"
proof (rule ccontr)
  assume "s \<noteq> t"
  then have "order_id ` set (ref_book r s) \<inter> order_id ` set (ref_book r t) = {}"
    using assms(1) by (cases s; cases t) (auto simp: ref_struct_def)
  with assms(2-4) show False by (metis IntI empty_iff imageI)
qed

lemma ref_table_lookup:
  assumes "ref_struct r" "ref_orderTable r i = Some l"
  obtains ord where "(loc_price l, loc_it l, ord) \<in> set (ref_flat r (loc_side l))" "order_id ord = i"
  using assms ref_structD(7) [OF assms(1)] by (auto simp: ref_table_ok_def)

lemma ref_table_None:
  assumes "ref_struct r"
  shows "ref_orderTable r i = None \<longleftrightarrow> i \<notin> book_ids (ref_book r)"
proof -
  have *: "\<And>i l. ref_orderTable r i = Some l \<longleftrightarrow>
      (\<exists>ord. (loc_price l, loc_it l, ord) \<in> set (ref_flat r (loc_side l)) \<and> order_id ord = i)"
    using ref_structD(7) [OF assms] by (simp add: ref_table_ok_def)
  show ?thesis
  proof
    assume none: "ref_orderTable r i = None"
    show "i \<notin> book_ids (ref_book r)"
    proof
      assume "i \<in> book_ids (ref_book r)"
      then obtain s p n ord where "(p, n, ord) \<in> set (ref_flat r s)" "order_id ord = i"
        by (auto simp: book_ids_def ref_book_def)
      then have "ref_orderTable r i = Some \<lparr>loc_side = s, loc_price = p, loc_it = n\<rparr>"
        by (auto simp: *)
      with none show False by simp
    qed
  next
    assume fresh: "i \<notin> book_ids (ref_book r)"
    show "ref_orderTable r i = None"
    proof (cases "ref_orderTable r i")
      case (Some l)
      then obtain ord where "(loc_price l, loc_it l, ord) \<in> set (ref_flat r (loc_side l))" "order_id ord = i"
        by (auto simp: *)
      then have "i \<in> book_ids (ref_book r)"
        using in_book_ids [of ord "ref_book r" "loc_side l"] by (auto simp: ref_book_entry)
      with fresh show ?thesis by simp
    qed
  qed
qed

section \<open>Refinement of the contract\<close>

text \<open>Removing the node a table entry points at removes exactly the orders with that id.\<close>

lemma ref_remove_flat:
  assumes "ref_struct r" "ref_orderTable r i = Some l" "s = loc_side l" "p = loc_price l"
  obtains level where "map_of (ref_levels r s) p = Some level" "loc_it l \<in> fst ` set level"
    and "flat s (let level' = filter (\<lambda>x. fst x \<noteq> loc_it l) level in
           if level' = [] then omap_erase p (ref_levels r s) else omap_set p level' (ref_levels r s))
       = filter (\<lambda>e. order_id (snd (snd e)) \<noteq> i) (ref_flat r s)"
proof -
  obtain ord where e: "(p, loc_it l, ord) \<in> set (ref_flat r s)" and i: "order_id ord = i"
    using ref_table_lookup [OF assms(1,2)] assms(3,4) by blast
  have ok: "omap_ok (ref_levels r s)" by (rule ref_structD(1) [OF assms(1)])
  from e obtain level where lv: "map_of (ref_levels r s) p = Some level" and "(loc_it l, ord) \<in> set level"
    by (auto simp: in_flat_map_of [OF ok])
  then have node: "loc_it l \<in> fst ` set level" by force
  obtain A B where fl: "ref_flat r s = A @ map (Pair p) level @ B"
    "\<And>ys. flat s (omap_set p ys (ref_levels r s)) = A @ map (Pair p) ys @ B"
    "flat s (omap_erase p (ref_levels r s)) = A @ B"
    using flat_split_found [OF ok lv, where s = s] by metis
  have same: "fst (snd x) \<noteq> loc_it l \<longleftrightarrow> order_id (snd (snd x)) \<noteq> i" if "x \<in> set (ref_flat r s)" for x
  proof -
    obtain q k y where x: "x = (q, k, y)" by (cases x)
    with that have xin: "(q, k, y) \<in> set (ref_flat r s)" by simp
    have "order_id y = i" if "k = loc_it l"
      using ref_same_node [OF assms(1) e xin [unfolded that]] i by simp
    moreover have "k = loc_it l" if "order_id y = i"
      using ref_same_id [OF assms(1) e xin] i that by simp
    ultimately show ?thesis by (auto simp: x)
  qed
  have "(p, loc_it l, ord) \<in> set (map (Pair p) level)" using \<open>(loc_it l, ord) \<in> set level\<close> by simp
  from distinct_map_around [OF ref_structD(3) [OF assms(1), of s, unfolded fl(1)] this]
  have neq: "fst (snd x) \<noteq> loc_it l" if "x \<in> set A \<union> set B" for x using that by simp
  have AB: "filter (\<lambda>x. fst (snd x) \<noteq> loc_it l) A = A" "filter (\<lambda>x. fst (snd x) \<noteq> loc_it l) B = B"
    using neq by (auto intro!: filter_True)
  have "filter (\<lambda>e. order_id (snd (snd e)) \<noteq> i) (ref_flat r s)
      = filter (\<lambda>x. fst (snd x) \<noteq> loc_it l) (ref_flat r s)"
    using same by (auto intro!: filter_cong)
  also have "\<dots> = A @ map (Pair p) (filter (\<lambda>x. fst x \<noteq> loc_it l) level) @ B"
    by (simp add: fl(1) AB filter_map o_def)
  finally show ?thesis
    using that [OF lv node] by (simp add: fl(2,3) Let_def split: if_splits)
qed

lemma ref_struct_frame:
  assumes "ref_struct r"
    and "omap_ok m" "no_empty_level m" "flat s m = filter P (ref_flat r s)"
    and "ref_table_ok ((ref_put_levels s m r)\<lparr>ref_orderTable := T\<rparr>)"
  shows "ref_struct ((ref_put_levels s m r)\<lparr>ref_orderTable := T\<rparr>)"
proof -
  let ?r = "(ref_put_levels s m r)\<lparr>ref_orderTable := T\<rparr>"
  have b: "ref_book ?r t = (if t = s then map (\<lambda>e. snd (snd e)) (filter P (ref_flat r s)) else ref_book r t)" for t
    by (simp add: ref_book_def assms(4))
  have "ref_levels_ok ?r t" for t
    using assms(2-4) ref_structD(1-4) [OF assms(1), of t] ref_structD(5,6) [OF assms(1), of _ t]
    by (auto simp: ref_levels_ok_def b ref_book_def distinct_map_filter o_def)
  moreover have "set (ref_book ?r t) \<subseteq> set (ref_book r t)" for t
    unfolding b by (auto simp: ref_book_def)
  then have "order_id ` set (ref_book ?r Buy) \<inter> order_id ` set (ref_book ?r Sell) = {}"
    using assms(1) unfolding ref_struct_def by (meson disjoint_iff image_mono subset_iff)
  ultimately show ?thesis using assms(5) by (simp add: ref_struct_def)
qed

lemma ref_remove:
  assumes "ref_struct r"
  obtains r' where "ref_removeOrder r i = Some r'" "ref_struct r'"
    "ref_book r' = spec_cancel (ref_book r) i" "ref_fresh r' = ref_fresh r"
proof (cases "ref_orderTable r i")
  case None
  then have "i \<notin> book_ids (ref_book r)" using ref_table_None [OF assms] by simp
  then have "spec_cancel (ref_book r) i = ref_book r" by (rule spec_cancel_fresh)
  with None assms show ?thesis by (intro that [of r]) (auto simp: ref_removeOrder_def)
next
  case (Some l)
  define s where "s = loc_side l"
  define p where "p = loc_price l"
  obtain level where lv: "map_of (ref_levels r s) p = Some level" "loc_it l \<in> fst ` set level"
    and fl: "flat s (let level' = filter (\<lambda>x. fst x \<noteq> loc_it l) level in
        if level' = [] then omap_erase p (ref_levels r s) else omap_set p level' (ref_levels r s))
      = filter (\<lambda>e. order_id (snd (snd e)) \<noteq> i) (ref_flat r s)" (is "flat s ?m = _")
    using ref_remove_flat [OF assms Some s_def p_def] by blast
  let ?r = "(ref_put_levels s ?m r)\<lparr>ref_orderTable := (ref_orderTable r)(i := None)\<rparr>"
  have eq: "ref_removeOrder r i = Some ?r"
    using Some lv by (simp add: ref_removeOrder_def s_def p_def Let_def)
  have other: "order_id x \<noteq> i" if "(q, n, x) \<in> set (ref_flat r t)" "t \<noteq> s" for q n x t
  proof -
    obtain ord where "(loc_price l, loc_it l, ord) \<in> set (ref_flat r s)" "order_id ord = i"
      using ref_table_lookup [OF assms Some] s_def by blast
    moreover from this have "ord \<in> set (ref_book r s)" by (auto simp: ref_book_entry)
    moreover have "x \<in> set (ref_book r t)" using that by (auto simp: ref_book_entry)
    ultimately show ?thesis using ref_ids_disjoint [OF assms] \<open>t \<noteq> s\<close> by blast
  qed
  have "ref_table_ok ?r"
    using ref_structD(7) [OF assms] other unfolding ref_table_ok_def
    by (auto simp: fl)
  then have st: "ref_struct ?r"
    using assms ref_structD(1,2) [OF assms, of s]
    by (intro ref_struct_frame [OF assms _ _ fl])
      (auto simp: Let_def omap_simps no_empty_level_set no_empty_level_erase)
  have "ref_book ?r t = spec_cancel (ref_book r) i t" for t
  proof (cases "t = s")
    case True
    then show ?thesis by (simp add: ref_book_def spec_cancel_def fl filter_map o_def)
  next
    case False
    then have "filter (\<lambda>x. order_id x \<noteq> i) (ref_book r t) = ref_book r t"
      using other by (fastforce simp: ref_book_def intro!: filter_True)
    with False show ?thesis by (simp add: ref_book_def spec_cancel_def)
  qed
  with eq st show ?thesis by (intro that [of ?r]) auto
qed

primrec ref_best :: "Side \<Rightarrow> ReferenceMatcher \<Rightarrow> Price" where
  "ref_best Buy r = ref_bestBid r"
| "ref_best Sell r = ref_bestAsk r"

lemma ref_best_level:
  assumes "best_level s (ref_levels r s) = Some (p, xs)"
  shows "ref_best s r = p"
  using assms
  by (cases s) (auto simp: ref_bestBid_def ref_bestAsk_def best_level_def last_rev hd_rev [symmetric]
      split: list.splits)

lemma ref_head:
  assumes "ref_struct r" "ref_book r s = ord # q"
  obtains p n rest T where "omap_at [] p (ref_levels r s) = (n, ord) # rest" "ref_best s r = p"
    "ref_levels r s \<noteq> []" "order_price ord = p"
    "ref_flat r s = (p, n, ord) # T" "map (\<lambda>e. snd (snd e)) T = q"
    "\<And>x. flat s (omap_set p ((n, x) # rest) (ref_levels r s)) = (p, n, x) # T"
proof -
  note ok = ref_structD(1,2) [OF assms(1), of s]
  have ne: "ref_levels r s \<noteq> []" using assms(2) by (auto simp: ref_book_def)
  then obtain p xs where bl: "best_level s (ref_levels r s) = Some (p, xs)"
    by (metis best_level_None not_None_eq surj_pair)
  obtain B where B: "ref_flat r s = map (Pair p) xs @ B"
    "\<And>ys. flat s (omap_set p ys (ref_levels r s)) = map (Pair p) ys @ B"
    using best_level_flat [OF ok(1) bl] by metis
  note mo = best_level_found [OF ok(1) bl]
  have "xs \<noteq> []" using map_of_SomeD [OF mo] ok(2) by (fastforce simp: no_empty_level_def)
  then obtain n ord' rest where xs: "xs = (n, ord') # rest" by (metis list.exhaust surj_pair)
  with B assms(2) have [simp]: "ord' = ord" by (simp add: ref_book_def)
  have q: "q = map (\<lambda>e. snd (snd e)) (map (Pair p) rest @ B)" using assms(2) B xs by (simp add: ref_book_def)
  have "(p, n, ord) \<in> set (ref_flat r s)" by (simp add: B xs)
  then have "order_price ord = p" using ref_structD(5) [OF assms(1)] by fastforce
  then show ?thesis
    using ne mo xs B q ref_best_level [OF bl]
    by (intro that [of p n rest "map (Pair p) rest @ B"]) (auto simp: omap_at_def)
qed

lemma ref_touch_head:
  assumes "ref_struct r" "ref_flat r s = (p, n, ord) # T" "flat s m = (p, n, ord\<lparr>order_quantity := x\<rparr>) # T"
    "omap_ok m" "no_empty_level m"
  shows "ref_struct (ref_put_levels s m r)"
    and "ref_book (ref_put_levels s m r) =
      (ref_book r)(s := ord\<lparr>order_quantity := x\<rparr> # map (\<lambda>e. snd (snd e)) T)"
proof -
  let ?r = "ref_put_levels s m r"
  show b: "ref_book ?r = (ref_book r)(s := ord\<lparr>order_quantity := x\<rparr> # map (\<lambda>e. snd (snd e)) T)"
    by (auto simp: ref_book_def assms(3) fun_eq_iff)
  have bs: "ref_book r s = ord # map (\<lambda>e. snd (snd e)) T" by (simp add: ref_book_def assms(2))
  have "ref_levels_ok ?r t" for t
  proof -
    have "ref_levels_ok r t" using assms(1) by (simp add: ref_struct_def)
    with assms(2-5) show ?thesis by (cases "t = s") (simp_all add: ref_levels_ok_def ref_book_def)
  qed
  moreover have "(\<exists>y. (q, k, y) \<in> set (ref_flat ?r t) \<and> order_id y = i) \<longleftrightarrow>
      (\<exists>y. (q, k, y) \<in> set (ref_flat r t) \<and> order_id y = i)" for q k i t
    by (cases "t = s") (auto simp: assms(2,3))
  then have "ref_table_ok ?r"
    using ref_structD(7) [OF assms(1)] by (simp add: ref_table_ok_def)
  moreover have "order_id ` set (ref_book ?r t) = order_id ` set (ref_book r t)" for t
    by (auto simp: b bs)
  ultimately show "ref_struct ?r" using assms(1) by (simp add: ref_struct_def)
qed

text \<open>One loop iteration trades with the head of the opposite queue and nothing else.\<close>

lemma ref_fill_step:
  assumes "ref_struct r" "ref_book r s = ord # q" "traded = min (order_quantity inc) (order_quantity ord)"
  obtains r' where "ref_struct r'" "ref_fill s (ref_best s r) r inc =
      Some (\<lparr>trade_incoming = order_id inc, trade_resting = order_id ord,
             trade_price = order_price ord, trade_quantity = traded\<rparr>, r',
            inc\<lparr>order_quantity := order_quantity inc - traded\<rparr>)"
    "ref_book r' = (ref_book r)(s := if order_quantity ord - traded = 0 then q
       else ord\<lparr>order_quantity := order_quantity ord - traded\<rparr> # q)"
proof -
  obtain p n rest T where h: "omap_at [] p (ref_levels r s) = (n, ord) # rest" "ref_best s r = p"
    "ref_flat r s = (p, n, ord) # T" "map (\<lambda>e. snd (snd e)) T = q"
    "\<And>x. flat s (omap_set p ((n, x) # rest) (ref_levels r s)) = (p, n, x) # T"
    using ref_head [OF assms(1,2)] by metis
  let ?ord = "ord\<lparr>order_quantity := order_quantity ord - traded\<rparr>"
  let ?m = "omap_set p ((n, ?ord) # rest) (ref_levels r s)"
  let ?r = "ref_put_levels s ?m r"
  note ok = ref_structD(1,2) [OF assms(1), of s]
  have "omap_ok ?m" "no_empty_level ?m" using ok by (auto intro: no_empty_level_set)
  note touch = ref_touch_head [OF assms(1) h(3) h(5) this]
  show ?thesis
  proof (cases "order_quantity ord - traded = 0")
    case False
    with touch h show ?thesis
      by (intro that [of ?r]) (auto simp: ref_fill_def Let_def assms(3) [symmetric])
  next
    case True
    obtain r' where r': "ref_removeOrder ?r (order_id ord) = Some r'" "ref_struct r'"
      "ref_book r' = spec_cancel (ref_book ?r) (order_id ord)"
      using ref_remove [OF touch(1)] by metis
    have dist: "distinct (map order_id (ref_book r s))" by (rule ref_structD(4) [OF assms(1)])
    have "order_id x \<noteq> order_id ord" if "x \<in> set (ref_book r t)" "t \<noteq> s" for x t
      using ref_ids_disjoint [OF assms(1) that(1), of ord s] that(2) assms(2) by auto
    moreover have "order_id ord \<notin> order_id ` set q" using dist by (simp add: assms(2))
    then have "order_id x \<noteq> order_id ord" if "x \<in> set q" for x using that by (metis imageI)
    ultimately have "ref_book r' = (ref_book r)(s := q)"
      by (auto simp: r'(3) touch(2) spec_cancel_def fun_eq_iff h(4) intro!: filter_True)
    with True r' h show ?thesis
      by (intro that [of r']) (auto simp: ref_fill_def Let_def assms(3) [symmetric])
  qed
qed

lemma ref_book_empty: "ref_struct r \<Longrightarrow> ref_book r s = [] \<longleftrightarrow> ref_levels r s = []"
  using flat_eq_Nil [OF ref_structD(2)] by (simp add: ref_book_def)

lemma ref_cross_loop_unfold:
  assumes "ref_struct r" "s = order_side inc"
  shows "ref_cross_loop r inc trades =
    (if 0 < order_quantity inc \<and> ref_book r (opposite s) \<noteq> [] \<and>
        crosses s (order_price inc) (order_price (hd (ref_book r (opposite s))))
     then do { (t, r', inc') \<leftarrow> ref_fill (opposite s) (ref_best (opposite s) r) r inc;
               ref_cross_loop r' inc' (trades @ [t]) }
     else Some (trades, r, inc))"
proof (cases "ref_book r (opposite s)")
  case Nil
  then show ?thesis
    using ref_book_empty [OF assms(1), of "opposite s"] assms(2)
    by (cases s) (simp_all add: ref_cross_loop.simps [of r inc])
next
  case (Cons ord q)
  obtain p where p: "ref_best (opposite s) r = p" "order_price ord = p" "ref_levels r (opposite s) \<noteq> []"
    using ref_head [OF assms(1) Cons] by metis
  then show ?thesis
    using Cons assms(2) by (cases s) (simp_all add: ref_cross_loop.simps [of r inc])
qed

lemma ref_rest_flat:
  assumes "ref_struct r" "s = order_side ord"
  shows "ref_flat (ref_restOrder r ord) t =
    (if t = s then enqueue_at s (order_price ord) (ref_fresh r, ord) (ref_flat r s) else ref_flat r t)"
  using flat_push [OF ref_structD(1) [OF assms(1)]] assms(2) by (simp add: ref_restOrder_def Let_def)

lemma ref_rest_book:
  assumes "ref_struct r"
  shows "ref_book (ref_restOrder r ord) = spec_rest (ref_book r) ord"
  using map_enqueue_at [of "ref_flat r (order_side ord)" "\<lambda>e. snd (snd e)"] ref_structD(5) [OF assms]
  by (auto simp: ref_book_def spec_rest_def fun_eq_iff ref_rest_flat [OF assms refl])

lemma ref_rest_struct:
  assumes "ref_struct r" "order_id ord \<notin> book_ids (ref_book r)"
  shows "ref_struct (ref_restOrder r ord)"
proof -
  let ?r = "ref_restOrder r ord" and ?s = "order_side ord" and ?p = "order_price ord"
  note fl = ref_rest_flat [OF assms(1) refl] and bk = ref_rest_book [OF assms(1)]
  have fresh: "order_id ord \<notin> order_id ` set (ref_book r t)" for t
    using assms(2) in_book_ids [of _ "ref_book r" t] by (metis imageE)
  have rf: "ref_fresh ?r = Suc (ref_fresh r)"
    and tb: "ref_orderTable ?r = (ref_orderTable r)(order_id ord \<mapsto>
      \<lparr>loc_side = ?s, loc_price = ?p, loc_it = ref_fresh r\<rparr>)"
    by (simp_all add: ref_restOrder_def Let_def)
  have "ref_levels_ok ?r t" for t
  proof -
    have old: "ref_levels_ok r t" using assms(1) by (simp add: ref_struct_def)
    have lv: "omap_ok (ref_levels ?r t)" "no_empty_level (ref_levels ?r t)"
      using ref_structD(1,2) [OF assms(1), of t]
      by (auto simp: ref_restOrder_def Let_def no_empty_level_set)
    have "ref_fresh r \<notin> (\<lambda>e. fst (snd e)) ` set (ref_flat r t)"
      using ref_structD(6) [OF assms(1)] by fastforce
    then have nodes: "distinct (map (\<lambda>e. fst (snd e)) (ref_flat ?r t))"
      using ref_structD(3) [OF assms(1), of t]
      by (cases "t = ?s") (simp_all add: fl distinct_map_enqueue_at)
    have "distinct (map order_id (ref_book ?r t))"
      using ref_structD(4) [OF assms(1), of t] fresh [of t]
      by (cases "t = ?s") (simp_all add: bk spec_rest_def distinct_enqueue)
    with lv nodes old show ?thesis
      by (auto simp: ref_levels_ok_def rf fl set_enqueue_at)
  qed
  moreover have "ref_table_ok ?r"
    unfolding ref_table_ok_def
  proof (intro allI)
    fix i l
    have old: "ref_orderTable r i = Some l \<longleftrightarrow>
        (\<exists>y. (loc_price l, loc_it l, y) \<in> set (ref_flat r (loc_side l)) \<and> order_id y = i)"
      using ref_structD(7) [OF assms(1)] by (simp add: ref_table_ok_def)
    have none: "order_id y \<noteq> order_id ord" if "(q, n, y) \<in> set (ref_flat r t)" for q n y t
      using fresh [of t] that by (auto simp: ref_book_def image_iff)
    show "ref_orderTable ?r i = Some l \<longleftrightarrow>
        (\<exists>y. (loc_price l, loc_it l, y) \<in> set (ref_flat ?r (loc_side l)) \<and> order_id y = i)"
      using old none by (cases l) (auto simp: tb fl set_enqueue_at)
  qed
  moreover have "order_id ` set (ref_book ?r Buy) \<inter> order_id ` set (ref_book ?r Sell) = {}"
    using assms(1) fresh by (cases ?s) (auto simp: bk spec_rest_def set_enqueue ref_struct_def)
  ultimately show ?thesis by (simp add: ref_struct_def)
qed

interpretation ref_loop: crossing_loop ref_struct ref_book ref_cross_loop "\<lambda>r ord. Some (ref_restOrder r ord)"
proof
  fix m :: ReferenceMatcher and s :: Side and inc ord :: Order and trades r q and t :: Quantity
  assume st: "ref_struct m"
  show "\<exists>m'. Some (ref_restOrder m ord) = Some m' \<and> ref_struct m' \<and> ref_book m' = spec_rest (ref_book m) ord"
    if "order_id ord \<notin> book_ids (ref_book m)"
    using ref_rest_struct [OF st that] ref_rest_book [OF st] by simp
  assume s: "s = order_side inc"
  show "ref_cross_loop m inc trades = Some (trades, m, inc)"
    if "order_quantity inc = 0 \<or> ref_book m (opposite s) = [] \<or>
      \<not> crosses s (order_price inc) (order_price (hd (ref_book m (opposite s))))"
    using that by (auto simp: ref_cross_loop_unfold [OF st s])
  assume asm: "ref_book m (opposite s) = r # q" "order_quantity inc \<noteq> 0"
    "crosses s (order_price inc) (order_price r)" "t = min (order_quantity inc) (order_quantity r)"
  show "\<exists>m'. ref_cross_loop m inc trades = ref_cross_loop m' (inc\<lparr>order_quantity := order_quantity inc - t\<rparr>)
      (trades @ [\<lparr>trade_incoming = order_id inc, trade_resting = order_id r,
         trade_price = order_price r, trade_quantity = t\<rparr>]) \<and>
      ref_struct m' \<and> ref_book m' = (ref_book m)(opposite s := if order_quantity r - t = 0 then q
        else r\<lparr>order_quantity := order_quantity r - t\<rparr> # q)"
    by (rule ref_fill_step [OF st asm(1) asm(4)])
      (use asm(1-3) in \<open>auto simp: ref_cross_loop_unfold [OF st s]\<close>)
qed

lemma ref_match_refines:
  assumes "ref_inv r" "order_id ord \<notin> book_ids (ref_book r)"
  shows "\<exists>r'. ref_matchOrder r ord = Some (fst (spec_match (ref_book r) ord), r') \<and>
    ref_inv r' \<and> ref_book r' = snd (spec_match (ref_book r) ord)"
proof -
  have "ref_matchOrder r ord = do { (ts, r1, inc) \<leftarrow> ref_cross_loop r ord [];
      r2 \<leftarrow> (if 0 < order_quantity inc then Some (ref_restOrder r1 inc) else Some r1); Some (ts, r2) }"
    unfolding ref_matchOrder_def ref_cross_def
    by (intro arg_cong2 [where f = Option.bind] refl ext) auto
  then show ?thesis
    using ref_loop.match_refines [of r ord] assms by (auto simp: ref_inv_def)
qed

lemma ref_addOrder_match: "ref_addOrder r ord = map_option snd (ref_matchOrder r ord)"
  by (cases "ref_cross r ord") (auto simp: ref_addOrder_def ref_matchOrder_def)

lemma ref_cancel_refines:
  assumes "ref_inv r"
  shows "\<exists>r'. ref_cancelOrder r i = Some r' \<and> ref_inv r' \<and> ref_book r' = spec_cancel (ref_book r) i"
proof -
  from assms have "ref_struct r" "book_ok (ref_book r)" by (auto simp: ref_inv_def)
  moreover obtain r' where "ref_removeOrder r i = Some r'" "ref_struct r'"
    "ref_book r' = spec_cancel (ref_book r) i"
    using ref_remove [OF \<open>ref_struct r\<close>] by metis
  ultimately show ?thesis by (simp add: ref_cancelOrder_def ref_inv_def book_ok_cancel)
qed

lemma ref_best_refines:
  assumes "ref_inv r"
  shows "ref_best s r = spec_best (ref_book r) s"
proof (cases "ref_book r s")
  case Nil
  then have "ref_levels r s = []" using assms ref_book_empty by (simp add: ref_inv_def)
  with Nil show ?thesis by (cases s) (simp_all add: spec_best_def ref_bestBid_def ref_bestAsk_def)
next
  case (Cons ord q)
  have "ref_struct r" using assms by (simp add: ref_inv_def)
  then have "ref_best s r = order_price ord" by (rule ref_head [OF _ Cons]) simp
  with Cons show ?thesis by (simp add: spec_best_def)
qed

lemma ref_depth_loop_take:
  "ref_depth_loop levels n result = result @ take (n - length result)
     (map (\<lambda>e. \<lparr>level_price = fst e, level_quantity = sum_list (map (\<lambda>x. order_quantity (snd x)) (snd e))\<rparr>) levels)"
proof (induction levels n result rule: ref_depth_loop.induct)
  case (2 p orders levels n result)
  then show ?case by (auto simp: foldl_add_sum_list Suc_diff_le take_Cons' Suc_diff_Suc)
qed simp

lemma ref_depth_refines:
  assumes "ref_inv r"
  shows "ref_depthFrom (ref_levels r s) (s = Buy) n = spec_depth (ref_book r) s n"
proof -
  from assms have st: "ref_struct r" by (simp add: ref_inv_def)
  let ?m = "omap_map (map (\<lambda>x. order_quantity (snd x))) (ref_levels r s)"
  have ok: "omap_ok ?m" "no_empty_level ?m"
    using ref_structD(1,2) [OF st, of s]
    by (auto simp: omap_simps) (auto simp: no_empty_level_def omap_map_def)
  have "map (\<lambda>x. (order_price x, order_quantity x)) (ref_book r s) = flat s ?m"
    using ref_structD(5) [OF st] by (auto simp: ref_book_def flat_map)
  then have "spec_depth (ref_book r) s n =
      take n (map (\<lambda>e. \<lparr>level_price = fst e, level_quantity = sum_list (snd e)\<rparr>) (dir s ?m))"
    using aggregate_flat [OF ok] by (simp add: spec_depth_def)
  also have "dir s ?m = omap_map (map (\<lambda>x. order_quantity (snd x))) (dir s (ref_levels r s))"
    by (cases s) (simp_all add: omap_map_def rev_map)
  finally show ?thesis
    by (cases s) (simp_all add: ref_depthFrom_def ref_depth_loop_take omap_map_def o_def split_beta)
qed

text \<open>The oracle keeps the contract.\<close>

interpretation ref: price_time_matcher ReferenceMatcher_vtable ref_inv ref_book
proof
  fix m :: ReferenceMatcher and ord :: Order and i n
  assume inv: "ref_inv m"
  show "book_ok (ref_book m)" using inv by (simp add: ref_inv_def)
  show "vt_bestBid ReferenceMatcher_vtable m = spec_best (ref_book m) Buy"
    "vt_bestAsk ReferenceMatcher_vtable m = spec_best (ref_book m) Sell"
    using ref_best_refines [OF inv, of Buy] ref_best_refines [OF inv, of Sell]
    by (simp_all add: ReferenceMatcher_vtable_def)
  show "vt_bidDepth ReferenceMatcher_vtable m n = Some (spec_depth (ref_book m) Buy n)"
    "vt_askDepth ReferenceMatcher_vtable m n = Some (spec_depth (ref_book m) Sell n)"
    using ref_depth_refines [OF inv, of Buy] ref_depth_refines [OF inv, of Sell]
    by (simp_all add: ReferenceMatcher_vtable_def ref_bidDepth_def ref_askDepth_def)
  show "\<exists>m'. vt_cancelOrder ReferenceMatcher_vtable m i = Some m' \<and> ref_inv m' \<and>
      ref_book m' = spec_cancel (ref_book m) i"
    using ref_cancel_refines [OF inv] by (simp add: ReferenceMatcher_vtable_def)
  assume "order_id ord \<notin> book_ids (ref_book m)"
  note r = ref_match_refines [OF inv this]
  show "\<exists>m'. vt_matchOrder ReferenceMatcher_vtable m ord = Some (fst (spec_match (ref_book m) ord), m') \<and>
      ref_inv m' \<and> ref_book m' = snd (spec_match (ref_book m) ord)"
    using r by (simp add: ReferenceMatcher_vtable_def)
  show "\<exists>m'. vt_addOrder ReferenceMatcher_vtable m ord = Some m' \<and> ref_inv m' \<and>
      ref_book m' = snd (spec_match (ref_book m) ord)"
    using r by (auto simp: ReferenceMatcher_vtable_def ref_addOrder_match)
qed

lemma ref_inv_new: "ref_inv new_ReferenceMatcher" "ref_book new_ReferenceMatcher = empty_book"
proof -
  have [simp]: "ref_levels new_ReferenceMatcher s = []" for s
    by (cases s) (simp_all add: new_ReferenceMatcher_def)
  show b: "ref_book new_ReferenceMatcher = empty_book" by (auto simp: ref_book_def empty_book_def)
  show "ref_inv new_ReferenceMatcher"
    by (auto simp: ref_inv_def ref_struct_def ref_levels_ok_def ref_table_ok_def b no_empty_level_def)
      (auto simp: new_ReferenceMatcher_def empty_book_def)
qed

section \<open>Properties\<close>

text \<open>
  C17. The reference matcher implements price-time priority: on a well-formed book and a fresh
  id, \<open>matchOrder\<close> terminates, its trades and its final book are those of sweeping the
  opposite queue from the front and resting the remainder behind equal prices, and the state
  stays well-formed.
\<close>

theorem reference_matches_by_priority:
  assumes "ref_inv m" "order_id ord \<notin> book_ids (ref_book m)"
  shows "\<exists>m'. ref_matchOrder m ord = Some (fst (spec_match (ref_book m) ord), m') \<and>
    ref_inv m' \<and> ref_book m' = snd (spec_match (ref_book m) ord)"
  using ref_match_refines [OF assms] .

theorem reference_matches_by_priority_witness:
  "\<exists>m'. ref_matchOrder new_ReferenceMatcher (limit_order 1 Buy 100 5) = Some ([], m') \<and>
     ref_inv m' \<and> map order_id (ref_book m' Buy) = [1]"
  using reference_matches_by_priority [OF ref_inv_new(1), of "limit_order 1 Buy 100 5"]
  by (auto simp: ref_inv_new(2) book_ids_def empty_book_def limit_order_def spec_match_def spec_cross_def
      Let_def spec_rest_def enqueue_def)

end
