(* ===== verification/Memory_Pool.thy ===== *)
theory Memory_Pool
  imports Titan_Prelude
begin

text \<open>
  \<open>FixedObjectPool\<close> (\<open>include/titan/core/memory_pool.hpp\<close>): slabs of raw storage, one live
  byte per slot and a LIFO free list of slot addresses.  An address is the number of the slab
  it points into and the offset there; an address in no slab of the pool is any other pair,
  and the null pointer is \<open>None\<close>.  Storage with no object in it is \<open>None\<close>, so reading it,
  or a slot whose object was destroyed, has no result.
\<close>

section \<open>State and operations\<close>

datatype ptr = Ptr (ptr_slab: nat) (ptr_offset: nat)

record 'a Slab =
  slab_storage :: "'a option list"
  slab_live :: "bool list"

record 'a FixedObjectPool =
  pool_slabSize :: nat
  pool_slabs :: "'a Slab list"
  pool_freeList :: "ptr list"

definition new_FixedObjectPool :: "nat \<Rightarrow> 'a FixedObjectPool" where
  "new_FixedObjectPool n = \<lparr>pool_slabSize = n, pool_slabs = [], pool_freeList = []\<rparr>"

definition pool_growBySlab :: "'a FixedObjectPool \<Rightarrow> 'a FixedObjectPool" where
  "pool_growBySlab P =
     (let n = pool_slabSize P;
          slab = \<lparr>slab_storage = replicate n None, slab_live = replicate n False\<rparr>;
          base = length (pool_slabs P)
      in P\<lparr>pool_freeList := pool_freeList P @ map (Ptr base) [0..<n],
           pool_slabs := pool_slabs P @ [slab]\<rparr>)"

text \<open>The slot's live byte, \<open>None\<close> when the address is in no slab.\<close>

definition pool_liveFlagFor :: "'a FixedObjectPool \<Rightarrow> ptr \<Rightarrow> bool option" where
  "pool_liveFlagFor P a =
     (if ptr_slab a < length (pool_slabs P) \<and> ptr_offset a < pool_slabSize P
      then Some (slab_live (pool_slabs P ! ptr_slab a) ! ptr_offset a) else None)"

definition pool_put :: "ptr \<Rightarrow> bool \<Rightarrow> 'a option \<Rightarrow> 'a FixedObjectPool \<Rightarrow> 'a FixedObjectPool" where
  "pool_put a live v P =
     (let slab = pool_slabs P ! ptr_slab a;
          slab' = \<lparr>slab_storage = (slab_storage slab)[ptr_offset a := v],
                   slab_live = (slab_live slab)[ptr_offset a := live]\<rparr>
      in P\<lparr>pool_slabs := (pool_slabs P)[ptr_slab a := slab']\<rparr>)"

definition pool_acquire :: "'a \<Rightarrow> 'a FixedObjectPool \<Rightarrow> (ptr \<times> 'a FixedObjectPool) option" where
  "pool_acquire dflt P =
     (let P1 = (if pool_freeList P = [] then pool_growBySlab P else P) in
      if pool_freeList P1 = [] then None
      else
        let a = last (pool_freeList P1);
            P2 = P1\<lparr>pool_freeList := butlast (pool_freeList P1)\<rparr>
        in case pool_liveFlagFor P2 a of
             None \<Rightarrow> None
           | Some _ \<Rightarrow> Some (a, pool_put a True (Some dflt) P2))"

definition pool_release :: "ptr option \<Rightarrow> 'a FixedObjectPool \<Rightarrow> 'a FixedObjectPool" where
  "pool_release q P =
     (case q of
        None \<Rightarrow> P
      | Some a \<Rightarrow>
          (case pool_liveFlagFor P a of
             None \<Rightarrow> P
           | Some live \<Rightarrow>
               if \<not> live then P
               else (pool_put a False None P)\<lparr>pool_freeList := pool_freeList P @ [a]\<rparr>))"

definition pool_slabCount :: "'a FixedObjectPool \<Rightarrow> nat" where
  "pool_slabCount P = length (pool_slabs P)"

definition pool_freeCount :: "'a FixedObjectPool \<Rightarrow> nat" where
  "pool_freeCount P = length (pool_freeList P)"

text \<open>Reading and assigning through a pointer to a live object.\<close>

definition pool_read :: "'a FixedObjectPool \<Rightarrow> ptr \<rightharpoonup> 'a" where
  "pool_read P a =
     (if ptr_slab a < length (pool_slabs P) \<and> ptr_offset a < pool_slabSize P
      then slab_storage (pool_slabs P ! ptr_slab a) ! ptr_offset a else None)"

definition pool_write :: "'a FixedObjectPool \<Rightarrow> ptr \<Rightarrow> 'a \<Rightarrow> 'a FixedObjectPool option" where
  "pool_write P a v = (case pool_read P a of None \<Rightarrow> None | Some _ \<Rightarrow> Some (pool_put a True (Some v) P))"

section \<open>Representation invariant\<close>

definition pool_valid :: "'a FixedObjectPool \<Rightarrow> ptr \<Rightarrow> bool" where
  "pool_valid P a \<longleftrightarrow> ptr_slab a < length (pool_slabs P) \<and> ptr_offset a < pool_slabSize P"

definition pool_ok :: "'a FixedObjectPool \<Rightarrow> bool" where
  "pool_ok P \<longleftrightarrow>
     0 < pool_slabSize P \<and>
     (\<forall>slab\<in>set (pool_slabs P). length (slab_storage slab) = pool_slabSize P \<and>
        length (slab_live slab) = pool_slabSize P) \<and>
     distinct (pool_freeList P) \<and>
     (\<forall>a. a \<in> set (pool_freeList P) \<longleftrightarrow> pool_liveFlagFor P a = Some False) \<and>
     (\<forall>a. pool_liveFlagFor P a = Some True \<longleftrightarrow> pool_read P a \<noteq> None)"

lemma pool_okD:
  assumes "pool_ok P"
  shows "a \<in> set (pool_freeList P) \<longleftrightarrow> pool_liveFlagFor P a = Some False"
    "pool_liveFlagFor P a = Some True \<longleftrightarrow> pool_read P a \<noteq> None"
    "distinct (pool_freeList P)" "0 < pool_slabSize P"
  using assms unfolding pool_ok_def by blast+

lemma pool_put_simps [simp]:
  "pool_slabSize (pool_put a l v P) = pool_slabSize P"
  "pool_freeList (pool_put a l v P) = pool_freeList P"
  "length (pool_slabs (pool_put a l v P)) = length (pool_slabs P)"
  by (simp_all add: pool_put_def Let_def)

lemma pool_more_simps [simp]:
  "pool_liveFlagFor (P\<lparr>pool_freeList := f\<rparr>) a = pool_liveFlagFor P a"
  "pool_read (P\<lparr>pool_freeList := f\<rparr>) a = pool_read P a"
  "pool_put b l v (P\<lparr>pool_freeList := f\<rparr>) = (pool_put b l v P)\<lparr>pool_freeList := f\<rparr>"
  by (simp_all add: pool_liveFlagFor_def pool_read_def pool_put_def Let_def)

lemma pool_valid_flag: "pool_valid P a \<longleftrightarrow> pool_liveFlagFor P a \<noteq> None"
  by (simp add: pool_valid_def pool_liveFlagFor_def)

lemma pool_put_at:
  assumes "pool_ok P" "pool_valid P a"
  shows "pool_liveFlagFor (pool_put a l v P) b = (if b = a then Some l else pool_liveFlagFor P b)"
    and "pool_read (pool_put a l v P) b = (if b = a then v else pool_read P b)"
proof -
  have len: "length (slab_storage (pool_slabs P ! ptr_slab a)) = pool_slabSize P"
    "length (slab_live (pool_slabs P ! ptr_slab a)) = pool_slabSize P"
    using assms by (auto simp: pool_ok_def pool_valid_def)
  show "pool_liveFlagFor (pool_put a l v P) b = (if b = a then Some l else pool_liveFlagFor P b)"
    using assms(2) len by (cases a; cases b)
      (auto simp: pool_liveFlagFor_def pool_put_def Let_def pool_valid_def nth_list_update)
  show "pool_read (pool_put a l v P) b = (if b = a then v else pool_read P b)"
    using assms(2) len by (cases a; cases b)
      (auto simp: pool_read_def pool_put_def Let_def pool_valid_def nth_list_update)
qed

lemma pool_put_lengths:
  assumes "pool_ok P" "pool_valid P a" "slab \<in> set (pool_slabs (pool_put a l v P))"
  shows "length (slab_storage slab) = pool_slabSize P \<and> length (slab_live slab) = pool_slabSize P"
proof -
  have "slab \<in> set (pool_slabs P) \<or> slab = \<lparr>slab_storage = (slab_storage (pool_slabs P ! ptr_slab a))[ptr_offset a := v],
      slab_live = (slab_live (pool_slabs P ! ptr_slab a))[ptr_offset a := l]\<rparr>"
    using assms(3) set_update_subset_insert by (fastforce simp: pool_put_def Let_def)
  moreover have "pool_slabs P ! ptr_slab a \<in> set (pool_slabs P)" using assms(2) by (simp add: pool_valid_def)
  ultimately show ?thesis using assms(1) by (auto simp: pool_ok_def)
qed

lemma pool_grow_at:
  "pool_liveFlagFor (pool_growBySlab P) a =
     (if ptr_slab a = length (pool_slabs P) \<and> ptr_offset a < pool_slabSize P then Some False else pool_liveFlagFor P a)"
  "pool_read (pool_growBySlab P) a = pool_read P a"
  by (auto simp: pool_liveFlagFor_def pool_read_def pool_growBySlab_def Let_def nth_append)

lemma pool_grow_ok:
  assumes "pool_ok P"
  shows "pool_ok (pool_growBySlab P)"
proof -
  let ?Q = "pool_growBySlab P" and ?n = "length (pool_slabs P)"
  have free: "pool_freeList ?Q = pool_freeList P @ map (Ptr ?n) [0..<pool_slabSize P]"
    by (simp add: pool_growBySlab_def Let_def)
  have new: "pool_liveFlagFor P (Ptr ?n i) = None" for i by (simp add: pool_liveFlagFor_def)
  have iff: "a \<in> set (pool_freeList ?Q) \<longleftrightarrow> pool_liveFlagFor ?Q a = Some False" for a
    using assms new by (cases a) (auto simp: free pool_grow_at pool_ok_def)
  have "distinct (pool_freeList ?Q)"
    using assms new by (auto simp: free pool_ok_def distinct_map inj_on_def)
  moreover have "\<forall>slab\<in>set (pool_slabs ?Q). length (slab_storage slab) = pool_slabSize ?Q \<and>
      length (slab_live slab) = pool_slabSize ?Q" and "0 < pool_slabSize ?Q"
    using assms by (auto simp: pool_growBySlab_def Let_def pool_ok_def)
  moreover have "pool_liveFlagFor ?Q a = Some True \<longleftrightarrow> pool_read ?Q a \<noteq> None" for a
  proof -
    have "pool_liveFlagFor P a = Some True \<longleftrightarrow> pool_read P a \<noteq> None" by (rule pool_okD(2) [OF assms])
    then show ?thesis using new by (cases a) (auto simp: pool_grow_at)
  qed
  ultimately show ?thesis using iff by (simp add: pool_ok_def)
qed

lemma pool_put_ok:
  assumes "pool_ok P" "pool_valid P a" "l \<longleftrightarrow> v \<noteq> None"
    and "distinct f" "\<And>b. b \<in> set f \<longleftrightarrow> pool_liveFlagFor (pool_put a l v P) b = Some False"
  shows "pool_ok ((pool_put a l v P)\<lparr>pool_freeList := f\<rparr>)"
  using assms pool_put_lengths [OF assms(1,2)]
  by (auto simp: pool_ok_def [of "_\<lparr>pool_freeList := f\<rparr>"] pool_put_at [OF assms(1,2)]) (auto simp: pool_ok_def)

section \<open>The heap interface\<close>

text \<open>
  What a client of a pool relies on: the live objects form a heap, and the pool hands out an
  address outside it.
\<close>

locale object_pool =
  fixes ok :: "'p \<Rightarrow> bool"
    and heap :: "'p \<Rightarrow> ptr \<rightharpoonup> 'a"
    and acquire :: "'p \<Rightarrow> (ptr \<times> 'p) option"
    and release :: "ptr option \<Rightarrow> 'p \<Rightarrow> 'p"
    and assign :: "'p \<Rightarrow> ptr \<Rightarrow> 'a \<Rightarrow> 'p option"
    and initial :: 'a
  assumes acquire_law: "ok P \<Longrightarrow> \<exists>a P'. acquire P = Some (a, P') \<and> ok P' \<and> heap P a = None \<and>
      heap P' = (heap P)(a \<mapsto> initial)"
    and release_law: "ok P \<Longrightarrow> ok (release (Some a) P) \<and> heap (release (Some a) P) = (heap P)(a := None)"
    and assign_law: "ok P \<Longrightarrow> heap P a \<noteq> None \<Longrightarrow>
      \<exists>P'. assign P a v = Some P' \<and> ok P' \<and> heap P' = (heap P)(a \<mapsto> v)"
begin

text \<open>\<open>T* slot = acquire(); *slot = v;\<close> stores \<open>v\<close> at a fresh address.\<close>

lemma construct:
  assumes "ok P"
  obtains a P' where "do { (a, P1) \<leftarrow> acquire P; P2 \<leftarrow> assign P1 a v; Some (a, P2) } = Some (a, P')"
    "ok P'" "heap P a = None" "heap P' = (heap P)(a \<mapsto> v)"
proof -
  obtain a P1 where 1: "acquire P = Some (a, P1)" "ok P1" "heap P a = None" "heap P1 = (heap P)(a \<mapsto> initial)"
    using acquire_law [OF assms] by blast
  then obtain P2 where 2: "assign P1 a v = Some P2" "ok P2" "heap P2 = (heap P1)(a \<mapsto> v)"
    using assign_law [of P1 a v] by auto
  from 1 2 show ?thesis by (intro that [of a P2]) auto
qed

lemma release_twice:
  assumes "ok P"
  shows "heap (release (Some a) (release (Some a) P)) = heap (release (Some a) P)"
  using release_law [OF assms, of a] release_law [of "release (Some a) P" a] by auto

end

lemma pool_acquire_ok:
  assumes "pool_ok P"
  shows "\<exists>a P'. pool_acquire d P = Some (a, P') \<and> pool_ok P' \<and> pool_read P a = None \<and>
    pool_read P' = (pool_read P)(a \<mapsto> d)"
proof -
  define P1 where "P1 = (if pool_freeList P = [] then pool_growBySlab P else P)"
  have ok: "pool_ok P1" using assms by (simp add: P1_def pool_grow_ok)
  have same: "pool_read P1 = pool_read P" by (auto simp: P1_def fun_eq_iff pool_grow_at)
  have ne: "pool_freeList P1 \<noteq> []"
    using assms by (auto simp: P1_def pool_growBySlab_def Let_def pool_ok_def)
  define a where "a = last (pool_freeList P1)"
  have fl: "pool_freeList P1 = butlast (pool_freeList P1) @ [a]" using ne by (simp add: a_def)
  then have mem: "a \<in> set (pool_freeList P1)" by (metis in_set_conv_decomp)
  then have flag: "pool_liveFlagFor P1 a = Some False" by (simp add: pool_okD(1) [OF ok])
  then have valid: "pool_valid P1 a" by (simp add: pool_valid_flag)
  have dead: "pool_read P a = None" using pool_okD(2) [OF ok, of a] flag by (auto simp: same)
  have dist: "distinct (butlast (pool_freeList P1) @ [a])" using ok fl by (simp add: pool_ok_def)
  have "b \<in> set (butlast (pool_freeList P1)) \<longleftrightarrow> pool_liveFlagFor (pool_put a True (Some d) P1) b = Some False" for b
  proof -
    have "b \<in> set (butlast (pool_freeList P1)) \<longleftrightarrow> b \<in> set (pool_freeList P1) \<and> b \<noteq> a"
      using dist arg_cong [OF fl, of set] by auto
    then show ?thesis by (auto simp: pool_put_at [OF ok valid] pool_okD(1) [OF ok])
  qed
  then have "pool_ok ((pool_put a True (Some d) P1)\<lparr>pool_freeList := butlast (pool_freeList P1)\<rparr>)"
    using dist by (intro pool_put_ok [OF ok valid]) auto
  moreover have "pool_acquire d P =
      Some (a, (pool_put a True (Some d) P1)\<lparr>pool_freeList := butlast (pool_freeList P1)\<rparr>)"
    using ne flag by (simp add: pool_acquire_def P1_def [symmetric] Let_def a_def [symmetric])
  ultimately show ?thesis
    using dead by (auto simp: fun_eq_iff pool_put_at [OF ok valid] same)
qed

lemma pool_release_ok:
  assumes "pool_ok P"
  shows "pool_ok (pool_release (Some a) P) \<and> pool_read (pool_release (Some a) P) = (pool_read P)(a := None)"
proof (cases "pool_liveFlagFor P a = Some True")
  case True
  then have valid: "pool_valid P a" by (simp add: pool_valid_flag)
  have "pool_ok ((pool_put a False None P)\<lparr>pool_freeList := pool_freeList P @ [a]\<rparr>)"
    using True pool_okD(1,3) [OF assms]
    by (intro pool_put_ok [OF assms valid]) (auto simp: pool_put_at [OF assms valid])
  with True show ?thesis
    by (auto simp: pool_release_def fun_eq_iff pool_put_at [OF assms valid])
next
  case False
  then have "pool_release (Some a) P = P" by (auto simp: pool_release_def split: option.splits)
  moreover have "pool_read P a = None" using False pool_okD(2) [OF assms, of a] by auto
  ultimately show ?thesis using assms by (simp add: fun_upd_idem)
qed

lemma pool_write_ok:
  assumes "pool_ok P" "pool_read P a \<noteq> None"
  shows "\<exists>P'. pool_write P a v = Some P' \<and> pool_ok P' \<and> pool_read P' = (pool_read P)(a \<mapsto> v)"
proof -
  have live: "pool_liveFlagFor P a = Some True" using assms(2) pool_okD(2) [OF assms(1)] by blast
  then have valid: "pool_valid P a" by (simp add: pool_valid_flag)
  have "b \<in> set (pool_freeList P) \<longleftrightarrow> pool_liveFlagFor (pool_put a True (Some v) P) b = Some False" for b
    using live by (auto simp: pool_put_at [OF assms(1) valid] pool_okD(1) [OF assms(1)])
  then have "pool_ok ((pool_put a True (Some v) P)\<lparr>pool_freeList := pool_freeList P\<rparr>)"
    using pool_okD(3) [OF assms(1)] by (intro pool_put_ok [OF assms(1) valid]) auto
  moreover have "(pool_put a True (Some v) P)\<lparr>pool_freeList := pool_freeList P\<rparr> = pool_put a True (Some v) P"
    by (simp add: pool_put_def Let_def)
  ultimately show ?thesis
    using assms(2) by (auto simp: pool_write_def fun_eq_iff pool_put_at [OF assms(1) valid])
qed

interpretation pool: object_pool pool_ok pool_read "pool_acquire d" pool_release pool_write d for d
  by unfold_locales (rule pool_acquire_ok pool_release_ok pool_write_ok; assumption)+

lemma pool_ok_new: "0 < n \<Longrightarrow> pool_ok (new_FixedObjectPool n)" "pool_read (new_FixedObjectPool n) = Map.empty"
  by (auto simp: pool_ok_def new_FixedObjectPool_def pool_liveFlagFor_def pool_read_def)

section \<open>Accounting\<close>

text \<open>Every slot is either on the free list or holds a live object.\<close>

definition pool_live :: "'a FixedObjectPool \<Rightarrow> ptr set" where
  "pool_live P = {a. pool_liveFlagFor P a = Some True}"

lemma pool_slots_partition:
  assumes "pool_ok P"
  shows "pool_slabCount P * pool_slabSize P = pool_freeCount P + card (pool_live P)"
proof -
  let ?all = "(\<lambda>(x, y). Ptr x y) ` ({..<length (pool_slabs P)} \<times> {..<pool_slabSize P})"
  have "a \<in> ?all \<longleftrightarrow> pool_valid P a" for a by (cases a) (auto simp: pool_valid_def)
  moreover have "pool_valid P a \<longleftrightarrow> a \<in> set (pool_freeList P) \<union> pool_live P" for a
    unfolding pool_valid_flag by (auto simp: pool_live_def pool_okD(1) [OF assms])
  ultimately have eq: "?all = set (pool_freeList P) \<union> pool_live P" by blast
  have disj: "set (pool_freeList P) \<inter> pool_live P = {}"
    by (auto simp: pool_live_def pool_okD(1) [OF assms])
  have "finite ?all" by simp
  then have fin: "finite (pool_live P)" unfolding eq by simp
  have "card ?all = pool_slabCount P * pool_slabSize P"
    by (subst card_image) (auto simp: inj_on_def pool_slabCount_def)
  moreover have "card ?all = card (set (pool_freeList P)) + card (pool_live P)"
    using eq card_Un_disjoint [OF finite_set fin disj] by simp
  ultimately show ?thesis
    using pool_okD(3) [OF assms] by (simp add: pool_freeCount_def distinct_card)
qed

text \<open>A released slot is the next one handed out.\<close>

lemma pool_release_acquire:
  assumes "pool_ok P" "pool_read P a \<noteq> None"
  shows "map_option fst (pool_acquire d (pool_release (Some a) P)) = Some a"
proof -
  have live: "pool_liveFlagFor P a = Some True" using assms(2) pool_okD(2) [OF assms(1)] by blast
  then have valid: "pool_valid P a" by (simp add: pool_valid_flag)
  with live show ?thesis
    by (simp add: pool_release_def pool_acquire_def Let_def pool_put_at [OF assms(1) valid])
qed

lemma pool_release_foreign:
  "pool_liveFlagFor P a = None \<Longrightarrow> pool_release (Some a) P = P"
  "pool_release None P = P"
  by (simp_all add: pool_release_def)

section \<open>Properties\<close>

text \<open>
  Storage safety of the pool: \<open>acquire\<close> always succeeds, hands out an address at which no
  live object is, constructs a default object there and touches no other object, growing by a
  slab when the free list is empty.
\<close>

theorem pool_acquire_fresh:
  assumes "pool_ok P"
  shows "\<exists>a P'. pool_acquire d P = Some (a, P') \<and> pool_ok P' \<and> pool_read P a = None \<and>
    pool_read P' = (pool_read P)(a \<mapsto> d)"
  by (rule pool.acquire_law [OF assms])

theorem pool_acquire_fresh_witness:
  "\<exists>a P'. pool_acquire (0 :: nat) (new_FixedObjectPool 3) = Some (a, P') \<and> pool_ok P' \<and> pool_read P' a = Some 0"
  using pool_acquire_fresh [OF pool_ok_new(1), of 3 "0 :: nat"] by auto

text \<open>
  C21. Releasing is safe on any pointer: the object at the address (if one is live) dies,
  nothing else changes, and releasing the same pointer again is ignored.
\<close>

theorem pool_release_twice_harmless:
  assumes "pool_ok P"
  shows "pool_read (pool_release (Some a) P) = (pool_read P)(a := None) \<and>
    pool_ok (pool_release (Some a) P) \<and> pool_release (Some a) (pool_release (Some a) P) = pool_release (Some a) P"
proof -
  note rel = pool_release_ok [OF assms, of a]
  have "pool_liveFlagFor (pool_release (Some a) P) a \<noteq> Some True"
    using pool_okD(2) [of "pool_release (Some a) P" a] rel by auto
  then have "pool_release (Some a) (pool_release (Some a) P) = pool_release (Some a) P"
    by (auto simp: pool_release_def [of _ "pool_release _ _"] split: option.splits)
  with rel show ?thesis by blast
qed

theorem pool_release_twice_harmless_witness:
  "\<exists>a P. pool_acquire (0 :: nat) (new_FixedObjectPool 3) = Some (a, P) \<and>
     pool_read (pool_release (Some a) P) a = None \<and>
     pool_release (Some a) (pool_release (Some a) P) = pool_release (Some a) P"
proof -
  obtain a P where aP: "pool_acquire (0 :: nat) (new_FixedObjectPool 3) = Some (a, P)" "pool_ok P"
    using pool_acquire_ok [OF pool_ok_new(1), of 3 "0 :: nat"] by auto
  with pool_release_twice_harmless [OF aP(2), of a] show ?thesis by auto
qed

end
