(* ===== verification/Optimized_Matcher.thy ===== *)
theory Optimized_Matcher
  imports Matcher_Spec Memory_Pool
begin

text \<open>
  \<open>OptimizedMatcher\<close> (\<open>include/titan/book/optimized_matcher.hpp\<close>,
  \<open>src/book/optimized_matcher.cpp\<close>): the same map of levels, but a level is an append-only
  vector of pointers into the order pool in which a removed order leaves a null tombstone, so
  that the indices kept in the order table never move.  The invariant below is what makes
  the tombstones, the front index, the live counter and the pool agree; the refinement shows
  that the class has the behaviour of \<open>IMatcher\<close>, hence that of the reference matcher.
\<close>

section \<open>State and operations\<close>

record Level =
  lvl_orders :: "ptr option list"
  lvl_frontIndex :: nat
  lvl_liveCount :: nat

definition empty_Level :: Level where
  "empty_Level = \<lparr>lvl_orders = [], lvl_frontIndex = 0, lvl_liveCount = 0\<rparr>"

record OrderRef =
  oref_side :: Side
  oref_price :: Price
  oref_index :: nat

type_synonym Levels = "(Price, Level) omap"

record OptimizedMatcher =
  opt_bids :: Levels
  opt_asks :: Levels
  opt_orderTable :: "OrderId \<rightharpoonup> OrderRef"
  opt_orderPool :: "Order FixedObjectPool"

definition new_OptimizedMatcher :: OptimizedMatcher where
  "new_OptimizedMatcher =
     \<lparr>opt_bids = [], opt_asks = [], opt_orderTable = Map.empty,
      opt_orderPool = new_FixedObjectPool 4096\<rparr>"

primrec opt_levels :: "OptimizedMatcher \<Rightarrow> Side \<Rightarrow> Levels" where
  "opt_levels m Buy = opt_bids m"
| "opt_levels m Sell = opt_asks m"

primrec opt_put_levels :: "Side \<Rightarrow> Levels \<Rightarrow> OptimizedMatcher \<Rightarrow> OptimizedMatcher" where
  "opt_put_levels Buy l m = m\<lparr>opt_bids := l\<rparr>"
| "opt_put_levels Sell l m = m\<lparr>opt_asks := l\<rparr>"

definition opt_restOrder :: "OptimizedMatcher \<Rightarrow> Order \<Rightarrow> OptimizedMatcher option" where
  "opt_restOrder m ord =
     (let s = order_side ord;
          levels = opt_levels m s;
          level = omap_at empty_Level (order_price ord) levels;
          index = length (lvl_orders level)
      in do {
        (slot, pool1) \<leftarrow> pool_acquire default_order (opt_orderPool m);
        pool2 \<leftarrow> pool_write pool1 slot ord;
        let level' = level\<lparr>lvl_orders := lvl_orders level @ [Some slot],
                           lvl_liveCount := lvl_liveCount level + 1\<rparr>;
        Some ((opt_put_levels s (omap_set (order_price ord) level' levels) m)
          \<lparr>opt_orderPool := pool2,
           opt_orderTable := (opt_orderTable m)(order_id ord \<mapsto>
             \<lparr>oref_side = s, oref_price = order_price ord, oref_index = index\<rparr>)\<rparr>)
      })"

definition opt_removeOrder :: "OptimizedMatcher \<Rightarrow> OrderId \<Rightarrow> OptimizedMatcher option" where
  "opt_removeOrder m i =
     (case opt_orderTable m i of
        None \<Rightarrow> Some m
      | Some ref \<Rightarrow>
          (let s = oref_side ref; p = oref_price ref; levels = opt_levels m s in
           case map_of levels p of
             None \<Rightarrow> None
           | Some level \<Rightarrow>
               if length (lvl_orders level) \<le> oref_index ref then None
               else
                 let pool' = pool_release (lvl_orders level ! oref_index ref) (opt_orderPool m);
                     level' = level\<lparr>lvl_orders := (lvl_orders level)[oref_index ref := None],
                                    lvl_liveCount := lvl_liveCount level - 1\<rparr>;
                     levels' = (if lvl_liveCount level' = 0 then omap_erase p levels
                                else omap_set p level' levels)
                 in Some ((opt_put_levels s levels' m)
                      \<lparr>opt_orderPool := pool', opt_orderTable := (opt_orderTable m)(i := None)\<rparr>)))"

text \<open>The loop of \<open>frontLive\<close>: the first index at or after \<open>k\<close> that is no tombstone.\<close>

function skip_tombstones :: "ptr option list \<Rightarrow> nat \<Rightarrow> nat" where
  "skip_tombstones orders k =
     (if k < length orders \<and> orders ! k = None then skip_tombstones orders (Suc k) else k)"
  by pat_completeness auto
termination
  by (relation "measure (\<lambda>(orders, k). length orders - k)") auto

declare skip_tombstones.simps [simp del]

definition opt_frontLive :: "Level \<Rightarrow> Level \<times> ptr option" where
  "opt_frontLive level =
     (let k = skip_tombstones (lvl_orders level) (lvl_frontIndex level) in
      (level\<lparr>lvl_frontIndex := k\<rparr>, if k < length (lvl_orders level) then lvl_orders level ! k else None))"

text \<open>The rest of a loop iteration of \<open>cross\<close> once the live front order \<open>a\<close> is known.\<close>

definition opt_fill :: "ptr \<Rightarrow> OptimizedMatcher \<Rightarrow> Order \<Rightarrow> (Trade \<times> OptimizedMatcher \<times> Order) option" where
  "opt_fill a m inc =
     do {
       resting \<leftarrow> pool_read (opt_orderPool m) a;
       let traded = min (order_quantity inc) (order_quantity resting);
       let trade = \<lparr>trade_incoming = order_id inc, trade_resting = order_id resting,
                    trade_price = order_price resting, trade_quantity = traded\<rparr>;
       let resting' = resting\<lparr>order_quantity := order_quantity resting - traded\<rparr>;
       pool' \<leftarrow> pool_write (opt_orderPool m) a resting';
       let m' = m\<lparr>opt_orderPool := pool'\<rparr>;
       let inc' = inc\<lparr>order_quantity := order_quantity inc - traded\<rparr>;
       m'' \<leftarrow> (if order_quantity resting' = 0 then opt_removeOrder m' (order_id resting') else Some m');
       Some (trade, m'', inc')
     }"

partial_function (option) opt_cross_loop ::
  "OptimizedMatcher \<Rightarrow> Order \<Rightarrow> Trade list \<Rightarrow> (Trade list \<times> OptimizedMatcher \<times> Order) option" where
  "opt_cross_loop m inc trades =
     (let s = opposite (order_side inc); levels = opt_levels m s in
      case best_level s levels of
        None \<Rightarrow> Some (trades, m, inc)
      | Some (levelPrice, level) \<Rightarrow>
          if \<not> 0 < order_quantity inc \<or> \<not> crosses (order_side inc) (order_price inc) levelPrice
          then Some (trades, m, inc)
          else
            (case opt_frontLive level of (level', front) \<Rightarrow>
               case front of
                 None \<Rightarrow> opt_cross_loop (opt_put_levels s (omap_erase levelPrice levels) m) inc trades
               | Some a \<Rightarrow>
                   do { (t, m', inc') \<leftarrow> opt_fill a (opt_put_levels s (omap_set levelPrice level' levels) m) inc;
                        opt_cross_loop m' inc' (trades @ [t]) }))"

declare opt_cross_loop.simps [code]

definition opt_cross :: "OptimizedMatcher \<Rightarrow> Order \<Rightarrow> (Trade list \<times> OptimizedMatcher \<times> Order) option" where
  "opt_cross m inc = opt_cross_loop m inc []"

definition opt_addOrder :: "OptimizedMatcher \<Rightarrow> Order \<Rightarrow> OptimizedMatcher option" where
  "opt_addOrder m ord =
     do { (_, m', inc) \<leftarrow> opt_cross m ord;
          if 0 < order_quantity inc then opt_restOrder m' inc else Some m' }"

definition opt_cancelOrder :: "OptimizedMatcher \<Rightarrow> OrderId \<Rightarrow> OptimizedMatcher option" where
  "opt_cancelOrder m i = opt_removeOrder m i"

definition opt_matchOrder :: "OptimizedMatcher \<Rightarrow> Order \<Rightarrow> (Trade list \<times> OptimizedMatcher) option" where
  "opt_matchOrder m ord =
     do { (trades, m', inc) \<leftarrow> opt_cross m ord;
          m'' \<leftarrow> (if 0 < order_quantity inc then opt_restOrder m' inc else Some m');
          Some (trades, m'') }"

definition opt_bestBid :: "OptimizedMatcher \<Rightarrow> Price" where
  "opt_bestBid m = (if opt_bids m \<noteq> [] then fst (last (opt_bids m)) else -1)"

definition opt_bestAsk :: "OptimizedMatcher \<Rightarrow> Price" where
  "opt_bestAsk m = (if opt_asks m \<noteq> [] then fst (hd (opt_asks m)) else 0)"

text \<open>The quantity of a level: null entries contribute nothing, the others are dereferenced.\<close>

fun opt_level_total :: "Order FixedObjectPool \<Rightarrow> ptr option list \<Rightarrow> Quantity \<Rightarrow> Quantity option" where
  "opt_level_total pool [] tot = Some tot"
| "opt_level_total pool (None # orders) tot = opt_level_total pool orders tot"
| "opt_level_total pool (Some a # orders) tot =
     do { ord \<leftarrow> pool_read pool a; opt_level_total pool orders (tot + order_quantity ord) }"

fun opt_depth_loop :: "Order FixedObjectPool \<Rightarrow> (Price \<times> Level) list \<Rightarrow> nat \<Rightarrow> PriceLevel list \<Rightarrow> PriceLevel list option" where
  "opt_depth_loop pool [] n result = Some result"
| "opt_depth_loop pool ((p, level) # levels) n result =
     (if length result < n
      then do { tot \<leftarrow> opt_level_total pool (lvl_orders level) 0;
                opt_depth_loop pool levels n (result @ [\<lparr>level_price = p, level_quantity = tot\<rparr>]) }
      else Some result)"

definition opt_depthFrom :: "OptimizedMatcher \<Rightarrow> Levels \<Rightarrow> bool \<Rightarrow> nat \<Rightarrow> PriceLevel list option" where
  "opt_depthFrom m levels reverse n =
     opt_depth_loop (opt_orderPool m) (if reverse then rev levels else levels) n []"

definition opt_bidDepth :: "OptimizedMatcher \<Rightarrow> nat \<Rightarrow> PriceLevel list option" where
  "opt_bidDepth m n = opt_depthFrom m (opt_bids m) True n"

definition opt_askDepth :: "OptimizedMatcher \<Rightarrow> nat \<Rightarrow> PriceLevel list option" where
  "opt_askDepth m n = opt_depthFrom m (opt_asks m) False n"

definition OptimizedMatcher_vtable :: "OptimizedMatcher IMatcher" where
  "OptimizedMatcher_vtable =
     \<lparr>vt_addOrder = opt_addOrder, vt_cancelOrder = opt_cancelOrder, vt_matchOrder = opt_matchOrder,
      vt_bestBid = opt_bestBid, vt_bestAsk = opt_bestAsk,
      vt_bidDepth = opt_bidDepth, vt_askDepth = opt_askDepth\<rparr>"

section \<open>Representation invariant and abstraction\<close>

definition live_ptrs :: "ptr option list \<Rightarrow> ptr list" where
  "live_ptrs orders = map the (filter (\<lambda>x. x \<noteq> None) orders)"

definition opt_flat :: "OptimizedMatcher \<Rightarrow> Side \<Rightarrow> (Price \<times> ptr) list" where
  "opt_flat m s = flat s (omap_map (\<lambda>l. live_ptrs (lvl_orders l)) (opt_levels m s))"

abbreviation opt_at :: "OptimizedMatcher \<Rightarrow> ptr \<Rightarrow> Order" where
  "opt_at m a \<equiv> the (pool_read (opt_orderPool m) a)"

definition opt_book :: "OptimizedMatcher \<Rightarrow> book" where
  "opt_book m s = map (\<lambda>e. opt_at m (snd e)) (opt_flat m s)"

definition level_ok :: "Level \<Rightarrow> bool" where
  "level_ok l \<longleftrightarrow>
     lvl_liveCount l = length (live_ptrs (lvl_orders l)) \<and> live_ptrs (lvl_orders l) \<noteq> [] \<and>
     lvl_frontIndex l \<le> length (lvl_orders l) \<and>
     (\<forall>k < lvl_frontIndex l. lvl_orders l ! k = None)"

definition opt_levels_ok :: "OptimizedMatcher \<Rightarrow> Side \<Rightarrow> bool" where
  "opt_levels_ok m s \<longleftrightarrow>
     omap_ok (opt_levels m s) \<and> (\<forall>e\<in>set (opt_levels m s). level_ok (snd e)) \<and>
     (\<forall>e\<in>set (opt_flat m s). pool_read (opt_orderPool m) (snd e) \<noteq> None \<and>
        order_price (opt_at m (snd e)) = fst e) \<and>
     distinct (map snd (opt_flat m s)) \<and> distinct (map order_id (opt_book m s))"

text \<open>Pointer \<open>a\<close> stands at index \<open>k\<close> of the level at \<open>p\<close> on side \<open>s\<close>.\<close>

definition opt_entry :: "OptimizedMatcher \<Rightarrow> Side \<Rightarrow> Price \<Rightarrow> nat \<Rightarrow> ptr \<Rightarrow> bool" where
  "opt_entry m s p k a \<longleftrightarrow>
     (\<exists>level. map_of (opt_levels m s) p = Some level \<and> k < length (lvl_orders level) \<and>
        lvl_orders level ! k = Some a)"

definition opt_table_ok :: "OptimizedMatcher \<Rightarrow> bool" where
  "opt_table_ok m \<longleftrightarrow>
     (\<forall>i l. opt_orderTable m i = Some l \<longleftrightarrow>
        (\<exists>a. opt_entry m (oref_side l) (oref_price l) (oref_index l) a \<and> order_id (opt_at m a) = i))"

text \<open>The pool holds exactly the resting orders.\<close>

definition opt_no_leak :: "OptimizedMatcher \<Rightarrow> bool" where
  "opt_no_leak m \<longleftrightarrow> dom (pool_read (opt_orderPool m)) = snd ` set (opt_flat m Buy) \<union> snd ` set (opt_flat m Sell)"

definition opt_struct :: "OptimizedMatcher \<Rightarrow> bool" where
  "opt_struct m \<longleftrightarrow> pool_ok (opt_orderPool m) \<and> (\<forall>s. opt_levels_ok m s) \<and> opt_table_ok m \<and>
     snd ` set (opt_flat m Buy) \<inter> snd ` set (opt_flat m Sell) = {} \<and>
     order_id ` set (opt_book m Buy) \<inter> order_id ` set (opt_book m Sell) = {} \<and> opt_no_leak m"

definition opt_inv :: "OptimizedMatcher \<Rightarrow> bool" where
  "opt_inv m \<longleftrightarrow> opt_struct m \<and> book_ok (opt_book m)"

lemma opt_levels_put [simp]:
  "opt_levels (opt_put_levels s l m) t = (if t = s then l else opt_levels m t)"
  "opt_orderPool (opt_put_levels s l m) = opt_orderPool m"
  "opt_orderTable (opt_put_levels s l m) = opt_orderTable m"
  by (cases s; cases t; simp)+

lemma opt_levels_more [simp]:
  "opt_levels (m\<lparr>opt_orderTable := T\<rparr>) t = opt_levels m t"
  "opt_levels (m\<lparr>opt_orderPool := P\<rparr>) t = opt_levels m t"
  by (cases t; simp)+

subsection \<open>Tombstones\<close>

lemma live_ptrs_simps [simp]:
  "live_ptrs [] = []" "live_ptrs (None # xs) = live_ptrs xs" "live_ptrs (Some a # xs) = a # live_ptrs xs"
  "live_ptrs (xs @ ys) = live_ptrs xs @ live_ptrs ys"
  by (simp_all add: live_ptrs_def)

lemma set_live_ptrs: "a \<in> set (live_ptrs xs) \<longleftrightarrow> Some a \<in> set xs"
  by (force simp: live_ptrs_def)

lemma live_ptrs_all_None: "\<forall>x\<in>set xs. x = None \<Longrightarrow> live_ptrs xs = []"
  by (induction xs) auto

lemma live_ptrs_bury:
  assumes "distinct (live_ptrs xs)" "k < length xs" "xs ! k = Some a"
  shows "live_ptrs (xs[k := None]) = filter (\<lambda>x. x \<noteq> a) (live_ptrs xs)"
    "length (live_ptrs (xs[k := None])) = length (live_ptrs xs) - 1"
proof -
  have xs: "xs = take k xs @ Some a # drop (Suc k) xs" using id_take_nth_drop [OF assms(2)] unfolding assms(3) .
  have upd: "xs[k := None] = take k xs @ None # drop (Suc k) xs" using assms(2) by (rule upd_conv_take_nth_drop)
  have lp: "live_ptrs xs = live_ptrs (take k xs) @ a # live_ptrs (drop (Suc k) xs)"
    using arg_cong [OF xs, of live_ptrs] by simp
  have "filter (\<lambda>x. x \<noteq> a) (live_ptrs (take k xs)) = live_ptrs (take k xs)"
    "filter (\<lambda>x. x \<noteq> a) (live_ptrs (drop (Suc k) xs)) = live_ptrs (drop (Suc k) xs)"
    using assms(1) unfolding lp by (auto intro!: filter_True)
  then show "live_ptrs (xs[k := None]) = filter (\<lambda>x. x \<noteq> a) (live_ptrs xs)"
    by (simp add: upd lp)
  show "length (live_ptrs (xs[k := None])) = length (live_ptrs xs) - 1"
    by (simp add: upd lp)
qed

lemma live_ptrs_index:
  assumes "distinct (live_ptrs xs)" "k < length xs" "xs ! k = Some a" "j < length xs" "xs ! j = Some a"
  shows "j = k"
proof (rule ccontr)
  assume "j \<noteq> k"
  then have "xs[k := None] ! j = Some a" using assms(4,5) by simp
  then have "a \<in> set (live_ptrs (xs[k := None]))"
    using assms(4) by (metis length_list_update nth_mem set_live_ptrs)
  then show False by (simp add: live_ptrs_bury(1) [OF assms(1-3)])
qed

lemma skip_tombstones_spec:
  "(k \<le> length xs \<longrightarrow> skip_tombstones xs k \<le> length xs) \<and> k \<le> skip_tombstones xs k \<and> (\<forall>j. k \<le> j \<and> j < skip_tombstones xs k \<longrightarrow> j < length xs \<longrightarrow> xs ! j = None) \<and>
   (skip_tombstones xs k < length xs \<longrightarrow> xs ! skip_tombstones xs k \<noteq> None)"
proof (induction xs k rule: skip_tombstones.induct)
  case (1 xs k)
  show ?case
  proof (cases "k < length xs \<and> xs ! k = None")
    case True
    then have eq: "skip_tombstones xs k = skip_tombstones xs (Suc k)" by (simp add: skip_tombstones.simps [of xs k])
    have "xs ! j = None" if "k \<le> j" "j < skip_tombstones xs (Suc k)" "j < length xs" for j
      using 1 [OF True] True that by (cases "j = k") auto
    then show ?thesis using 1 [OF True] True by (simp add: eq)
  next
    case False
    then show ?thesis by (auto simp: skip_tombstones.simps [of xs k])
  qed
qed

text \<open>\<open>frontLive\<close> finds the oldest live order of the level and changes only the front index.\<close>

lemma opt_frontLive_ok:
  assumes "level_ok l"
  obtains l' where "opt_frontLive l = (l', Some (hd (live_ptrs (lvl_orders l))))" "level_ok l'"
    "lvl_orders l' = lvl_orders l"
proof -
  define k where "k = skip_tombstones (lvl_orders l) (lvl_frontIndex l)"
  note skip = skip_tombstones_spec [of "lvl_frontIndex l" "lvl_orders l", folded k_def]
  have kl: "k \<le> length (lvl_orders l)" using assms skip by (simp add: level_ok_def)
  have before: "\<forall>j<k. lvl_orders l ! j = None"
  proof (intro allI impI)
    fix j assume "j < k"
    then show "lvl_orders l ! j = None"
      using skip kl assms by (cases "j < lvl_frontIndex l") (simp_all add: level_ok_def)
  qed
  then have "\<forall>x\<in>set (take k (lvl_orders l)). x = None" by (auto simp: in_set_conv_nth)
  then have "live_ptrs (take k (lvl_orders l)) = []" by (rule live_ptrs_all_None)
  then have lp: "live_ptrs (lvl_orders l) = live_ptrs (drop k (lvl_orders l))"
    by (metis append_Nil append_take_drop_id live_ptrs_simps(4))
  have len: "k < length (lvl_orders l)" using assms lp by (auto simp: level_ok_def intro: ccontr)
  then obtain a where a: "lvl_orders l ! k = Some a"
    using skip by auto
  then have "hd (live_ptrs (lvl_orders l)) = a" using len by (simp add: lp Cons_nth_drop_Suc [symmetric])
  moreover have "level_ok (l\<lparr>lvl_frontIndex := k\<rparr>)" using assms before kl by (simp add: level_ok_def)
  ultimately show ?thesis
    using len a by (intro that [of "l\<lparr>lvl_frontIndex := k\<rparr>"]) (auto simp: opt_frontLive_def k_def [symmetric] Let_def)
qed

subsection \<open>Entries\<close>

lemma opt_structD:
  assumes "opt_struct m"
  shows "pool_ok (opt_orderPool m)" "omap_ok (opt_levels m s)"
    "distinct (map snd (opt_flat m s))" "distinct (map order_id (opt_book m s))"
    "opt_table_ok m" "opt_no_leak m"
    "e \<in> set (opt_levels m s) \<Longrightarrow> level_ok (snd e)"
    "x \<in> set (opt_flat m s) \<Longrightarrow> pool_read (opt_orderPool m) (snd x) \<noteq> None"
    "x \<in> set (opt_flat m s) \<Longrightarrow> order_price (opt_at m (snd x)) = fst x"
  using assms by (auto simp: opt_struct_def opt_levels_ok_def)

abbreviation opt_ptr_levels :: "Levels \<Rightarrow> (Price, ptr list) omap" where
  "opt_ptr_levels \<equiv> omap_map (\<lambda>l. live_ptrs (lvl_orders l))"

lemma opt_flat_entry:
  assumes "opt_struct m"
  shows "(p, a) \<in> set (opt_flat m s) \<longleftrightarrow> (\<exists>k. opt_entry m s p k a)"
proof -
  have "omap_ok (opt_ptr_levels (opt_levels m s))" using opt_structD(2) [OF assms] by (simp add: omap_simps)
  from in_flat_map_of [OF this, of p a s]
  have "(p, a) \<in> set (opt_flat m s) \<longleftrightarrow>
      (\<exists>l. map_of (opt_levels m s) p = Some l \<and> Some a \<in> set (lvl_orders l))"
    by (auto simp only: opt_flat_def omap_simps set_live_ptrs map_option_eq_Some)
  then show ?thesis by (auto simp only: opt_entry_def in_set_conv_nth)
qed

lemma opt_book_entry:
  assumes "opt_struct m"
  shows "ord \<in> set (opt_book m s) \<longleftrightarrow> (\<exists>p k a. opt_entry m s p k a \<and> opt_at m a = ord)"
proof -
  have "ord \<in> set (opt_book m s) \<longleftrightarrow> (\<exists>p a. (p, a) \<in> set (opt_flat m s) \<and> opt_at m a = ord)"
    by (force simp: opt_book_def)
  then show ?thesis using opt_flat_entry [OF assms] by blast
qed

lemma opt_entry_flat: "opt_struct m \<Longrightarrow> opt_entry m s p k a \<Longrightarrow> (p, a) \<in> set (opt_flat m s)"
  using opt_flat_entry by blast

lemma opt_entry_live:
  assumes "opt_struct m" "opt_entry m s p k a"
  shows "pool_read (opt_orderPool m) a = Some (opt_at m a)" "order_price (opt_at m a) = p"
    "opt_at m a \<in> set (opt_book m s)"
  using opt_structD(8,9) [OF assms(1) opt_entry_flat [OF assms]] opt_book_entry [OF assms(1)] assms(2) by auto

lemma opt_live_distinct:
  assumes "opt_struct m" "map_of (opt_levels m s) p = Some l"
  shows "distinct (live_ptrs (lvl_orders l))"
proof -
  have ok: "omap_ok (opt_ptr_levels (opt_levels m s))" using opt_structD(2) [OF assms(1)] by (simp add: omap_simps)
  have lv: "map_of (opt_ptr_levels (opt_levels m s)) p = Some (live_ptrs (lvl_orders l))"
    using assms(2) by (simp add: omap_simps)
  obtain A B where "opt_flat m s = A @ map (Pair p) (live_ptrs (lvl_orders l)) @ B"
    using flat_split_found [OF ok lv, where s = s] unfolding opt_flat_def by metis
  with opt_structD(3) [OF assms(1), of s] show ?thesis by (simp add: o_def)
qed

lemma opt_entry_inj:
  assumes "opt_struct m" "opt_entry m s p k a" "opt_entry m s' p' k' a"
  shows "s' = s \<and> p' = p \<and> k' = k"
proof -
  note e = opt_entry_flat [OF assms(1,2)] opt_entry_flat [OF assms(1,3)]
  have s: "s' = s"
  proof (rule ccontr)
    assume "s' \<noteq> s"
    with e have "a \<in> snd ` set (opt_flat m Buy)" "a \<in> snd ` set (opt_flat m Sell)"
      by (cases s; cases s'; force)+
    with assms(1) show False by (auto simp: opt_struct_def)
  qed
  have p: "p' = p"
    using e opt_structD(3) [OF assms(1), of s] eq_key_imp_eq_value [of "map (\<lambda>e. (snd e, fst e)) (opt_flat m s)" a p p']
    by (force simp: s o_def)
  obtain l where l: "map_of (opt_levels m s) p = Some l" "k < length (lvl_orders l)" "lvl_orders l ! k = Some a"
    using assms(2) by (auto simp: opt_entry_def)
  moreover have "k' < length (lvl_orders l)" "lvl_orders l ! k' = Some a"
    using assms(3) l(1) by (auto simp: opt_entry_def s p)
  ultimately show ?thesis
    using live_ptrs_index [OF opt_live_distinct [OF assms(1) l(1)]] s p by blast
qed

lemma opt_ids_disjoint:
  assumes "opt_struct m" "x \<in> set (opt_book m s)" "y \<in> set (opt_book m t)" "s \<noteq> t"
  shows "order_id x \<noteq> order_id y"
  using assms imageI [OF assms(2), of order_id] imageI [OF assms(3), of order_id]
  by (cases s; cases t) (auto simp: opt_struct_def)

lemma opt_same_id:
  assumes "opt_struct m" "opt_entry m s p k a" "opt_entry m s' p' k' b"
    "order_id (opt_at m b) = order_id (opt_at m a)"
  shows "b = a"
proof -
  note e = opt_entry_flat [OF assms(1,2)] opt_entry_flat [OF assms(1,3)]
  have s: "s' = s"
    using opt_entry_live(3) [OF assms(1,2)] opt_entry_live(3) [OF assms(1,3)] assms(1,4)
    by (cases s; cases s'; force simp: opt_struct_def)
  have "inj_on (\<lambda>e. order_id (opt_at m (snd e))) (set (opt_flat m s))"
    using opt_structD(4) [OF assms(1), of s] by (simp add: opt_book_def o_def distinct_map)
  from inj_onD [OF this, of "(p', b)" "(p, a)"] e assms(4) s show ?thesis by simp
qed

lemma opt_table_lookup:
  assumes "opt_struct m" "opt_orderTable m i = Some l"
  obtains a where "opt_entry m (oref_side l) (oref_price l) (oref_index l) a" "order_id (opt_at m a) = i"
  using opt_structD(5) [OF assms(1)] assms(2) unfolding opt_table_ok_def by blast

lemma opt_table_None:
  assumes "opt_struct m"
  shows "opt_orderTable m i = None \<longleftrightarrow> i \<notin> book_ids (opt_book m)"
proof
  assume none: "opt_orderTable m i = None"
  show "i \<notin> book_ids (opt_book m)"
  proof
    assume "i \<in> book_ids (opt_book m)"
    then obtain s p k a where "opt_entry m s p k a" "order_id (opt_at m a) = i"
      by (auto simp: book_ids_def opt_book_entry [OF assms])
    then have "opt_orderTable m i = Some \<lparr>oref_side = s, oref_price = p, oref_index = k\<rparr>"
      using opt_structD(5) [OF assms] by (auto simp: opt_table_ok_def)
    with none show False by simp
  qed
next
  assume fresh: "i \<notin> book_ids (opt_book m)"
  show "opt_orderTable m i = None"
  proof (cases "opt_orderTable m i")
    case (Some l)
    then obtain a where "opt_entry m (oref_side l) (oref_price l) (oref_index l) a" "order_id (opt_at m a) = i"
      using opt_table_lookup [OF assms] by blast
    then have "i \<in> book_ids (opt_book m)" using opt_entry_live(3) [OF assms] in_book_ids by metis
    with fresh show ?thesis by simp
  qed
qed

section \<open>Refinement of the contract\<close>

text \<open>
  Burying a pointer: the level keeps its other entries at their indices and disappears with
  its last live one.
\<close>

lemma opt_bury_count:
  assumes "opt_struct m" "opt_entry m s p k a" "map_of (opt_levels m s) p = Some level"
    and "level' = level\<lparr>lvl_orders := (lvl_orders level)[k := None], lvl_liveCount := lvl_liveCount level - 1\<rparr>"
  shows "lvl_liveCount level' = length (live_ptrs (lvl_orders level'))"
    and "live_ptrs (lvl_orders level') = filter (\<lambda>b. b \<noteq> a) (live_ptrs (lvl_orders level))"
    and "a \<in> set (live_ptrs (lvl_orders level))"
    and "lvl_liveCount level' \<noteq> 0 \<Longrightarrow> level_ok level'"
proof -
  have k: "k < length (lvl_orders level)" "lvl_orders level ! k = Some a"
    using assms(2,3) by (auto simp: opt_entry_def)
  note lp = live_ptrs_bury [OF opt_live_distinct [OF assms(1,3)] k]
  have lok: "level_ok level" using opt_structD(7) [OF assms(1) map_of_SomeD [OF assms(3)]] by simp
  show cnt: "lvl_liveCount level' = length (live_ptrs (lvl_orders level'))"
    using lok lp(2) by (simp add: assms(4) level_ok_def)
  show "live_ptrs (lvl_orders level') = filter (\<lambda>b. b \<noteq> a) (live_ptrs (lvl_orders level))"
    using lp(1) by (simp add: assms(4))
  show "a \<in> set (live_ptrs (lvl_orders level))" using nth_mem [OF k(1)] by (simp add: set_live_ptrs k(2))
  show "level_ok level'" if "lvl_liveCount level' \<noteq> 0"
    using that cnt lok k(1) by (auto simp: level_ok_def assms(4) nth_list_update)
qed

lemma opt_bury_flat:
  assumes "opt_struct m" "opt_entry m s p k a" "map_of (opt_levels m s) p = Some level"
    and "level' = level\<lparr>lvl_orders := (lvl_orders level)[k := None], lvl_liveCount := lvl_liveCount level - 1\<rparr>"
    and "levels' = (if lvl_liveCount level' = 0 then omap_erase p (opt_levels m s) else omap_set p level' (opt_levels m s))"
  shows "flat s (opt_ptr_levels levels') = filter (\<lambda>e. snd e \<noteq> a) (opt_flat m s)"
proof -
  note cnt = opt_bury_count [OF assms(1-4)]
  have ok: "omap_ok (opt_ptr_levels (opt_levels m s))" using opt_structD(2) [OF assms(1)] by (simp add: omap_simps)
  have lv: "map_of (opt_ptr_levels (opt_levels m s)) p = Some (live_ptrs (lvl_orders level))"
    using assms(3) by (simp add: omap_simps)
  obtain A B where AB: "opt_flat m s = A @ map (Pair p) (live_ptrs (lvl_orders level)) @ B"
    "\<And>ys. flat s (omap_set p ys (opt_ptr_levels (opt_levels m s))) = A @ map (Pair p) ys @ B"
    "flat s (omap_erase p (opt_ptr_levels (opt_levels m s))) = A @ B"
    using flat_split_found [OF ok lv, where s = s] unfolding opt_flat_def by metis
  have "(p, a) \<in> set (map (Pair p) (live_ptrs (lvl_orders level)))" using cnt(3) by simp
  from distinct_map_around [OF opt_structD(3) [OF assms(1), of s, unfolded AB(1)] this]
  have F: "filter (\<lambda>e. snd e \<noteq> a) A = A" "filter (\<lambda>e. snd e \<noteq> a) B = B"
    by (auto intro!: filter_True)
  have "flat s (opt_ptr_levels levels') = A @ map (Pair p) (live_ptrs (lvl_orders level')) @ B"
    using cnt(1) by (simp add: assms(5) omap_simps AB(2,3))
  then show ?thesis by (simp add: AB(1) F filter_map o_def cnt(2))
qed

lemma opt_bury_levels:
  assumes "opt_struct m" "opt_entry m s p k a" "map_of (opt_levels m s) p = Some level"
    and "level' = level\<lparr>lvl_orders := (lvl_orders level)[k := None], lvl_liveCount := lvl_liveCount level - 1\<rparr>"
    and "levels' = (if lvl_liveCount level' = 0 then omap_erase p (opt_levels m s) else omap_set p level' (opt_levels m s))"
  shows "\<forall>e\<in>set levels'. level_ok (snd e)"
proof
  fix e assume e: "e \<in> set levels'"
  have "omap_ok levels'" using opt_structD(2) [OF assms(1)] by (auto simp: assms(5))
  then have "map_of levels' (fst e) = Some (snd e)" using e omap_ok_distinct [of levels'] by simp
  then have "(fst e, snd e) \<in> set (opt_levels m s) \<or> snd e = level' \<and> lvl_liveCount level' \<noteq> 0"
    by (auto simp: assms(5) omap_simps split: if_splits dest!: map_of_SomeD)
  then show "level_ok (snd e)"
    using opt_bury_count(4) [OF assms(1-4)] opt_structD(7) [OF assms(1), of "(fst e, snd e)"] by auto
qed

lemma opt_bury_entry:
  assumes "opt_struct m" "opt_entry m s p k a" "map_of (opt_levels m s) p = Some level"
    and "level' = level\<lparr>lvl_orders := (lvl_orders level)[k := None], lvl_liveCount := lvl_liveCount level - 1\<rparr>"
    and "levels' = (if lvl_liveCount level' = 0 then omap_erase p (opt_levels m s) else omap_set p level' (opt_levels m s))"
  shows "(\<exists>l. map_of levels' q = Some l \<and> j < length (lvl_orders l) \<and> lvl_orders l ! j = Some b) \<longleftrightarrow>
         opt_entry m s q j b \<and> b \<noteq> a"
proof (cases "q = p")
  case False
  moreover have "b \<noteq> a" if "opt_entry m s q j b" using opt_entry_inj [OF assms(1,2)] that False by blast
  ultimately show ?thesis by (auto simp: assms(5) omap_simps opt_entry_def)
next
  case True
  have k: "k < length (lvl_orders level)" "lvl_orders level ! k = Some a"
    using assms(2,3) by (auto simp: opt_entry_def)
  have "(j < length (lvl_orders level') \<and> lvl_orders level' ! j = Some b) \<longleftrightarrow> opt_entry m s q j b \<and> b \<noteq> a"
    using opt_entry_inj [OF assms(1,2)] True assms(3) k by (auto simp: assms(4) opt_entry_def nth_list_update)
  moreover have "\<not> (j < length (lvl_orders level') \<and> lvl_orders level' ! j = Some b)" if "lvl_liveCount level' = 0"
    using that opt_bury_count(1) [OF assms(1-4)] set_live_ptrs [of b "lvl_orders level'"] nth_mem [of j "lvl_orders level'"]
    by force
  ultimately show ?thesis using True by (auto simp: assms(5) omap_simps)
qed

lemmas opt_bury = opt_bury_flat opt_bury_levels opt_bury_entry

lemma opt_remove_entry:
  assumes "opt_struct m" "opt_orderTable m i = Some l" "opt_entry m (oref_side l) (oref_price l) (oref_index l) a"
  obtains m' where "opt_removeOrder m i = Some m'" "pool_ok (opt_orderPool m')"
    "pool_read (opt_orderPool m') = (pool_read (opt_orderPool m))(a := None)"
    "opt_orderTable m' = (opt_orderTable m)(i := None)"
    "\<And>t. opt_flat m' t = filter (\<lambda>e. snd e \<noteq> a) (opt_flat m t)"
    "\<And>t q j b. opt_entry m' t q j b \<longleftrightarrow> opt_entry m t q j b \<and> b \<noteq> a"
    "\<And>t. omap_ok (opt_levels m' t)" "\<And>t e. e \<in> set (opt_levels m' t) \<Longrightarrow> level_ok (snd e)"
proof -
  define s where "s = oref_side l"
  define p where "p = oref_price l"
  define k where "k = oref_index l"
  have e: "opt_entry m s p k a" using assms(3) by (simp add: s_def p_def k_def)
  then obtain level where lv: "map_of (opt_levels m s) p = Some level" "k < length (lvl_orders level)"
    "lvl_orders level ! k = Some a" by (auto simp: opt_entry_def)
  define level' where "level' = level\<lparr>lvl_orders := (lvl_orders level)[k := None], lvl_liveCount := lvl_liveCount level - 1\<rparr>"
  define levels' where "levels' = (if lvl_liveCount level' = 0 then omap_erase p (opt_levels m s) else omap_set p level' (opt_levels m s))"
  note bury = opt_bury [OF assms(1) e lv(1) level'_def levels'_def]
  note rel = pool.release_law [OF opt_structD(1) [OF assms(1)], of a]
  have other: "(q, b) \<in> set (opt_flat m t) \<Longrightarrow> t \<noteq> s \<Longrightarrow> b \<noteq> a" for q b t
    using opt_entry_inj [OF assms(1) e] opt_flat_entry [OF assms(1)] by blast
  let ?m = "(opt_put_levels s levels' m)\<lparr>opt_orderPool := pool_release (Some a) (opt_orderPool m),
    opt_orderTable := (opt_orderTable m)(i := None)\<rparr>"
  have "opt_removeOrder m i = Some ?m"
    using assms(2) lv by (simp add: opt_removeOrder_def s_def [symmetric] p_def [symmetric] k_def [symmetric]
        Let_def level'_def levels'_def)
  moreover have "opt_flat ?m t = filter (\<lambda>e. snd e \<noteq> a) (opt_flat m t)" for t
  proof (cases "t = s")
    case True
    then show ?thesis using bury(1) by (simp add: opt_flat_def)
  next
    case False
    then have "snd e \<noteq> a" if "e \<in> set (opt_flat m t)" for e using other [of "fst e" "snd e" t] that by simp
    then have "filter (\<lambda>e. snd e \<noteq> a) (opt_flat m t) = opt_flat m t" by (simp add: filter_True)
    with False show ?thesis by (simp add: opt_flat_def)
  qed
  moreover have "opt_entry ?m t q j b \<longleftrightarrow> opt_entry m t q j b \<and> b \<noteq> a" for t q j b
    using bury(3) [of q j b] opt_entry_inj [OF assms(1) e, of t q j]
    by (cases "t = s") (auto simp: opt_entry_def [of "_\<lparr>opt_orderTable := _\<rparr>"], auto simp: opt_entry_def)
  moreover have "omap_ok (opt_levels ?m t)" for t
    using opt_structD(2) [OF assms(1)] by (auto simp: levels'_def)
  moreover have "level_ok (snd e)" if "e \<in> set (opt_levels ?m t)" for t e
    using that bury(2) opt_structD(7) [OF assms(1)] by (auto split: if_splits)
  ultimately show ?thesis using rel by (intro that [of ?m]) simp_all
qed

text \<open>Removing by id removes exactly the orders with that id, and destroys the pooled object.\<close>

lemma opt_remove_table:
  assumes "opt_struct m" and iff: "\<And>t q k b. opt_entry m t q k b \<Longrightarrow> b = a \<longleftrightarrow> order_id (opt_at m b) = i"
    and "pool_read (opt_orderPool m') = (pool_read (opt_orderPool m))(a := None)"
    and "opt_orderTable m' = (opt_orderTable m)(i := None)"
    and "\<And>t q k b. opt_entry m' t q k b \<longleftrightarrow> opt_entry m t q k b \<and> b \<noteq> a"
  shows "opt_table_ok m'"
  unfolding opt_table_ok_def
proof (intro allI)
  fix j and l :: OrderRef
  let ?e = "opt_entry m (oref_side l) (oref_price l) (oref_index l)"
  have old: "opt_orderTable m j = Some l \<longleftrightarrow> (\<exists>b. ?e b \<and> order_id (opt_at m b) = j)"
    using opt_structD(5) [OF assms(1)] by (simp add: opt_table_ok_def)
  have "(\<exists>b. ?e b \<and> b \<noteq> a \<and> order_id (opt_at m b) = j) \<longleftrightarrow> j \<noteq> i \<and> (\<exists>b. ?e b \<and> order_id (opt_at m b) = j)"
    using iff [of "oref_side l" "oref_price l" "oref_index l"] by blast
  then show "opt_orderTable m' j = Some l \<longleftrightarrow>
      (\<exists>b. opt_entry m' (oref_side l) (oref_price l) (oref_index l) b \<and> order_id (opt_at m' b) = j)"
    by (simp add: assms(3-5) old conj_assoc cong: conj_cong)
qed

lemma opt_remove:
  assumes "opt_struct m"
  obtains m' where "opt_removeOrder m i = Some m'" "opt_struct m'" "opt_book m' = spec_cancel (opt_book m) i"
proof (cases "opt_orderTable m i")
  case None
  then have "i \<notin> book_ids (opt_book m)" using opt_table_None [OF assms] by simp
  then have "spec_cancel (opt_book m) i = opt_book m" by (rule spec_cancel_fresh)
  with None assms show ?thesis by (intro that [of m]) (auto simp: opt_removeOrder_def)
next
  case (Some l)
  obtain a where a: "opt_entry m (oref_side l) (oref_price l) (oref_index l) a" "order_id (opt_at m a) = i"
    using opt_table_lookup [OF assms Some] by blast
  obtain m' where m': "opt_removeOrder m i = Some m'" "pool_ok (opt_orderPool m')"
    "pool_read (opt_orderPool m') = (pool_read (opt_orderPool m))(a := None)"
    "opt_orderTable m' = (opt_orderTable m)(i := None)"
    "\<And>t. opt_flat m' t = filter (\<lambda>e. snd e \<noteq> a) (opt_flat m t)"
    "\<And>t q j b. opt_entry m' t q j b \<longleftrightarrow> opt_entry m t q j b \<and> b \<noteq> a"
    "\<And>t. omap_ok (opt_levels m' t)" "\<And>t e. e \<in> set (opt_levels m' t) \<Longrightarrow> level_ok (snd e)"
    using opt_remove_entry [OF assms Some a(1)] by blast
  have iff: "b = a \<longleftrightarrow> order_id (opt_at m b) = i" if "opt_entry m t q j b" for t q j b
    using opt_same_id [OF assms a(1) that] a(2) by auto
  have book: "opt_book m' t = filter (\<lambda>x. order_id x \<noteq> i) (opt_book m t)" for t
  proof -
    have "filter (\<lambda>x. order_id x \<noteq> i) (opt_book m t) = map (\<lambda>e. opt_at m (snd e)) (filter (\<lambda>e. snd e \<noteq> a) (opt_flat m t))"
      using iff opt_flat_entry [OF assms, of _ _ t]
      by (fastforce simp: opt_book_def filter_map o_def intro!: arg_cong [where f = "map _"] filter_cong)
    then show ?thesis by (auto simp: opt_book_def m'(3,5))
  qed
  have sub: "set (opt_flat m' t) \<subseteq> set (opt_flat m t)" "set (opt_book m' t) \<subseteq> set (opt_book m t)" for t
    by (auto simp: m'(5) book)
  have "opt_levels_ok m' t" for t
    using opt_structD(3,4) [OF assms, of t] opt_structD(8,9) [OF assms, of _ t] m'(7,8)
    by (auto simp: opt_levels_ok_def book m'(3,5) distinct_map_filter)
  moreover have "opt_table_ok m'" by (rule opt_remove_table [OF assms iff m'(3,4,6)])
  moreover have "snd ` set (opt_flat m' Buy) \<inter> snd ` set (opt_flat m' Sell) = {}"
    "order_id ` set (opt_book m' Buy) \<inter> order_id ` set (opt_book m' Sell) = {}"
    using Int_mono [OF image_mono [OF sub(1)] image_mono [OF sub(1)], of snd Buy snd Sell]
      Int_mono [OF image_mono [OF sub(2)] image_mono [OF sub(2)], of order_id Buy order_id Sell] assms
    by (simp_all only: opt_struct_def subset_empty)
  moreover have "opt_no_leak m'"
    using opt_structD(6) [OF assms] by (auto simp: opt_no_leak_def m'(3,5) image_iff)
  ultimately have "opt_struct m'" using m'(2) by (simp add: opt_struct_def)
  with m'(1) book show ?thesis by (intro that [of m']) (auto simp: spec_cancel_def fun_eq_iff)
qed

lemma opt_refresh:
  assumes "opt_struct m" "map_of (opt_levels m s) p = Some l" "level_ok l'" "lvl_orders l' = lvl_orders l"
    and "m' = opt_put_levels s (omap_set p l' (opt_levels m s)) m"
  shows "opt_flat m' = opt_flat m" "opt_book m' = opt_book m" "opt_struct m'"
proof -
  have ok: "omap_ok (opt_ptr_levels (opt_levels m s))" using opt_structD(2) [OF assms(1)] by (simp add: omap_simps)
  have "map_of (opt_ptr_levels (opt_levels m s)) p = Some (live_ptrs (lvl_orders l))"
    using assms(2) by (simp add: omap_simps)
  then have "flat s (omap_set p (live_ptrs (lvl_orders l)) (opt_ptr_levels (opt_levels m s))) = opt_flat m s"
    using flat_split_found [OF ok, where s = s] unfolding opt_flat_def by metis
  then show fl: "opt_flat m' = opt_flat m" by (auto simp: fun_eq_iff opt_flat_def assms(4,5) omap_simps)
  then show bk: "opt_book m' = opt_book m" by (auto simp: fun_eq_iff opt_book_def assms(5))
  have en: "opt_entry m' t q j b \<longleftrightarrow> opt_entry m t q j b" for t q j b
    using assms(2) by (auto simp: opt_entry_def assms(4,5) omap_simps)
  have lv: "level_ok (snd e)" if "e \<in> set (opt_levels m' t)" for t e
  proof -
    have "omap_ok (opt_levels m' t)" using opt_structD(2) [OF assms(1)] by (auto simp: assms(5))
    then have "map_of (opt_levels m' t) (fst e) = Some (snd e)" using that omap_ok_distinct [of "opt_levels m' t"] by simp
    then have "(fst e, snd e) \<in> set (opt_levels m t) \<or> snd e = l'"
      by (auto simp: assms(5) omap_simps split: if_splits dest!: map_of_SomeD)
    then show ?thesis using assms(3) opt_structD(7) [OF assms(1), of "(fst e, snd e)"] by auto
  qed
  have "opt_levels_ok m' t" for t
  proof -
    have "opt_levels_ok m t" using assms(1) by (simp add: opt_struct_def)
    moreover have "omap_ok (opt_levels m' t)" using opt_structD(2) [OF assms(1)] by (auto simp: assms(5))
    ultimately show ?thesis using lv by (simp add: opt_levels_ok_def fl bk) (simp add: assms(5))
  qed
  moreover have "opt_table_ok m'"
    using opt_structD(5) [OF assms(1)] by (simp add: opt_table_ok_def en) (simp add: assms(5))
  ultimately show "opt_struct m'" using assms(1) by (simp add: opt_struct_def opt_no_leak_def fl bk) (simp add: assms(5))
qed

lemma opt_head:
  assumes "opt_struct m" "opt_book m s = ord # q"
  obtains p level level' a T m' where "best_level s (opt_levels m s) = Some (p, level)"
    "opt_frontLive level = (level', Some a)" "m' = opt_put_levels s (omap_set p level' (opt_levels m s)) m"
    "opt_struct m'" "opt_book m' = opt_book m" "opt_flat m' s = (p, a) # T" "map (\<lambda>e. opt_at m (snd e)) T = q"
    "pool_read (opt_orderPool m) a = Some ord" "order_price ord = p"
proof -
  note ok = opt_structD(2) [OF assms(1), of s]
  have okp: "omap_ok (opt_ptr_levels (opt_levels m s))" using ok by (simp add: omap_simps)
  have "opt_levels m s \<noteq> []" using assms(2) by (auto simp: opt_book_def opt_flat_def omap_simps)
  then obtain p level where bl: "best_level s (opt_levels m s) = Some (p, level)"
    by (metis best_level_None not_None_eq surj_pair)
  then have blp: "best_level s (opt_ptr_levels (opt_levels m s)) = Some (p, live_ptrs (lvl_orders level))"
    by (cases s) (auto simp: best_level_def omap_map_def rev_map [symmetric] split: list.splits)
  obtain B where B: "opt_flat m s = map (Pair p) (live_ptrs (lvl_orders level)) @ B"
    using best_level_flat [OF okp blp] unfolding opt_flat_def by metis
  note mo = best_level_found [OF ok bl]
  have lok: "level_ok level" using opt_structD(7) [OF assms(1) map_of_SomeD [OF mo]] by simp
  obtain level' where fl: "opt_frontLive level = (level', Some (hd (live_ptrs (lvl_orders level))))"
    "level_ok level'" "lvl_orders level' = lvl_orders level" using opt_frontLive_ok [OF lok] by metis
  obtain a rest where ar: "live_ptrs (lvl_orders level) = a # rest"
    using lok by (cases "live_ptrs (lvl_orders level)") (auto simp: level_ok_def)
  note r = opt_refresh [OF assms(1) mo fl(2,3) refl]
  have "(p, a) \<in> set (opt_flat m s)" by (simp add: B ar)
  from opt_structD(8,9) [OF assms(1) this] have "pool_read (opt_orderPool m) a = Some (opt_at m a)"
    "order_price (opt_at m a) = p" by auto
  with assms(2) r bl fl(1) show ?thesis
    by (intro that [of p level level' a "opt_put_levels s (omap_set p level' (opt_levels m s)) m" "map (Pair p) rest @ B"])
      (simp_all add: ar B opt_book_def)
qed

text \<open>Writing a reduced quantity through the pointer changes that one order.\<close>

lemma opt_touch:
  assumes "opt_struct m" "opt_flat m s = (p, a) # T" "pool_read (opt_orderPool m) a = Some ord"
  obtains pool' where "pool_write (opt_orderPool m) a (ord\<lparr>order_quantity := x\<rparr>) = Some pool'"
    "opt_struct (m\<lparr>opt_orderPool := pool'\<rparr>)"
    "opt_book (m\<lparr>opt_orderPool := pool'\<rparr>) =
       (opt_book m)(s := ord\<lparr>order_quantity := x\<rparr> # map (\<lambda>e. opt_at m (snd e)) T)"
proof -
  let ?ord = "ord\<lparr>order_quantity := x\<rparr>"
  obtain pool' where w: "pool_write (opt_orderPool m) a ?ord = Some pool'" "pool_ok pool'"
    "pool_read pool' = (pool_read (opt_orderPool m))(a \<mapsto> ?ord)"
    using pool.assign_law [OF opt_structD(1) [OF assms(1)], of a ?ord] assms(3) by auto
  let ?m = "m\<lparr>opt_orderPool := pool'\<rparr>"
  have fl: "opt_flat ?m = opt_flat m" by (simp add: fun_eq_iff opt_flat_def)
  have en: "opt_entry ?m = opt_entry m" by (simp add: fun_eq_iff opt_entry_def)
  have key: "order_id (opt_at ?m b) = order_id (opt_at m b)" "order_price (opt_at ?m b) = order_price (opt_at m b)"
    "pool_read pool' b = None \<longleftrightarrow> pool_read (opt_orderPool m) b = None" for b
    using w(3) assms(3) by auto
  have ids: "map order_id (opt_book ?m t) = map order_id (opt_book m t)" for t
    using key(1) by (simp add: opt_book_def fl)
  then have ids': "order_id ` set (opt_book ?m t) = order_id ` set (opt_book m t)" for t
    by (metis list.set_map)
  have "opt_levels_ok ?m t" for t
    using assms(1) key(2,3) by (simp add: opt_struct_def opt_levels_ok_def fl ids)
  moreover have "opt_table_ok ?m"
    using opt_structD(5) [OF assms(1)] key(1) by (simp add: opt_table_ok_def en)
  moreover have "dom (pool_read pool') = dom (pool_read (opt_orderPool m))" unfolding dom_def using key(3) by simp
  then have "opt_no_leak ?m" using opt_structD(6) [OF assms(1)] by (simp add: opt_no_leak_def fl)
  ultimately have "opt_struct ?m" using assms(1) w(2) by (simp add: opt_struct_def fl ids')
  moreover have "opt_book ?m t = ((opt_book m)(s := ?ord # map (\<lambda>e. opt_at m (snd e)) T)) t" for t
  proof (cases "t = s")
    case True
    have "a \<notin> snd ` set T" using opt_structD(3) [OF assms(1), of s] by (simp add: assms(2))
    then have "snd e \<noteq> a" if "e \<in> set T" for e using that by force
    then show ?thesis using True by (auto simp: opt_book_def fl assms(2) w(3))
  next
    case False
    have "snd e \<noteq> a" if "e \<in> set (opt_flat m t)" for e
    proof
      assume "snd e = a"
      then have "a \<in> snd ` set (opt_flat m t)" "a \<in> snd ` set (opt_flat m s)" using that assms(2) by force+
      with False assms(1) show False by (cases s; cases t) (auto simp: opt_struct_def)
    qed
    with False show ?thesis by (auto simp: opt_book_def fl w(3))
  qed
  ultimately show ?thesis using w(1) by (intro that [of pool']) auto
qed

lemma opt_fill_step:
  assumes "opt_struct m" "opt_flat m s = (p, a) # T" "pool_read (opt_orderPool m) a = Some ord"
    "map (\<lambda>e. opt_at m (snd e)) T = q" "traded = min (order_quantity inc) (order_quantity ord)"
  obtains m' where "opt_struct m'" "opt_fill a m inc =
      Some (\<lparr>trade_incoming = order_id inc, trade_resting = order_id ord,
             trade_price = order_price ord, trade_quantity = traded\<rparr>, m',
            inc\<lparr>order_quantity := order_quantity inc - traded\<rparr>)"
    "opt_book m' = (opt_book m)(s := if order_quantity ord - traded = 0 then q
       else ord\<lparr>order_quantity := order_quantity ord - traded\<rparr> # q)"
proof -
  let ?ord = "ord\<lparr>order_quantity := order_quantity ord - traded\<rparr>"
  obtain pool' where w: "pool_write (opt_orderPool m) a ?ord = Some pool'"
    "opt_struct (m\<lparr>opt_orderPool := pool'\<rparr>)" "opt_book (m\<lparr>opt_orderPool := pool'\<rparr>) = (opt_book m)(s := ?ord # q)"
    using opt_touch [OF assms(1-3)] assms(4) by metis
  show ?thesis
  proof (cases "order_quantity ord - traded = 0")
    case False
    with w assms(3) show ?thesis
      by (intro that [of "m\<lparr>opt_orderPool := pool'\<rparr>"]) (simp_all add: opt_fill_def assms(5) [symmetric])
  next
    case True
    obtain m' where m': "opt_removeOrder (m\<lparr>opt_orderPool := pool'\<rparr>) (order_id ord) = Some m'" "opt_struct m'"
      "opt_book m' = spec_cancel (opt_book (m\<lparr>opt_orderPool := pool'\<rparr>)) (order_id ord)"
      using opt_remove [OF w(2)] by metis
    have bk: "opt_book m s = ord # q" using assms(2-4) by (simp add: opt_book_def)
    have "order_id ord \<notin> order_id ` set q" using opt_structD(4) [OF assms(1), of s] by (simp add: bk)
    then have q: "order_id x \<noteq> order_id ord" if "x \<in> set q" for x using that by (metis imageI)
    have other: "order_id x \<noteq> order_id ord" if "x \<in> set (opt_book m t)" "t \<noteq> s" for x t
      using opt_ids_disjoint [OF assms(1) that(1), of ord s] that(2) bk by auto
    have "opt_book m' = (opt_book m)(s := q)"
      using q other by (auto simp: m'(3) w(3) spec_cancel_def fun_eq_iff intro!: filter_True)
    moreover have "min (order_quantity inc) traded = traded" using assms(5) by simp
    ultimately show ?thesis
      using True m' w(1) assms(3) by (intro that [of m']) (simp_all add: opt_fill_def Let_def)
  qed
qed

lemma opt_book_empty:
  assumes "opt_struct m"
  shows "opt_book m s = [] \<longleftrightarrow> opt_levels m s = []"
proof -
  have "no_empty_level (opt_ptr_levels (opt_levels m s))"
    using opt_structD(7) [OF assms] by (fastforce simp: no_empty_level_def omap_map_def level_ok_def)
  from flat_eq_Nil [OF this, of s] show ?thesis by (simp add: opt_book_def opt_flat_def omap_simps)
qed

text \<open>Resting appends a pointer to a fresh object at the end of its level.\<close>

lemma opt_append:
  assumes "opt_struct m" "level = omap_at empty_Level p (opt_levels m s)"
    and "level' = level\<lparr>lvl_orders := lvl_orders level @ [Some a], lvl_liveCount := lvl_liveCount level + 1\<rparr>"
    and "levels' = omap_set p level' (opt_levels m s)"
  shows "flat s (opt_ptr_levels levels') = enqueue_at s p a (opt_flat m s)"
    and "e \<in> set levels' \<Longrightarrow> level_ok (snd e)"
    and "(\<exists>l. map_of levels' q = Some l \<and> j < length (lvl_orders l) \<and> lvl_orders l ! j = Some b) \<longleftrightarrow>
         opt_entry m s q j b \<or> q = p \<and> j = length (lvl_orders level) \<and> b = a"
proof -
  note ok = opt_structD(2) [OF assms(1), of s]
  have okp: "omap_ok (opt_ptr_levels (opt_levels m s))" using ok by (simp add: omap_simps)
  have lv: "map_of (opt_levels m s) p = Some level \<or> map_of (opt_levels m s) p = None \<and> level = empty_Level"
    by (auto simp: assms(2) omap_at_def split: option.splits)
  then have "live_ptrs (lvl_orders level) = omap_at [] p (opt_ptr_levels (opt_levels m s))"
    by (auto simp: omap_at_def omap_simps empty_Level_def)
  with flat_push [OF okp, of s p a] show "flat s (opt_ptr_levels levels') = enqueue_at s p a (opt_flat m s)"
    by (simp add: assms(3,4) omap_simps opt_flat_def)
  have "level_ok level \<or> level = empty_Level"
    using lv opt_structD(7) [OF assms(1), of "(p, level)" s] by (auto dest: map_of_SomeD)
  then have lok: "level_ok level'"
    by (auto simp: level_ok_def assms(3) empty_Level_def nth_append)
  show "level_ok (snd e)" if "e \<in> set levels'"
  proof -
    have "omap_ok levels'" using ok by (auto simp: assms(4))
    then have "map_of levels' (fst e) = Some (snd e)" using that omap_ok_distinct [of levels'] by simp
    then have "(fst e, snd e) \<in> set (opt_levels m s) \<or> snd e = level'"
      by (auto simp: assms(4) omap_simps split: if_splits dest!: map_of_SomeD)
    then show ?thesis using lok opt_structD(7) [OF assms(1), of "(fst e, snd e)"] by auto
  qed
  show "(\<exists>l. map_of levels' q = Some l \<and> j < length (lvl_orders l) \<and> lvl_orders l ! j = Some b) \<longleftrightarrow>
      opt_entry m s q j b \<or> q = p \<and> j = length (lvl_orders level) \<and> b = a"
    using lv by (cases "q = p") (auto simp: opt_entry_def assms(3,4) omap_simps nth_append less_Suc_eq empty_Level_def)
qed

text \<open>
  Adding one entry \<open>a\<close>, fresh in the pool, to the queue of \<open>s\<close> at price \<open>p\<close>: what is left of a state to be
  well-formed is stated of its queues, its entries and its table.
\<close>

lemma opt_rest_levels:
  assumes st: "opt_struct m" and new: "\<And>t. a \<notin> snd ` set (opt_flat m t)"
    and fresh: "\<And>t. order_id ord \<notin> order_id ` set (opt_book m t)"
    and pool: "pool_read (opt_orderPool m') = (pool_read (opt_orderPool m))(a \<mapsto> ord)"
    and levels: "omap_ok (opt_levels m' t)" "\<forall>e\<in>set (opt_levels m' t). level_ok (snd e)"
    and fl: "\<And>t. opt_flat m' t = (if t = s then enqueue_at s p a (opt_flat m s) else opt_flat m t)"
    and bk: "opt_book m' = spec_rest (opt_book m) ord" and p: "order_price ord = p"
  shows "opt_levels_ok m' t"
proof -
  have price: "\<forall>e\<in>set (opt_flat m t). order_price (opt_at m' (snd e)) = fst e"
    using opt_structD(9) [OF st] new [of t] by (force simp: pool)
  have "distinct (map snd (opt_flat m' t))"
    using opt_structD(3) [OF st, of t] new [of t] by (cases "t = s") (simp_all add: fl distinct_map_enqueue_at)
  moreover have "distinct (map order_id (opt_book m' t))"
    using opt_structD(4) [OF st, of t] fresh [of t]
    by (cases "t = order_side ord") (simp_all add: bk spec_rest_def distinct_enqueue)
  moreover have "\<forall>e\<in>set (opt_flat m' t). pool_read (opt_orderPool m') (snd e) \<noteq> None \<and> order_price (opt_at m' (snd e)) = fst e"
    using price opt_structD(8) [OF st, of _ t] by (auto simp: fl set_enqueue_at pool p)
  ultimately show ?thesis using levels by (simp add: opt_levels_ok_def)
qed

lemma opt_rest_table:
  assumes st: "opt_struct m" and new: "pool_read (opt_orderPool m) a = None"
    and fresh: "\<And>t. order_id ord \<notin> order_id ` set (opt_book m t)"
    and pool: "pool_read (opt_orderPool m') = (pool_read (opt_orderPool m))(a \<mapsto> ord)"
    and table: "opt_orderTable m' = (opt_orderTable m)(order_id ord \<mapsto> \<lparr>oref_side = s, oref_price = p, oref_index = k\<rparr>)"
    and en: "\<And>t q j b. opt_entry m' t q j b \<longleftrightarrow> opt_entry m t q j b \<or> t = s \<and> q = p \<and> j = k \<and> b = a"
  shows "opt_table_ok m'"
  unfolding opt_table_ok_def
proof (intro allI)
  fix i and l :: OrderRef
  let ?e = "opt_entry m (oref_side l) (oref_price l) (oref_index l)"
  have tab: "opt_orderTable m i = Some l \<longleftrightarrow> (\<exists>b. ?e b \<and> order_id (opt_at m b) = i)"
    using opt_structD(5) [OF st] by (simp add: opt_table_ok_def)
  have e: "b \<noteq> a \<and> order_id (opt_at m b) \<noteq> order_id ord" if "?e b" for b
    using opt_entry_live(1) [OF st that] new fresh [of "oref_side l"]
      imageI [OF opt_entry_live(3) [OF st that], of order_id] by auto
  have new_ref: "l = \<lparr>oref_side = s, oref_price = p, oref_index = k\<rparr> \<longleftrightarrow> oref_side l = s \<and> oref_price l = p \<and> oref_index l = k"
    by (cases l) simp
  show "opt_orderTable m' i = Some l \<longleftrightarrow>
      (\<exists>b. opt_entry m' (oref_side l) (oref_price l) (oref_index l) b \<and> order_id (opt_at m' b) = i)"
    using e tab new_ref by (auto simp: en pool table split: if_splits)
qed

lemma opt_rest:
  assumes "opt_struct m" "order_id ord \<notin> book_ids (opt_book m)"
  obtains m' where "opt_restOrder m ord = Some m'" "opt_struct m'" "opt_book m' = spec_rest (opt_book m) ord"
proof -
  define s where "s = order_side ord"
  define p where "p = order_price ord"
  define level where "level = omap_at empty_Level p (opt_levels m s)"
  obtain a P' where c: "do { (a, P1) \<leftarrow> pool_acquire default_order (opt_orderPool m); P2 \<leftarrow> pool_write P1 a ord; Some (a, P2) } = Some (a, P')"
    "pool_ok P'" "pool_read (opt_orderPool m) a = None" "pool_read P' = (pool_read (opt_orderPool m))(a \<mapsto> ord)"
    by (rule pool.construct [OF opt_structD(1) [OF assms(1)]])
  define level' where "level' = level\<lparr>lvl_orders := lvl_orders level @ [Some a], lvl_liveCount := lvl_liveCount level + 1\<rparr>"
  define levels' where "levels' = omap_set p level' (opt_levels m s)"
  define m' where "m' = (opt_put_levels s levels' m)\<lparr>opt_orderPool := P', opt_orderTable := (opt_orderTable m)(order_id ord \<mapsto>
    \<lparr>oref_side = s, oref_price = p, oref_index = length (lvl_orders level)\<rparr>)\<rparr>"
  have eq: "opt_restOrder m ord = Some m'"
    using c(1) by (auto simp: opt_restOrder_def Let_def s_def p_def level_def level'_def levels'_def m'_def bind_eq_Some_conv)
  note app = opt_append [OF assms(1) level_def level'_def levels'_def]
  have sel: "opt_orderPool m' = P'" "opt_levels m' t = (if t = s then levels' else opt_levels m t)" for t
    by (simp_all add: m'_def)
  have fl: "opt_flat m' t = (if t = s then enqueue_at s p a (opt_flat m s) else opt_flat m t)" for t
    using app(1) by (simp add: opt_flat_def sel)
  have en: "opt_entry m' t q j b \<longleftrightarrow> opt_entry m t q j b \<or> t = s \<and> q = p \<and> j = length (lvl_orders level) \<and> b = a" for t q j b
    using app(3) [of q j b] by (cases "t = s") (simp_all add: opt_entry_def sel)
  have new: "a \<notin> snd ` set (opt_flat m t)" for t using opt_structD(8) [OF assms(1)] c(3) by force
  have fresh: "order_id ord \<notin> order_id ` set (opt_book m t)" for t
    using assms(2) in_book_ids [of _ "opt_book m" t] by (metis imageE)
  have old: "map (\<lambda>e. opt_at m' (snd e)) (opt_flat m t) = opt_book m t" for t
    using new [of t] by (force simp: opt_book_def c(4) sel)
  have price: "\<forall>e\<in>set (opt_flat m t). order_price (opt_at m' (snd e)) = fst e" for t
    using opt_structD(9) [OF assms(1)] new [of t] by (force simp: c(4) sel)
  have bk: "opt_book m' = spec_rest (opt_book m) ord"
    using map_enqueue_at [OF price [of s], of p a s] old
    by (auto simp: opt_book_def [of m'] spec_rest_def fun_eq_iff fl s_def [symmetric]) (simp_all add: c(4) p_def sel)
  have "opt_levels_ok m' t" for t
    by (rule opt_rest_levels [OF assms(1) new fresh _ _ _ fl bk])
      (use opt_structD(2,7) [OF assms(1)] app(2) c(4) in \<open>auto simp: sel levels'_def p_def split: if_splits\<close>)
  moreover have "opt_table_ok m'"
    by (rule opt_rest_table [OF assms(1) c(3) fresh _ _ en]) (simp_all add: sel c(4) m'_def)
  moreover have "snd ` set (opt_flat m' Buy) \<inter> snd ` set (opt_flat m' Sell) = {}"
    using assms(1) new [of Buy] new [of Sell] by (cases s) (auto simp: fl set_enqueue_at opt_struct_def)
  moreover have "order_id ` set (opt_book m' Buy) \<inter> order_id ` set (opt_book m' Sell) = {}"
    using assms(1) fresh [of Buy] fresh [of Sell]
    by (cases "order_side ord") (auto simp: bk spec_rest_def set_enqueue opt_struct_def)
  moreover have "opt_no_leak m'"
    using opt_structD(6) [OF assms(1)] by (cases s) (simp_all add: opt_no_leak_def c(4) fl set_enqueue_at sel)
  ultimately have "opt_struct m'" using c(2) by (simp add: opt_struct_def sel)
  with eq bk show ?thesis by (intro that [of m'])
qed

lemma opt_loop_stop:
  assumes "opt_struct m" "s = order_side inc"
    "order_quantity inc = 0 \<or> opt_book m (opposite s) = [] \<or>
       \<not> crosses s (order_price inc) (order_price (hd (opt_book m (opposite s))))"
  shows "opt_cross_loop m inc trades = Some (trades, m, inc)"
proof (cases "opt_book m (opposite s)")
  case Nil
  then have "opt_levels m (opposite s) = []" using opt_book_empty [OF assms(1)] by simp
  then show ?thesis using assms(2) by (subst opt_cross_loop.simps) (simp add: Let_def)
next
  case (Cons ord q)
  obtain p level where "best_level (opposite s) (opt_levels m (opposite s)) = Some (p, level)" "order_price ord = p"
    using opt_head [OF assms(1) Cons] by metis
  with Cons assms(2,3) show ?thesis by (subst opt_cross_loop.simps) (auto simp: Let_def)
qed

lemma opt_loop_step:
  assumes "opt_struct m" "s = order_side inc" "opt_book m (opposite s) = r # q" "order_quantity inc \<noteq> 0"
    "crosses s (order_price inc) (order_price r)" "t = min (order_quantity inc) (order_quantity r)"
  shows "\<exists>m'. opt_cross_loop m inc trades = opt_cross_loop m' (inc\<lparr>order_quantity := order_quantity inc - t\<rparr>)
      (trades @ [\<lparr>trade_incoming = order_id inc, trade_resting = order_id r,
         trade_price = order_price r, trade_quantity = t\<rparr>]) \<and>
      opt_struct m' \<and> opt_book m' = (opt_book m)(opposite s := if order_quantity r - t = 0 then q
        else r\<lparr>order_quantity := order_quantity r - t\<rparr> # q)"
proof -
  obtain p level level' a T m1 where h: "best_level (opposite s) (opt_levels m (opposite s)) = Some (p, level)"
    "opt_frontLive level = (level', Some a)"
    "m1 = opt_put_levels (opposite s) (omap_set p level' (opt_levels m (opposite s))) m"
    "opt_struct m1" "opt_book m1 = opt_book m" "opt_flat m1 (opposite s) = (p, a) # T"
    "map (\<lambda>e. opt_at m (snd e)) T = q" "pool_read (opt_orderPool m) a = Some r" "order_price r = p"
    by (rule opt_head [OF assms(1,3)])
  have pool: "opt_orderPool m1 = opt_orderPool m" by (simp add: h(3))
  obtain m' where m': "opt_struct m'" "opt_fill a m1 inc =
      Some (\<lparr>trade_incoming = order_id inc, trade_resting = order_id r, trade_price = order_price r,
             trade_quantity = t\<rparr>, m', inc\<lparr>order_quantity := order_quantity inc - t\<rparr>)"
    "opt_book m' = (opt_book m1)(opposite s := if order_quantity r - t = 0 then q
       else r\<lparr>order_quantity := order_quantity r - t\<rparr> # q)"
    by (rule opt_fill_step [OF h(4,6) h(8) [folded pool] h(7) [folded pool] assms(6)])
  have "opt_cross_loop m inc trades = opt_cross_loop m' (inc\<lparr>order_quantity := order_quantity inc - t\<rparr>)
      (trades @ [\<lparr>trade_incoming = order_id inc, trade_resting = order_id r,
         trade_price = order_price r, trade_quantity = t\<rparr>])"
    using assms(4,5) h(1,2,9) m'(2)
    by (subst opt_cross_loop.simps) (simp add: Let_def assms(2) [symmetric] h(3) [symmetric])
  with m'(1,3) h(5) show ?thesis by (intro exI [of _ m']) simp
qed

interpretation opt_loop: crossing_loop opt_struct opt_book opt_cross_loop opt_restOrder
proof
  fix m :: OptimizedMatcher and s :: Side and inc ord :: Order and trades r q and t :: Quantity
  assume st: "opt_struct m"
  show "\<exists>m'. opt_restOrder m ord = Some m' \<and> opt_struct m' \<and> opt_book m' = spec_rest (opt_book m) ord"
    if "order_id ord \<notin> book_ids (opt_book m)"
    using opt_rest [OF st that] by metis
  assume s: "s = order_side inc"
  show "opt_cross_loop m inc trades = Some (trades, m, inc)"
    if "order_quantity inc = 0 \<or> opt_book m (opposite s) = [] \<or>
      \<not> crosses s (order_price inc) (order_price (hd (opt_book m (opposite s))))"
    by (rule opt_loop_stop [OF st s that])
  assume "opt_book m (opposite s) = r # q" "order_quantity inc \<noteq> 0"
    "crosses s (order_price inc) (order_price r)" "t = min (order_quantity inc) (order_quantity r)"
  then show "\<exists>m'. opt_cross_loop m inc trades = opt_cross_loop m' (inc\<lparr>order_quantity := order_quantity inc - t\<rparr>)
      (trades @ [\<lparr>trade_incoming = order_id inc, trade_resting = order_id r,
         trade_price = order_price r, trade_quantity = t\<rparr>]) \<and>
      opt_struct m' \<and> opt_book m' = (opt_book m)(opposite s := if order_quantity r - t = 0 then q
        else r\<lparr>order_quantity := order_quantity r - t\<rparr> # q)"
    by (rule opt_loop_step [OF st s])
qed

lemma opt_match_refines:
  assumes "opt_inv m" "order_id ord \<notin> book_ids (opt_book m)"
  shows "\<exists>m'. opt_matchOrder m ord = Some (fst (spec_match (opt_book m) ord), m') \<and>
    opt_inv m' \<and> opt_book m' = snd (spec_match (opt_book m) ord)"
  using opt_loop.match_refines [of m ord] assms
  by (auto simp: opt_inv_def opt_matchOrder_def opt_cross_def)

lemma opt_addOrder_match: "opt_addOrder m ord = map_option snd (opt_matchOrder m ord)"
  by (cases "opt_cross m ord") (auto simp: opt_addOrder_def opt_matchOrder_def split: Option.bind_split)

lemma opt_cancel_refines:
  assumes "opt_inv m"
  shows "\<exists>m'. opt_cancelOrder m i = Some m' \<and> opt_inv m' \<and> opt_book m' = spec_cancel (opt_book m) i"
proof -
  from assms have st: "opt_struct m" and ok: "book_ok (opt_book m)" by (auto simp: opt_inv_def)
  obtain m' where "opt_removeOrder m i = Some m'" "opt_struct m'" "opt_book m' = spec_cancel (opt_book m) i"
    using opt_remove [OF st] by metis
  with ok show ?thesis by (simp add: opt_cancelOrder_def opt_inv_def book_ok_cancel)
qed

lemma opt_best_refines:
  assumes "opt_inv m"
  shows "opt_bestBid m = spec_best (opt_book m) Buy" "opt_bestAsk m = spec_best (opt_book m) Sell"
proof -
  from assms have st: "opt_struct m" by (simp add: opt_inv_def)
  have "(case best_level s (opt_levels m s) of None \<Rightarrow> (case s of Buy \<Rightarrow> -1 | Sell \<Rightarrow> 0) | Some e \<Rightarrow> fst e) =
      spec_best (opt_book m) s" for s
  proof (cases "opt_book m s")
    case Nil
    then show ?thesis using opt_book_empty [OF st, of s] by (simp add: spec_best_def)
  next
    case (Cons ord q)
    obtain p level where "best_level s (opt_levels m s) = Some (p, level)" "order_price ord = p"
      using opt_head [OF st Cons] by metis
    with Cons show ?thesis by (simp add: spec_best_def)
  qed
  from this [of Buy] this [of Sell]
  show "opt_bestBid m = spec_best (opt_book m) Buy" "opt_bestAsk m = spec_best (opt_book m) Sell"
    by (auto simp: opt_bestBid_def opt_bestAsk_def best_level_def hd_rev [symmetric] split: list.splits)
qed

lemma opt_level_total_sum:
  assumes "\<forall>a\<in>set (live_ptrs xs). pool_read P a \<noteq> None"
  shows "opt_level_total P xs c = Some (c + sum_list (map (\<lambda>a. order_quantity (the (pool_read P a))) (live_ptrs xs)))"
  using assms by (induction P xs c rule: opt_level_total.induct) (auto simp: add.assoc)

lemma opt_depth_loop_take:
  assumes "\<forall>e\<in>set levels. \<forall>a\<in>set (live_ptrs (lvl_orders (snd e))). pool_read P a \<noteq> None"
  shows "opt_depth_loop P levels n result = Some (result @ take (n - length result)
     (map (\<lambda>e. \<lparr>level_price = fst e, level_quantity =
        sum_list (map (\<lambda>a. order_quantity (the (pool_read P a))) (live_ptrs (lvl_orders (snd e))))\<rparr>) levels))"
  using assms
proof (induction P levels n result rule: opt_depth_loop.induct)
  case (2 P p level levels n result)
  then show ?case by (auto simp: opt_level_total_sum take_Cons' Suc_diff_Suc)
qed simp

lemma opt_depth_refines:
  assumes "opt_inv m"
  shows "opt_depthFrom m (opt_levels m s) (s = Buy) n = Some (spec_depth (opt_book m) s n)"
proof -
  from assms have st: "opt_struct m" by (simp add: opt_inv_def)
  let ?q = "\<lambda>a. order_quantity (opt_at m a)"
  let ?m = "omap_map (map ?q) (opt_ptr_levels (opt_levels m s))"
  have ok: "omap_ok ?m" "no_empty_level ?m"
    using opt_structD(2,7) [OF st, where s = s]
    by (auto simp: omap_simps) (fastforce simp: no_empty_level_def omap_map_def level_ok_def)
  have "map (\<lambda>x. (order_price x, order_quantity x)) (opt_book m s) = flat s ?m"
    using opt_structD(9) [OF st] by (auto simp: opt_book_def flat_map opt_flat_def)
  then have "spec_depth (opt_book m) s n =
      take n (map (\<lambda>e. \<lparr>level_price = fst e, level_quantity = sum_list (snd e)\<rparr>) (dir s ?m))"
    using aggregate_flat [OF ok] by (simp add: spec_depth_def)
  also have "dir s ?m = omap_map (map ?q) (opt_ptr_levels (dir s (opt_levels m s)))"
    by (cases s) (simp_all add: omap_map_def rev_map)
  finally have spec: "spec_depth (opt_book m) s n = take n (map (\<lambda>e. \<lparr>level_price = fst e, level_quantity =
      sum_list (map ?q (live_ptrs (lvl_orders (snd e))))\<rparr>) (dir s (opt_levels m s)))"
    by (simp add: omap_map_def o_def split_beta)
  have "pool_read (opt_orderPool m) a \<noteq> None"
    if "e \<in> set (opt_levels m s)" "a \<in> set (live_ptrs (lvl_orders (snd e)))" for e a
  proof -
    have "(fst e, a) \<in> set (opt_flat m s)"
      using that unfolding opt_flat_def in_flat_iff by (force simp: omap_map_def)
    then show ?thesis using opt_structD(8) [OF st] by force
  qed
  then have "opt_depth_loop (opt_orderPool m) (dir s (opt_levels m s)) n [] = Some (spec_depth (opt_book m) s n)"
    by (subst opt_depth_loop_take) (simp_all add: spec)
  then show ?thesis by (cases s) (simp_all add: opt_depthFrom_def)
qed

text \<open>The fast matcher keeps the same contract.\<close>

interpretation opt: price_time_matcher OptimizedMatcher_vtable opt_inv opt_book
proof
  fix m :: OptimizedMatcher and ord :: Order and i n
  assume inv: "opt_inv m"
  show "book_ok (opt_book m)" using inv by (simp add: opt_inv_def)
  show "vt_bestBid OptimizedMatcher_vtable m = spec_best (opt_book m) Buy"
    "vt_bestAsk OptimizedMatcher_vtable m = spec_best (opt_book m) Sell"
    using opt_best_refines [OF inv] by (simp_all add: OptimizedMatcher_vtable_def)
  show "vt_bidDepth OptimizedMatcher_vtable m n = Some (spec_depth (opt_book m) Buy n)"
    "vt_askDepth OptimizedMatcher_vtable m n = Some (spec_depth (opt_book m) Sell n)"
    using opt_depth_refines [OF inv, of Buy] opt_depth_refines [OF inv, of Sell]
    by (simp_all add: OptimizedMatcher_vtable_def opt_bidDepth_def opt_askDepth_def)
  show "\<exists>m'. vt_cancelOrder OptimizedMatcher_vtable m i = Some m' \<and> opt_inv m' \<and>
      opt_book m' = spec_cancel (opt_book m) i"
    using opt_cancel_refines [OF inv] by (simp add: OptimizedMatcher_vtable_def)
  assume "order_id ord \<notin> book_ids (opt_book m)"
  note r = opt_match_refines [OF inv this]
  show "\<exists>m'. vt_matchOrder OptimizedMatcher_vtable m ord = Some (fst (spec_match (opt_book m) ord), m') \<and>
      opt_inv m' \<and> opt_book m' = snd (spec_match (opt_book m) ord)"
    using r by (simp add: OptimizedMatcher_vtable_def)
  show "\<exists>m'. vt_addOrder OptimizedMatcher_vtable m ord = Some m' \<and> opt_inv m' \<and>
      opt_book m' = snd (spec_match (opt_book m) ord)"
    using r by (auto simp: OptimizedMatcher_vtable_def opt_addOrder_match)
qed

lemma opt_inv_new: "opt_inv new_OptimizedMatcher" "opt_book new_OptimizedMatcher = empty_book"
proof -
  have [simp]: "opt_levels new_OptimizedMatcher s = []" for s
    by (cases s) (simp_all add: new_OptimizedMatcher_def)
  have [simp]: "opt_flat new_OptimizedMatcher s = []" for s by (simp add: opt_flat_def omap_simps)
  show b: "opt_book new_OptimizedMatcher = empty_book" by (auto simp: opt_book_def empty_book_def)
  have "pool_ok (opt_orderPool new_OptimizedMatcher)" by (simp add: new_OptimizedMatcher_def pool_ok_new)
  moreover have "opt_table_ok new_OptimizedMatcher"
    by (simp add: opt_table_ok_def opt_entry_def) (simp add: new_OptimizedMatcher_def)
  moreover have "opt_no_leak new_OptimizedMatcher"
    by (simp add: opt_no_leak_def) (simp add: new_OptimizedMatcher_def pool_ok_new)
  ultimately show "opt_inv new_OptimizedMatcher"
    by (simp add: opt_inv_def opt_struct_def opt_levels_ok_def b) (simp add: empty_book_def)
qed

section \<open>Properties\<close>

text \<open>
  C18. The optimized matcher has the behaviour of the specification too: tombstones, front
  indices, live counters and pooled orders are invisible in its trades and its book, and the
  crossing loop terminates.
\<close>

theorem optimized_matches_by_priority:
  assumes "opt_inv m" "order_id ord \<notin> book_ids (opt_book m)"
  shows "\<exists>m'. opt_matchOrder m ord = Some (fst (spec_match (opt_book m) ord), m') \<and>
    opt_inv m' \<and> opt_book m' = snd (spec_match (opt_book m) ord)"
  using opt_match_refines [OF assms] .

theorem optimized_matches_by_priority_witness:
  "\<exists>m'. opt_matchOrder new_OptimizedMatcher (limit_order 1 Buy 100 5) = Some ([], m') \<and>
     opt_inv m' \<and> map order_id (opt_book m' Buy) = [1]"
  using optimized_matches_by_priority [OF opt_inv_new(1), of "limit_order 1 Buy 100 5"]
  by (auto simp: opt_inv_new(2) book_ids_def empty_book_def limit_order_def spec_match_def spec_cross_def
      Let_def spec_rest_def enqueue_def)

text \<open>
  No leak: every slot of the slabs is on the free list or holds one of the resting orders, and the
  orders that live in the pool are exactly the resting ones.
\<close>

lemma opt_pool_slots:
  assumes "opt_inv m"
  shows "pool_slabCount (opt_orderPool m) * pool_slabSize (opt_orderPool m) =
    pool_freeCount (opt_orderPool m) + length (opt_book m Buy) + length (opt_book m Sell)"
proof -
  from assms have st: "opt_struct m" by (simp add: opt_inv_def)
  note pool = opt_structD(1) [OF st]
  have "pool_live (opt_orderPool m) = snd ` set (opt_flat m Buy) \<union> snd ` set (opt_flat m Sell)"
    using opt_structD(6) [OF st] pool_okD(2) [OF pool] by (auto simp: pool_live_def opt_no_leak_def dom_def)
  moreover have "snd ` set (opt_flat m Buy) \<inter> snd ` set (opt_flat m Sell) = {}" using st by (simp add: opt_struct_def)
  moreover have "card (snd ` set (opt_flat m s)) = length (opt_book m s)" for s
    using distinct_card [OF opt_structD(3) [OF st, of s]] by (simp add: opt_book_def)
  ultimately have "card (pool_live (opt_orderPool m)) = length (opt_book m Buy) + length (opt_book m Sell)"
    by (simp add: card_Un_disjoint)
  with pool_slots_partition [OF pool] show ?thesis by simp
qed

lemma opt_pool_orders:
  assumes "opt_inv m"
  shows "(\<exists>a. pool_read (opt_orderPool m) a = Some ord) \<longleftrightarrow> (\<exists>s. ord \<in> set (opt_book m s))"
proof -
  from assms have st: "opt_struct m" by (simp add: opt_inv_def)
  have "dom (pool_read (opt_orderPool m)) = (\<Union>s. snd ` set (opt_flat m s))"
    using opt_structD(6) [OF st] by (simp add: opt_no_leak_def UNIV_Side)
  then have "\<exists>s. \<exists>e\<in>set (opt_flat m s). snd e = a" if "pool_read (opt_orderPool m) a = Some ord" for a
    using domI [of "pool_read (opt_orderPool m)", OF that] by auto
  then have "(\<exists>a. pool_read (opt_orderPool m) a = Some ord) \<longleftrightarrow>
      (\<exists>s. \<exists>e\<in>set (opt_flat m s). pool_read (opt_orderPool m) (snd e) = Some ord)"
    by blast
  also have "\<dots> \<longleftrightarrow> (\<exists>s. ord \<in> set (opt_book m s))"
    using opt_structD(8) [OF st] by (force simp: opt_book_def)
  finally show ?thesis .
qed

end
