(* ===== verification/Order_Validator.thy ===== *)
theory Order_Validator
  imports Titan_Types
begin

text \<open>
  The stateless checks of \<open>src/exchange/validator.cpp\<close>, made before an order reaches a
  matcher, and the two tests of \<open>OrderManager\<close> on an order's type.
\<close>

definition validateNewOrder :: "Order \<Rightarrow> OrderId set \<Rightarrow> RejectReason" where
  "validateNewOrder ord existingIds =
     (if order_quantity ord = 0 then ZeroQuantity
      else if order_type ord = Limit \<and> order_price ord = 0 then ZeroPrice
      else if order_id ord \<in> existingIds then DuplicateOrderId
      else NoReason)"

definition validateCancel :: "OrderId \<Rightarrow> OrderId set \<Rightarrow> RejectReason" where
  "validateCancel i existingIds = (if i \<notin> existingIds then UnknownOrder else NoReason)"

text \<open>Market orders, and limit orders that are IOC, can only be sent to \<open>matchOrder\<close>.\<close>

definition cannot_rest :: "Order \<Rightarrow> bool" where
  "cannot_rest ord \<longleftrightarrow> order_type ord = Market \<or> order_type ord = Limit \<and> order_tif ord = IOC"

lemma validateNewOrder_ok:
  "validateNewOrder ord ids = NoReason \<longleftrightarrow>
     order_quantity ord \<noteq> 0 \<and> (order_type ord = Limit \<longrightarrow> order_price ord \<noteq> 0) \<and> order_id ord \<notin> ids"
  by (simp add: validateNewOrder_def)

lemma validateCancel_ok: "validateCancel i ids = NoReason \<longleftrightarrow> i \<in> ids"
  by (simp add: validateCancel_def)

lemma cannot_rest_iff: "cannot_rest ord \<longleftrightarrow> order_type ord = Market \<or> order_tif ord = IOC"
  by (cases "order_type ord") (auto simp: cannot_rest_def)

end
