(* ===== verification/Order_Manager.thy ===== *)
theory Order_Manager
  imports Matcher_Spec Order_Validator
begin

text \<open>
  \<open>OrderManager\<close> (\<open>include/titan/exchange/order_manager.hpp\<close>, \<open>src/exchange/order_manager.cpp\<close>):
  validation, order lifecycle and self-trade prevention on top of any \<open>IMatcher\<close>.  The
  manager reaches its matcher through the virtual functions only, so every operation takes
  them as its argument \<open>M\<close>; the state of the matcher it refers to is the field
  \<open>om_matcher\<close>.  A call that would loop for ever or throw has no result.
\<close>

section \<open>State and operations\<close>

datatype StpMode = CancelIncoming

record AcceptResult =
  accepted :: bool
  reason :: RejectReason

record MatchResult =
  mr_trades :: "Trade list"
  mr_accept :: AcceptResult

type_synonym ShadowLevels = "(Price, OrderId list) omap"

record 'm OrderManager =
  om_matcher :: 'm
  om_stpMode :: StpMode
  om_restingBidsAt :: ShadowLevels
  om_restingAsksAt :: ShadowLevels
  om_allKnownOrderIds :: "OrderId set"
  om_activeOrderIds :: "OrderId set"
  om_orders :: "OrderId \<rightharpoonup> Order"

definition accept :: AcceptResult where
  "accept = \<lparr>accepted = True, reason = NoReason\<rparr>"

definition reject :: "RejectReason \<Rightarrow> AcceptResult" where
  "reject r = \<lparr>accepted = False, reason = r\<rparr>"

definition new_OrderManager :: "'m \<Rightarrow> 'm OrderManager" where
  "new_OrderManager m =
     \<lparr>om_matcher = m, om_stpMode = CancelIncoming, om_restingBidsAt = [], om_restingAsksAt = [],
      om_allKnownOrderIds = {}, om_activeOrderIds = {}, om_orders = Map.empty\<rparr>"

primrec om_levels :: "'m OrderManager \<Rightarrow> Side \<Rightarrow> ShadowLevels" where
  "om_levels om Buy = om_restingBidsAt om"
| "om_levels om Sell = om_restingAsksAt om"

primrec om_put_levels :: "Side \<Rightarrow> ShadowLevels \<Rightarrow> 'm OrderManager \<Rightarrow> 'm OrderManager" where
  "om_put_levels Buy l om = om\<lparr>om_restingBidsAt := l\<rparr>"
| "om_put_levels Sell l om = om\<lparr>om_restingAsksAt := l\<rparr>"

definition om_trackResting :: "Order \<Rightarrow> 'm OrderManager \<Rightarrow> 'm OrderManager" where
  "om_trackResting ord om =
     (let s = order_side ord; levels = om_levels om s in
      om_put_levels s (omap_set (order_price ord) (omap_at [] (order_price ord) levels @ [order_id ord]) levels) om)"

text \<open>The local \<open>eraseFrom\<close>: the first level that holds the id loses it, and goes when empty.\<close>

fun om_eraseFrom :: "OrderId \<Rightarrow> ShadowLevels \<Rightarrow> bool \<times> ShadowLevels" where
  "om_eraseFrom i [] = (False, [])"
| "om_eraseFrom i ((p, ids) # levels) =
     (if i \<in> set ids then
        (let ids' = remove1 i ids in (True, if ids' = [] then levels else (p, ids') # levels))
      else (case om_eraseFrom i levels of (found, levels') \<Rightarrow> (found, (p, ids) # levels')))"

definition om_untrackResting :: "OrderId \<Rightarrow> 'm OrderManager \<Rightarrow> 'm OrderManager" where
  "om_untrackResting i om =
     (case om_eraseFrom i (om_restingBidsAt om) of (found, bids) \<Rightarrow>
        let om1 = om\<lparr>om_restingBidsAt := bids\<rparr> in
        if found then om1
        else om1\<lparr>om_restingAsksAt := snd (om_eraseFrom i (om_restingAsksAt om1))\<rparr>)"

definition om_wouldCross :: "'m OrderManager \<Rightarrow> Order \<Rightarrow> bool" where
  "om_wouldCross om ord =
     (let opp = om_levels om (opposite (order_side ord)) in
      if opp = [] then False
      else if order_side ord = Buy then order_price ord \<ge> fst (hd opp)
      else order_price ord \<le> fst (last opp))"

text \<open>The body of the loop of \<open>matchWithStp\<close> over the trades of one probe.\<close>

definition om_applyTrade :: "Trade \<Rightarrow> 'm OrderManager \<Rightarrow> 'm OrderManager" where
  "om_applyTrade t om =
     (let i = trade_resting t in
      case om_orders om i of
        None \<Rightarrow> om
      | Some ord \<Rightarrow>
          let q = order_quantity ord - trade_quantity t in
          if q = 0 then
            om_untrackResting i
              (om\<lparr>om_orders := (om_orders om)(i \<mapsto> ord\<lparr>order_quantity := q, order_status := Filled\<rparr>),
                 om_activeOrderIds := om_activeOrderIds om - {i}\<rparr>)
          else om\<lparr>om_orders := (om_orders om)(i \<mapsto> ord\<lparr>order_quantity := q, order_status := PartiallyFilled\<rparr>)\<rparr>)"

text \<open>The loop carries \<open>allTrades\<close>, \<open>filled\<close> and \<open>remaining\<close>.\<close>

partial_function (option) om_stp_loop ::
  "'m IMatcher \<Rightarrow> Order \<Rightarrow> 'm OrderManager \<Rightarrow> Trade list \<Rightarrow> Quantity \<Rightarrow> Quantity \<Rightarrow>
   (Trade list \<times> Quantity \<times> 'm OrderManager) option" where
  "om_stp_loop M inc om allTrades filled remaining =
     (let s = opposite (order_side inc); levels = om_levels om s in
      if \<not> 0 < remaining then Some (allTrades, filled, om)
      else case best_level s levels of
        None \<Rightarrow> Some (allTrades, filled, om)
      | Some (levelPrice, ids) \<Rightarrow>
          if \<not> crosses (order_side inc) (order_price inc) levelPrice then Some (allTrades, filled, om)
          else if ids = [] then
            om_stp_loop M inc (om_put_levels s (omap_erase levelPrice levels) om) allTrades filled remaining
          else do {
            resting \<leftarrow> om_orders om (hd ids);
            if order_accountId inc \<noteq> 0 \<and> order_accountId resting = order_accountId inc
            then Some (allTrades, filled, om)
            else do {
              let chunk = min remaining (order_quantity resting);
              (trades, m') \<leftarrow> vt_matchOrder M (om_matcher om) (inc\<lparr>order_quantity := chunk\<rparr>);
              let om1 = om\<lparr>om_matcher := m'\<rparr>;
              if trades = [] then Some (allTrades, filled, om1)
              else om_stp_loop M inc (fold om_applyTrade trades om1) (allTrades @ trades)
                     (foldl (\<lambda>a t. a + trade_quantity t) filled trades)
                     (foldl (\<lambda>a t. a - trade_quantity t) remaining trades)
            }
          })"

declare om_stp_loop.simps [code]

definition om_matchWithStp ::
  "'m IMatcher \<Rightarrow> 'm OrderManager \<Rightarrow> Order \<Rightarrow> (Trade list \<times> Quantity \<times> 'm OrderManager) option" where
  "om_matchWithStp M om inc = om_stp_loop M inc om [] 0 (order_quantity inc)"

text \<open>What \<open>matchOrder\<close> does once \<open>matchWithStp\<close> has returned: rest the remainder, record the snapshot.\<close>

definition om_settle ::
  "'m IMatcher \<Rightarrow> 'm OrderManager \<Rightarrow> Order \<Rightarrow> Trade list \<Rightarrow> Quantity \<Rightarrow> (MatchResult \<times> 'm OrderManager) option" where
  "om_settle M om ord trades filled =
     (let mayRest = (order_type ord \<noteq> Market \<and> order_tif ord \<noteq> IOC);
          remaining = order_quantity ord - filled;
          rests = (mayRest \<and> 0 < remaining \<and> \<not> om_wouldCross om ord);
          resting = ord\<lparr>order_quantity := remaining,
                        order_status := if 0 < filled then PartiallyFilled else New\<rparr>;
          status = (if remaining = 0 then Filled
                    else if \<not> rests then (if 0 < filled then Filled else Cancelled)
                    else if 0 < filled then PartiallyFilled else New);
          snapshot = ord\<lparr>order_quantity := remaining, order_status := status\<rparr>
      in do {
        om' \<leftarrow> (if rests then do {
                   m' \<leftarrow> vt_addOrder M (om_matcher om) resting;
                   Some (om_trackResting resting
                     (om\<lparr>om_matcher := m', om_activeOrderIds := insert (order_id ord) (om_activeOrderIds om)\<rparr>)) }
                 else Some om);
        Some (\<lparr>mr_trades = trades, mr_accept = accept\<rparr>,
              om'\<lparr>om_orders := (om_orders om')(order_id ord \<mapsto> snapshot)\<rparr>)
      })"

definition om_matchOrder :: "'m IMatcher \<Rightarrow> 'm OrderManager \<Rightarrow> Order \<Rightarrow> (MatchResult \<times> 'm OrderManager) option" where
  "om_matchOrder M om ord =
     (let why = validateNewOrder ord (om_allKnownOrderIds om) in
      if why \<noteq> NoReason then Some (\<lparr>mr_trades = [], mr_accept = reject why\<rparr>, om)
      else
        let isMarket = (order_type ord = Market);
            toMatch = (if isMarket then ord\<lparr>order_price := if order_side ord = Buy then -1 else 0\<rparr> else ord);
            om1 = om\<lparr>om_allKnownOrderIds := insert (order_id ord) (om_allKnownOrderIds om)\<rparr>
        in do {
          (trades, filled, om2) \<leftarrow> om_matchWithStp M om1 toMatch;
          om_settle M om2 ord trades filled
        })"

definition om_addOrder :: "'m IMatcher \<Rightarrow> 'm OrderManager \<Rightarrow> Order \<Rightarrow> (AcceptResult \<times> 'm OrderManager) option" where
  "om_addOrder M om ord =
     (if cannot_rest ord then Some (reject InvalidOrderType, om)
      else
        let why = validateNewOrder ord (om_allKnownOrderIds om) in
        if why \<noteq> NoReason then Some (reject why, om)
        else do { (_, om') \<leftarrow> om_matchOrder M om ord; Some (accept, om') })"

definition om_cancelOrder :: "'m IMatcher \<Rightarrow> 'm OrderManager \<Rightarrow> OrderId \<Rightarrow> (AcceptResult \<times> 'm OrderManager) option" where
  "om_cancelOrder M om i =
     (let why = validateCancel i (om_activeOrderIds om) in
      if why \<noteq> NoReason then Some (reject why, om)
      else do {
        m' \<leftarrow> vt_cancelOrder M (om_matcher om) i;
        let om1 = om_untrackResting i
          (om\<lparr>om_matcher := m', om_activeOrderIds := om_activeOrderIds om - {i}\<rparr>);
        ord \<leftarrow> om_orders om1 i;
        Some (accept, om1\<lparr>om_orders := (om_orders om1)(i \<mapsto> ord\<lparr>order_status := Cancelled\<rparr>)\<rparr>)
      })"

text \<open>The two loops that rebuild a level: cancel every id of it, then add the snapshots back.\<close>

fun om_cancel_ids :: "'m IMatcher \<Rightarrow> OrderId list \<Rightarrow> 'm \<Rightarrow> 'm option" where
  "om_cancel_ids M [] m = Some m"
| "om_cancel_ids M (i # ids) m = do { m' \<leftarrow> vt_cancelOrder M m i; om_cancel_ids M ids m' }"

fun om_add_ids :: "'m IMatcher \<Rightarrow> (OrderId \<rightharpoonup> Order) \<Rightarrow> OrderId list \<Rightarrow> 'm \<Rightarrow> 'm option" where
  "om_add_ids M orders [] m = Some m"
| "om_add_ids M orders (i # ids) m =
     do { ord \<leftarrow> orders i; m' \<leftarrow> vt_addOrder M m ord; om_add_ids M orders ids m' }"

definition om_cancelReplace ::
  "'m IMatcher \<Rightarrow> 'm OrderManager \<Rightarrow> OrderId \<Rightarrow> Order \<Rightarrow> (AcceptResult \<times> 'm OrderManager) option" where
  "om_cancelReplace M om oldId newOrder =
     (if oldId \<notin> om_activeOrderIds om then Some (reject OrderNotResting, om)
      else if order_id newOrder \<noteq> oldId then Some (reject InvalidReplace, om)
      else if cannot_rest newOrder then Some (reject InvalidReplace, om)
      else
        let why = validateNewOrder newOrder (om_allKnownOrderIds om - {oldId}) in
        if why \<noteq> NoReason then Some (reject why, om)
        else if om_wouldCross om newOrder then Some (reject ReplaceWouldCross, om)
        else do {
          existing \<leftarrow> om_orders om oldId;
          let samePrice = (order_price newOrder = order_price existing);
          let preservesPriority = (samePrice \<and> order_quantity newOrder \<le> order_quantity existing);
          let newOrder' = newOrder\<lparr>order_status := New\<rparr>;
          if preservesPriority then do {
            let levels = om_levels om (order_side newOrder');
            let ids = omap_at [] (order_price newOrder') levels;
            let om1 = om_put_levels (order_side newOrder') (omap_set (order_price newOrder') ids levels) om;
            let om2 = om1\<lparr>om_orders := (om_orders om1)(oldId \<mapsto> newOrder')\<rparr>;
            m1 \<leftarrow> om_cancel_ids M ids (om_matcher om2);
            m2 \<leftarrow> om_add_ids M (om_orders om2) ids m1;
            Some (accept, om2\<lparr>om_matcher := m2\<rparr>)
          } else do {
            m1 \<leftarrow> vt_cancelOrder M (om_matcher om) oldId;
            let om1 = om_untrackResting oldId (om\<lparr>om_matcher := m1\<rparr>);
            m2 \<leftarrow> vt_addOrder M m1 newOrder';
            Some (accept, om_trackResting newOrder'
              (om1\<lparr>om_matcher := m2, om_orders := (om_orders om1)(oldId \<mapsto> newOrder'),
                 om_activeOrderIds := insert oldId (om_activeOrderIds om1)\<rparr>))
          }
        })"

definition om_statusOf :: "'m OrderManager \<Rightarrow> OrderId \<Rightarrow> OrderStatus option" where
  "om_statusOf om i = (case om_orders om i of None \<Rightarrow> None | Some ord \<Rightarrow> Some (order_status ord))"

definition om_find :: "'m OrderManager \<Rightarrow> OrderId \<Rightarrow> Order option" where
  "om_find om i = om_orders om i"

section \<open>The contract of the manager\<close>

text \<open>Accounts other than 0 never trade with themselves: a sweep ends before such an order.\<close>

definition collides :: "AccountId \<Rightarrow> Order \<Rightarrow> bool" where
  "collides acc r \<longleftrightarrow> acc \<noteq> 0 \<and> order_accountId r = acc"

definition stp_sweep ::
  "Side \<Rightarrow> Price \<Rightarrow> OrderId \<Rightarrow> AccountId \<Rightarrow> Quantity \<Rightarrow> Order list \<Rightarrow> Trade list \<times> Order list \<times> Quantity" where
  "stp_sweep s p i acc q rs =
     (case sweep s p i q (takeWhile (\<lambda>r. \<not> collides acc r) rs) of
        (ts, rs', left) \<Rightarrow> (ts, rs' @ dropWhile (\<lambda>r. \<not> collides acc r) rs, left))"

text \<open>The price an order is matched at: a market order crosses every level.\<close>

definition effective_price :: "Order \<Rightarrow> Price" where
  "effective_price ord = (if order_type ord = Market then (if order_side ord = Buy then -1 else 0) else order_price ord)"

definition may_rest :: "book \<Rightarrow> Order \<Rightarrow> Quantity \<Rightarrow> bool" where
  "may_rest b ord left \<longleftrightarrow> \<not> cannot_rest ord \<and> left \<noteq> 0 \<and>
     (\<forall>r\<in>set (b (opposite (order_side ord))). \<not> crosses (order_side ord) (order_price ord) (order_price r))"

definition remainder :: "Order \<Rightarrow> Quantity \<Rightarrow> Order" where
  "remainder ord left = ord\<lparr>order_quantity := left,
     order_status := if left = order_quantity ord then New else PartiallyFilled\<rparr>"

definition spec_submit :: "book \<Rightarrow> Order \<Rightarrow> Trade list \<times> book \<times> Quantity" where
  "spec_submit b ord =
     (let s = order_side ord in
      case stp_sweep s (effective_price ord) (order_id ord) (order_accountId ord) (order_quantity ord) (b (opposite s)) of
        (ts, q, left) \<Rightarrow>
          let b1 = b(opposite s := q)
          in (ts, if may_rest b1 ord left then spec_rest b1 (remainder ord left) else b1, left))"

text \<open>The status recorded for an order that asked for \<open>full\<close> and has \<open>left\<close> unfilled.\<close>

definition final_status :: "Quantity \<Rightarrow> Quantity \<Rightarrow> bool \<Rightarrow> OrderStatus" where
  "final_status full left rests =
     (if left = 0 then Filled
      else if \<not> rests then (if left = full then Cancelled else Filled)
      else if left = full then New else PartiallyFilled)"

text \<open>Booking a trade in the snapshot of the resting order.\<close>

definition book_trade :: "Trade \<Rightarrow> (OrderId \<rightharpoonup> Order) \<Rightarrow> (OrderId \<rightharpoonup> Order)" where
  "book_trade t f =
     (case f (trade_resting t) of
        None \<Rightarrow> f
      | Some ord \<Rightarrow>
          let q = order_quantity ord - trade_quantity t
          in f(trade_resting t \<mapsto> ord\<lparr>order_quantity := q,
               order_status := if q = 0 then Filled else PartiallyFilled\<rparr>))"

text \<open>
  The manager as its users see it: a book and the snapshot of every order ever accepted.
  There are no shadow queues, no id sets and no probes here, and every operation is total.
\<close>

record SpecManager =
  sm_book :: book
  sm_orders :: "OrderId \<rightharpoonup> Order"

definition spec_om_match :: "SpecManager \<Rightarrow> Order \<Rightarrow> MatchResult \<times> SpecManager" where
  "spec_om_match sm ord =
     (let why = validateNewOrder ord (dom (sm_orders sm)) in
      if why \<noteq> NoReason then (\<lparr>mr_trades = [], mr_accept = reject why\<rparr>, sm)
      else case spec_submit (sm_book sm) ord of (ts, b, left) \<Rightarrow>
        (\<lparr>mr_trades = ts, mr_accept = accept\<rparr>,
         \<lparr>sm_book = b, sm_orders = (fold book_trade ts (sm_orders sm))(order_id ord \<mapsto>
            ord\<lparr>order_quantity := left,
                order_status := final_status (order_quantity ord) left (order_id ord \<in> book_ids b)\<rparr>)\<rparr>))"

definition spec_om_add :: "SpecManager \<Rightarrow> Order \<Rightarrow> AcceptResult \<times> SpecManager" where
  "spec_om_add sm ord =
     (if cannot_rest ord then (reject InvalidOrderType, sm)
      else case spec_om_match sm ord of (r, sm') \<Rightarrow> (mr_accept r, sm'))"

definition spec_om_cancel :: "SpecManager \<Rightarrow> OrderId \<Rightarrow> AcceptResult \<times> SpecManager" where
  "spec_om_cancel sm i =
     (if i \<notin> book_ids (sm_book sm) then (reject UnknownOrder, sm)
      else (accept, \<lparr>sm_book = spec_cancel (sm_book sm) i,
        sm_orders = (sm_orders sm)(i := map_option (\<lambda>x. x\<lparr>order_status := Cancelled\<rparr>) (sm_orders sm i))\<rparr>))"

text \<open>A level written anew from the snapshots, every order at its place.\<close>

definition spec_rebuild :: "(OrderId \<rightharpoonup> Order) \<Rightarrow> Side \<Rightarrow> Price \<Rightarrow> book \<Rightarrow> book" where
  "spec_rebuild orders s p b =
     b(s := map (\<lambda>r. if order_price r = p then the (orders (order_id r)) else r) (b s))"

definition would_cross :: "book \<Rightarrow> Order \<Rightarrow> bool" where
  "would_cross b ord \<longleftrightarrow>
     (\<exists>r\<in>set (b (opposite (order_side ord))). crosses (order_side ord) (order_price ord) (order_price r))"

definition replace_reason :: "SpecManager \<Rightarrow> OrderId \<Rightarrow> Order \<Rightarrow> RejectReason" where
  "replace_reason sm i ord =
     (if i \<notin> book_ids (sm_book sm) then OrderNotResting
      else if order_id ord \<noteq> i \<or> cannot_rest ord then InvalidReplace
      else if validateNewOrder ord (dom (sm_orders sm) - {i}) \<noteq> NoReason
      then validateNewOrder ord (dom (sm_orders sm) - {i})
      else if would_cross (sm_book sm) ord then ReplaceWouldCross else NoReason)"

definition spec_om_replace :: "SpecManager \<Rightarrow> OrderId \<Rightarrow> Order \<Rightarrow> AcceptResult \<times> SpecManager" where
  "spec_om_replace sm i ord =
     (let why = replace_reason sm i ord;
          old = the (sm_orders sm i);
          new = ord\<lparr>order_status := New\<rparr>;
          orders = (sm_orders sm)(i \<mapsto> new)
      in if why \<noteq> NoReason then (reject why, sm)
         else (accept, \<lparr>sm_book =
             if order_price ord = order_price old \<and> order_quantity ord \<le> order_quantity old
             then spec_rebuild orders (order_side ord) (order_price ord) (sm_book sm)
             else spec_rest (spec_cancel (sm_book sm) i) new, sm_orders = orders\<rparr>))"

section \<open>Invariant\<close>

text \<open>The shadow queues list the ids of the book in the same order.\<close>

definition shadow_ok :: "ShadowLevels \<Rightarrow> Side \<Rightarrow> Order list \<Rightarrow> bool" where
  "shadow_ok l s q \<longleftrightarrow> omap_ok l \<and> no_empty_level l \<and> flat s l = map (\<lambda>r. (order_price r, order_id r)) q"

text \<open>
  The matcher's copy of an order and the manager's snapshot of it agree on everything but
  the status, which only the manager maintains.
\<close>

definition same_order :: "Order \<Rightarrow> Order \<Rightarrow> bool" where
  "same_order x y \<longleftrightarrow> x\<lparr>order_status := New\<rparr> = y\<lparr>order_status := New\<rparr>"

definition resting_status :: "OrderStatus \<Rightarrow> bool" where
  "resting_status st \<longleftrightarrow> st = New \<or> st = PartiallyFilled"

definition om_link :: "book \<Rightarrow> 'm OrderManager \<Rightarrow> bool" where
  "om_link b om \<longleftrightarrow>
     (\<forall>s. shadow_ok (om_levels om s) s (b s)) \<and>
     (\<forall>s. \<forall>r\<in>set (b s). \<exists>x. om_orders om (order_id r) = Some x \<and> same_order x r) \<and>
     (\<forall>s. \<forall>r\<in>set (b s). \<not> cannot_rest r \<and> order_price r \<noteq> 0) \<and>
     om_activeOrderIds om = book_ids b \<and> dom (om_orders om) \<subseteq> om_allKnownOrderIds om \<and>
     (\<forall>i x. om_orders om i = Some x \<longrightarrow> order_id x = i \<and> (i \<in> book_ids b \<longleftrightarrow> resting_status (order_status x)))"

definition om_inv :: "('m \<Rightarrow> bool) \<Rightarrow> ('m \<Rightarrow> book) \<Rightarrow> 'm OrderManager \<Rightarrow> bool" where
  "om_inv ok view om \<longleftrightarrow> ok (om_matcher om) \<and> om_link (view (om_matcher om)) om \<and>
     dom (om_orders om) = om_allKnownOrderIds om"

definition om_spec :: "('m \<Rightarrow> book) \<Rightarrow> 'm OrderManager \<Rightarrow> SpecManager" where
  "om_spec view om = \<lparr>sm_book = view (om_matcher om), sm_orders = om_orders om\<rparr>"

lemma om_levels_put [simp]:
  "om_levels (om_put_levels s l om) t = (if t = s then l else om_levels om t)"
  "om_matcher (om_put_levels s l om) = om_matcher om"
  "om_orders (om_put_levels s l om) = om_orders om"
  "om_activeOrderIds (om_put_levels s l om) = om_activeOrderIds om"
  "om_allKnownOrderIds (om_put_levels s l om) = om_allKnownOrderIds om"
  by (cases s; cases t; simp)+

lemma om_levels_more [simp]:
  "om_levels (om\<lparr>om_matcher := m\<rparr>) t = om_levels om t"
  "om_levels (om\<lparr>om_orders := f\<rparr>) t = om_levels om t"
  "om_levels (om\<lparr>om_activeOrderIds := A\<rparr>) t = om_levels om t"
  "om_levels (om\<lparr>om_allKnownOrderIds := A\<rparr>) t = om_levels om t"
  by (cases t; simp)+

lemma om_untrack_sel [simp]:
  "om_matcher (om_untrackResting i om) = om_matcher om"
  "om_orders (om_untrackResting i om) = om_orders om"
  "om_activeOrderIds (om_untrackResting i om) = om_activeOrderIds om"
  "om_allKnownOrderIds (om_untrackResting i om) = om_allKnownOrderIds om"
  by (simp_all add: om_untrackResting_def Let_def split: prod.splits)

lemma om_track_sel [simp]:
  "om_matcher (om_trackResting ord om) = om_matcher om"
  "om_orders (om_trackResting ord om) = om_orders om"
  "om_activeOrderIds (om_trackResting ord om) = om_activeOrderIds om"
  "om_allKnownOrderIds (om_trackResting ord om) = om_allKnownOrderIds om"
  by (simp_all add: om_trackResting_def Let_def)

subsection \<open>Shadow queues\<close>

lemma shadow_push:
  assumes "shadow_ok l s q"
  shows "shadow_ok (omap_set (order_price ord) (omap_at [] (order_price ord) l @ [order_id ord]) l) s (enqueue s ord q)"
proof -
  have "map (\<lambda>r. (order_price r, order_id r)) (enqueue s ord q) =
      enqueue_at s (order_price ord) (order_id ord) (map (\<lambda>r. (order_price r, order_id r)) q)"
    by (simp add: enqueue_def enqueue_at_def takeWhile_map dropWhile_map o_def)
  with assms flat_push [of l s "order_price ord" "order_id ord"] show ?thesis
    by (auto simp: shadow_ok_def no_empty_level_set)
qed

lemma om_track_shadow:
  assumes "\<forall>s. shadow_ok (om_levels om s) s (b s)"
  shows "\<forall>s. shadow_ok (om_levels (om_trackResting ord om) s) s (spec_rest b ord s)"
  using assms shadow_push by (auto simp: om_trackResting_def Let_def spec_rest_def)

lemma om_eraseFrom_cases:
  assumes "omap_ok l"
  shows "(\<exists>p ids. map_of l p = Some ids \<and> i \<in> set ids \<and> om_eraseFrom i l =
      (True, if remove1 i ids = [] then omap_erase p l else omap_set p (remove1 i ids) l)) \<or>
    (\<forall>e\<in>set l. i \<notin> set (snd e)) \<and> om_eraseFrom i l = (False, l)"
  using assms
proof (induction l)
  case (Cons e l)
  obtain q js where e: "e = (q, js)" by (cases e)
  have lt: "\<forall>x\<in>set l. q < fst x" using Cons.prems by (auto simp: e)
  show ?case
  proof (cases "i \<in> set js")
    case True
    have "omap_erase q l = l" using lt by (auto simp: omap_erase_def intro!: filter_True)
    with True show ?thesis by (auto simp: e Let_def omap_erase_def)
  next
    case False
    from Cons consider p ids where "map_of l p = Some ids" "i \<in> set ids" "om_eraseFrom i l =
        (True, if remove1 i ids = [] then omap_erase p l else omap_set p (remove1 i ids) l)"
      | "\<forall>e\<in>set l. i \<notin> set (snd e)" "om_eraseFrom i l = (False, l)" by auto
    then show ?thesis
    proof cases
      case (1 p ids)
      then have "q < p" using bspec [OF lt map_of_SomeD] by simp
      with 1 False show ?thesis by (auto simp: e omap_erase_def intro!: exI [of _ p])
    next
      case 2
      with False show ?thesis by (auto simp: e)
    qed
  qed
qed simp

lemma shadow_erase:
  assumes "shadow_ok l s q" "distinct (map order_id q)"
  shows "shadow_ok (snd (om_eraseFrom i l)) s (filter (\<lambda>r. order_id r \<noteq> i) q)"
    and "fst (om_eraseFrom i l) \<longleftrightarrow> i \<in> order_id ` set q"
proof -
  from assms(1) have ok: "omap_ok l" "no_empty_level l" and fl: "flat s l = map (\<lambda>r. (order_price r, order_id r)) q"
    by (auto simp: shadow_ok_def)
  have dist: "distinct (map snd (flat s l))" using assms(2) by (simp add: fl o_def)
  have ids: "order_id ` set q = snd ` set (flat s l)" by (simp add: fl image_image)
  have flt: "map (\<lambda>r. (order_price r, order_id r)) (filter (\<lambda>r. order_id r \<noteq> i) q) = filter (\<lambda>e. snd e \<noteq> i) (flat s l)"
    by (simp add: fl filter_map o_def)
  have "shadow_ok (snd (om_eraseFrom i l)) s (filter (\<lambda>r. order_id r \<noteq> i) q) \<and>
    (fst (om_eraseFrom i l) \<longleftrightarrow> i \<in> snd ` set (flat s l))"
    using om_eraseFrom_cases [OF ok(1), of i]
  proof (elim disjE exE conjE)
    assume none: "\<forall>e\<in>set l. i \<notin> set (snd e)" and eq: "om_eraseFrom i l = (False, l)"
    have "i \<notin> snd ` set (flat s l)" using none by (force simp: in_flat_iff)
    moreover from this have "filter (\<lambda>e. snd e \<noteq> i) (flat s l) = flat s l" by (force intro!: filter_True)
    ultimately show ?thesis using ok by (simp add: eq shadow_ok_def flt)
  next
    fix p ids
    assume lv: "map_of l p = Some ids" and i: "i \<in> set ids"
      and eq: "om_eraseFrom i l = (True, if remove1 i ids = [] then omap_erase p l else omap_set p (remove1 i ids) l)"
    obtain A B where AB: "flat s l = A @ map (Pair p) ids @ B" "\<And>ys. flat s (omap_set p ys l) = A @ map (Pair p) ys @ B"
      "flat s (omap_erase p l) = A @ B"
      using flat_split_found [OF ok(1) lv, where s = s] by metis
    have "(p, i) \<in> set (map (Pair p) ids)" using i by simp
    from distinct_map_around [OF dist [unfolded AB(1)] this]
    have F: "filter (\<lambda>e. snd e \<noteq> i) A = A" "filter (\<lambda>e. snd e \<noteq> i) B = B" by (auto intro!: filter_True)
    have "distinct ids" using dist by (simp add: AB(1) o_def)
    then have "remove1 i ids = filter (\<lambda>x. x \<noteq> i) ids" by (simp add: distinct_remove1_removeAll removeAll_filter_not_eq) metis
    then have "flat s (snd (om_eraseFrom i l)) = filter (\<lambda>e. snd e \<noteq> i) (flat s l)"
      by (simp add: eq AB F filter_map o_def)
    moreover have "omap_ok (snd (om_eraseFrom i l))" "no_empty_level (snd (om_eraseFrom i l))"
      using ok by (auto simp: eq no_empty_level_set no_empty_level_erase)
    moreover have "i \<in> snd ` set (flat s l)" using i by (force simp: AB(1))
    ultimately show ?thesis by (simp add: eq shadow_ok_def flt)
  qed
  then show "shadow_ok (snd (om_eraseFrom i l)) s (filter (\<lambda>r. order_id r \<noteq> i) q)"
    "fst (om_eraseFrom i l) \<longleftrightarrow> i \<in> order_id ` set q" by (simp_all add: ids)
qed

lemma book_ok_distinct: "book_ok b \<Longrightarrow> distinct (map order_id (b s))"
  by (simp add: book_ok_queue [unfolded queue_ok_def])

lemma om_untrack_shadow:
  assumes "\<forall>s. shadow_ok (om_levels om s) s (b s)" "book_ok b"
  shows "\<forall>s. shadow_ok (om_levels (om_untrackResting i om) s) s (spec_cancel b i s)"
proof -
  note bid = shadow_erase [OF assms(1) [rule_format, of Buy] book_ok_distinct [OF assms(2)], of i]
  note ask = shadow_erase [OF assms(1) [rule_format, of Sell] book_ok_distinct [OF assms(2)], of i]
  show ?thesis
  proof (cases "i \<in> order_id ` set (b Buy)")
    case True
    then have "filter (\<lambda>r. order_id r \<noteq> i) (b Sell) = b Sell"
      using assms(2) by (fastforce simp: book_ok_def intro!: filter_True)
    with True bid assms(1) [rule_format, of Sell] show ?thesis
      by (intro allI, case_tac s) (auto simp: om_untrackResting_def spec_cancel_def Let_def split: prod.splits)
  next
    case False
    with bid ask show ?thesis
      by (intro allI, case_tac s) (auto simp: om_untrackResting_def spec_cancel_def Let_def split: prod.splits)
  qed
qed

lemma shadow_best:
  assumes "shadow_ok l s (r # q)"
  obtains ids where "best_level s l = Some (order_price r, order_id r # ids)"
proof -
  from assms have ok: "omap_ok l" "no_empty_level l"
    and fl: "flat s l = (order_price r, order_id r) # map (\<lambda>r. (order_price r, order_id r)) q"
    by (auto simp: shadow_ok_def)
  have "l \<noteq> []" using fl by auto
  then obtain p ids where bl: "best_level s l = Some (p, ids)" by (metis best_level_None not_None_eq surj_pair)
  obtain B where B: "flat s l = map (Pair p) ids @ B" using best_level_flat [OF ok(1) bl] by metis
  have "ids \<noteq> []" using map_of_SomeD [OF best_level_found [OF ok(1) bl]] ok(2) by (fastforce simp: no_empty_level_def)
  with B fl bl show ?thesis by (cases ids) (auto intro: that)
qed

lemma shadow_Nil: "shadow_ok l s [] \<Longrightarrow> l = []"
  using flat_eq_Nil by (auto simp: shadow_ok_def)

lemma om_wouldCross_iff:
  assumes "\<forall>s. shadow_ok (om_levels om s) s (b s)" "book_ok b" "s = order_side ord"
  shows "om_wouldCross om ord \<longleftrightarrow> (\<exists>r\<in>set (b (opposite s)). crosses s (order_price ord) (order_price r))"
proof (cases "b (opposite s)")
  case Nil
  then have "om_levels om (opposite s) = []" using assms(1) by (metis shadow_Nil)
  then show ?thesis using Nil assms(3) by (simp add: om_wouldCross_def)
next
  case (Cons r q)
  obtain ids where bl: "best_level (opposite s) (om_levels om (opposite s)) = Some (order_price r, order_id r # ids)"
    using shadow_best assms(1) Cons by metis
  then have "om_wouldCross om ord \<longleftrightarrow> crosses s (order_price ord) (order_price r)"
    using assms(3) by (cases s) (auto simp: om_wouldCross_def best_level_def hd_rev [symmetric] split: list.splits)
  moreover have "\<not> crosses s (order_price ord) (order_price x)"
    if "\<not> crosses s (order_price ord) (order_price r)" "x \<in> set (b (opposite s))" for x
    using queue_not_crossed [OF book_ok_queue [OF assms(2)]] that Cons by fastforce
  ultimately show ?thesis using Cons by auto
qed

subsection \<open>Bookkeeping steps\<close>

lemma om_untrack_levels [simp]:
  "om_levels (om_untrackResting i (om\<lparr>om_matcher := m\<rparr>)) t = om_levels (om_untrackResting i om) t"
  "om_levels (om_untrackResting i (om\<lparr>om_orders := f\<rparr>)) t = om_levels (om_untrackResting i om) t"
  "om_levels (om_untrackResting i (om\<lparr>om_activeOrderIds := A\<rparr>)) t = om_levels (om_untrackResting i om) t"
  by (cases t; simp add: om_untrackResting_def Let_def split: prod.splits)+

lemma om_linkD:
  assumes "om_link b om"
  shows "\<forall>s. shadow_ok (om_levels om s) s (b s)" "om_activeOrderIds om = book_ids b"
    "dom (om_orders om) \<subseteq> om_allKnownOrderIds om"
    "r \<in> set (b s) \<Longrightarrow> \<exists>x. om_orders om (order_id r) = Some x \<and> same_order x r"
    "r \<in> set (b s) \<Longrightarrow> \<not> cannot_rest r \<and> order_price r \<noteq> 0"
    "om_orders om i = Some x \<Longrightarrow> order_id x = i \<and> (i \<in> book_ids b \<longleftrightarrow> resting_status (order_status x))"
  using assms unfolding om_link_def by blast+

lemma same_order_sel:
  assumes "same_order x r"
  shows "order_id x = order_id r" "order_side x = order_side r" "order_price x = order_price r"
    "order_quantity x = order_quantity r" "order_accountId x = order_accountId r"
    "order_type x = order_type r" "order_tif x = order_tif r"
  using assms by (cases x; cases r; simp add: same_order_def)+

lemma same_order_refl [simp]: "same_order x x"
  by (simp add: same_order_def)

lemma om_snapshot_resting:
  assumes "om_link b om" "i \<in> book_ids b"
  obtains s r x where "r \<in> set (b s)" "order_id r = i" "om_orders om i = Some x" "same_order x r"
  using assms om_linkD(4) [OF assms(1)] by (fastforce simp: book_ids_def)

lemma om_link_drop:
  assumes "om_link b om" "book_ok b"
    and "\<And>t. om_levels om' t = om_levels (om_untrackResting i om) t"
    and "om_orders om' = (om_orders om)(i \<mapsto> x)" "om_activeOrderIds om' = om_activeOrderIds om - {i}"
    and "om_allKnownOrderIds om' = om_allKnownOrderIds om"
    and "order_id x = i" "\<not> resting_status (order_status x)" "i \<in> om_allKnownOrderIds om"
  shows "om_link (spec_cancel b i) om'"
  unfolding om_link_def
proof (intro conjI)
  show "\<forall>s. shadow_ok (om_levels om' s) s (spec_cancel b i s)"
    using om_untrack_shadow [OF om_linkD(1) [OF assms(1)] assms(2)] by (simp add: assms(3))
  show "\<forall>s. \<forall>r\<in>set (spec_cancel b i s). \<exists>x. om_orders om' (order_id r) = Some x \<and> same_order x r"
    using om_linkD(4) [OF assms(1)] by (auto simp: spec_cancel_def assms(4))
  show "\<forall>s. \<forall>r\<in>set (spec_cancel b i s). \<not> cannot_rest r \<and> order_price r \<noteq> 0"
    using om_linkD(5) [OF assms(1)] by (auto simp: spec_cancel_def)
  show "om_activeOrderIds om' = book_ids (spec_cancel b i)"
    by (simp add: assms(5) om_linkD(2) [OF assms(1)] book_ids_cancel)
  show "dom (om_orders om') \<subseteq> om_allKnownOrderIds om'"
    using om_linkD(3) [OF assms(1)] assms(9) by (auto simp: assms(4,6))
  show "\<forall>j y. om_orders om' j = Some y \<longrightarrow>
      order_id y = j \<and> (j \<in> book_ids (spec_cancel b i) \<longleftrightarrow> resting_status (order_status y))"
    using om_linkD(6) [OF assms(1)] assms(7,8) by (auto simp: assms(4) book_ids_cancel)
qed

lemma book_id_unique:
  assumes "book_ok b" "r \<in> set (b s)" "x \<in> set (b t)" "order_id x = order_id r"
  shows "t = s \<and> x = r"
proof -
  have "t = s"
    using assms imageI [OF assms(2), of order_id] imageI [OF assms(3), of order_id]
    by (cases s; cases t) (auto simp: book_ok_def)
  moreover from this have "x = r"
    using book_ok_distinct [OF assms(1), of s] assms(2-4) by (auto simp: distinct_map inj_on_def)
  ultimately show ?thesis by simp
qed

lemma spec_cancel_head:
  assumes "book_ok b" "b s = r # q"
  shows "spec_cancel b (order_id r) = b(s := q)"
proof
  fix t
  have "order_id x \<noteq> order_id r" if "x \<in> set q" for x
    using that book_ok_distinct [OF assms(1), of s] by (auto simp: assms(2) image_iff)
  moreover have "order_id x \<noteq> order_id r" if "x \<in> set (b t)" "t \<noteq> s" for x
    using book_id_unique [OF assms(1), of r s x t] that assms(2) by auto
  ultimately show "spec_cancel b (order_id r) t = (b(s := q)) t"
    using assms(2) by (auto simp: spec_cancel_def intro!: filter_True)
qed

lemma book_ids_reduce:
  assumes "b s = r # q"
  shows "book_ids (b(s := r\<lparr>order_quantity := c\<rparr> # q)) = book_ids b"
  using assms by (cases s) (auto simp: book_ids_two)

lemma om_link_reduce:
  assumes "om_link b om" "book_ok b" "b s = r # q" "om_orders om (order_id r) = Some x" "same_order x r"
  shows "om_link (b(s := r\<lparr>order_quantity := c\<rparr> # q))
    (om\<lparr>om_orders := (om_orders om)(order_id r \<mapsto> x\<lparr>order_quantity := c, order_status := PartiallyFilled\<rparr>)\<rparr>)"
    (is "om_link ?b ?om")
  unfolding om_link_def
proof (intro conjI)
  have ids: "book_ids ?b = book_ids b" using assms(3) by (rule book_ids_reduce)
  show "\<forall>t. shadow_ok (om_levels ?om t) t (?b t)"
    using om_linkD(1) [OF assms(1)] by (auto simp: shadow_ok_def assms(3))
  show "\<forall>t. \<forall>y\<in>set (?b t). \<exists>x. om_orders ?om (order_id y) = Some x \<and> same_order x y"
  proof (intro allI ballI)
    fix t y assume y: "y \<in> set (?b t)"
    show "\<exists>x. om_orders ?om (order_id y) = Some x \<and> same_order x y"
    proof (cases "order_id y = order_id r")
      case False
      then have "y \<in> set (b t)" using y by (auto simp: assms(3) split: if_splits)
      with False om_linkD(4) [OF assms(1)] show ?thesis by auto
    next
      case True
      have "y = r\<lparr>order_quantity := c\<rparr>"
      proof (rule ccontr)
        assume "y \<noteq> r\<lparr>order_quantity := c\<rparr>"
        then have "y \<in> set (b t)" "t = s \<longrightarrow> y \<in> set q" using y by (auto simp: assms(3) split: if_splits)
        with book_id_unique [OF assms(2), of r s y t] True book_ok_distinct [OF assms(2), of s] show False
          by (auto simp: assms(3))
      qed
      with assms(5) show ?thesis by (cases x; cases r) (simp add: same_order_def)
    qed
  qed
  show "\<forall>t. \<forall>y\<in>set (?b t). \<not> cannot_rest y \<and> order_price y \<noteq> 0"
    using om_linkD(5) [OF assms(1)] om_linkD(5) [OF assms(1), where s = s, unfolded assms(3)]
    by (auto simp: cannot_rest_def)
  show "om_activeOrderIds ?om = book_ids ?b" by (simp add: ids om_linkD(2) [OF assms(1)])
  show "dom (om_orders ?om) \<subseteq> om_allKnownOrderIds ?om"
    using om_linkD(3) [OF assms(1)] assms(4) by auto
  have "order_id r \<in> book_ids b" using in_book_ids [of r b s] assms(3) by simp
  then show "\<forall>j y. om_orders ?om j = Some y \<longrightarrow>
      order_id y = j \<and> (j \<in> book_ids ?b \<longleftrightarrow> resting_status (order_status y))"
    using om_linkD(6) [OF assms(1)] same_order_sel(1) [OF assms(5)] by (auto simp: ids resting_status_def)
qed

text \<open>Booking one trade with the head of a side keeps manager and book together.\<close>

lemma om_applyTrade_link:
  assumes "om_link b om" "book_ok b" "b s = r # q" "trade_resting t = order_id r"
  shows "om_link (b(s := if order_quantity r - trade_quantity t = 0 then q
           else r\<lparr>order_quantity := order_quantity r - trade_quantity t\<rparr> # q)) (om_applyTrade t om)"
    and "om_matcher (om_applyTrade t om) = om_matcher om"
    and "om_allKnownOrderIds (om_applyTrade t om) = om_allKnownOrderIds om"
    and "om_orders (om_applyTrade t om) = book_trade t (om_orders om)"
proof -
  obtain x where x: "om_orders om (order_id r) = Some x" "same_order x r"
    using om_linkD(4) [OF assms(1), of r s] assms(3) by auto
  note sel = same_order_sel [OF x(2)]
  show "om_matcher (om_applyTrade t om) = om_matcher om"
    "om_allKnownOrderIds (om_applyTrade t om) = om_allKnownOrderIds om"
    "om_orders (om_applyTrade t om) = book_trade t (om_orders om)"
    using x(1) by (simp_all add: om_applyTrade_def book_trade_def Let_def assms(4))
  show "om_link (b(s := if order_quantity r - trade_quantity t = 0 then q
           else r\<lparr>order_quantity := order_quantity r - trade_quantity t\<rparr> # q)) (om_applyTrade t om)"
  proof (cases "order_quantity r - trade_quantity t = 0")
    case True
    have "om_link (spec_cancel b (order_id r)) (om_applyTrade t om)"
      by (rule om_link_drop [OF assms(1,2), where x = "x\<lparr>order_quantity := 0, order_status := Filled\<rparr>"])
        (use x(1) True sel om_linkD(3) [OF assms(1)] in
          \<open>auto simp: om_applyTrade_def Let_def assms(4) resting_status_def\<close>)
    with True show ?thesis by (simp add: spec_cancel_head [OF assms(2,3)])
  next
    case False
    with om_link_reduce [OF assms(1-3) x, of "order_quantity r - trade_quantity t"] x(1) sel(4) show ?thesis
      by (simp add: om_applyTrade_def Let_def assms(4))
  qed
qed

lemma dom_book_trade [simp]: "dom (book_trade t f) = dom f"
  by (auto simp: book_trade_def Let_def split: option.splits)

lemma dom_book_trades [simp]: "dom (fold book_trade ts f) = dom f"
  by (induction ts arbitrary: f) simp_all

subsection \<open>Sweeping with self-trade prevention\<close>

lemma stp_sweep_simps:
  "stp_sweep s p i acc q [] = ([], [], q)"
  "stp_sweep s p i acc q (r # rs) =
     (if q = 0 \<or> collides acc r \<or> \<not> crosses s p (order_price r) then ([], r # rs, q)
      else
        (let t = min q (order_quantity r);
             tr = \<lparr>trade_incoming = i, trade_resting = order_id r, trade_price = order_price r, trade_quantity = t\<rparr>
         in if order_quantity r - t = 0 then
              (case stp_sweep s p i acc (q - t) rs of (ts, rs', q') \<Rightarrow> (tr # ts, rs', q'))
            else ([tr], r\<lparr>order_quantity := order_quantity r - t\<rparr> # rs, q - t)))"
  by (auto simp: stp_sweep_def Let_def split: prod.splits)

lemma stp_sweep_parts:
  assumes "stp_sweep s p i acc q rs = (ts, rs', left)"
  obtains rs1 where "sweep s p i q (takeWhile (\<lambda>r. \<not> collides acc r) rs) = (ts, rs1, left)"
    "rs' = rs1 @ dropWhile (\<lambda>r. \<not> collides acc r) rs"
  using assms by (auto simp: stp_sweep_def split: prod.splits)

lemma stp_sweep_conserves:
  assumes "stp_sweep s p i acc q rs = (ts, rs', left)"
  shows "unat q = (\<Sum>t\<leftarrow>ts. unat (trade_quantity t)) + unat left"
  by (rule stp_sweep_parts [OF assms]) (rule sweep_conserves)

lemma stp_sweep_trades:
  assumes "stp_sweep s p i acc q rs = (ts, rs', left)" "\<forall>r\<in>set rs. order_quantity r \<noteq> 0" "t \<in> set ts"
  shows "trade_incoming t = i \<and> crosses s p (trade_price t) \<and> trade_quantity t \<noteq> 0 \<and>
    (\<exists>r\<in>set rs. order_id r = trade_resting t \<and> order_price r = trade_price t \<and> \<not> collides acc r)"
proof -
  obtain rs1 where sw: "sweep s p i q (takeWhile (\<lambda>r. \<not> collides acc r) rs) = (ts, rs1, left)"
    using stp_sweep_parts [OF assms(1)] by metis
  have "\<forall>r\<in>set (takeWhile (\<lambda>r. \<not> collides acc r) rs). r \<in> set rs \<and> \<not> collides acc r"
    by (auto dest: set_takeWhileD)
  with sweep_trades [OF sw _ assms(3)] assms(2) show ?thesis by blast
qed

lemma stp_sweep_prefix:
  assumes "stp_sweep s p i acc q rs = (ts, rs', left)"
  shows "map trade_resting ts = take (length ts) (map order_id rs)"
proof -
  obtain rs1 where sw: "sweep s p i q (takeWhile (\<lambda>r. \<not> collides acc r) rs) = (ts, rs1, left)"
    using stp_sweep_parts [OF assms(1)] by metis
  let ?P = "\<lambda>r. \<not> collides acc r"
  have "map order_id rs = map order_id (takeWhile ?P rs) @ map order_id (dropWhile ?P rs)"
    by (metis map_append takeWhile_dropWhile_id)
  with sweep_prefix [OF sw] show ?thesis by simp
qed

text \<open>The sweep ends for one of three reasons.\<close>

lemma stp_sweep_stops:
  assumes "stp_sweep s p i acc q rs = (ts, rs', left)" "left \<noteq> 0"
  shows "rs' = [] \<or> \<not> crosses s p (order_price (hd rs')) \<or> collides acc (hd rs')"
proof -
  let ?P = "\<lambda>r. \<not> collides acc r"
  obtain rs1 where sw: "sweep s p i q (takeWhile ?P rs) = (ts, rs1, left)" "rs' = rs1 @ dropWhile ?P rs"
    using stp_sweep_parts [OF assms(1)] by metis
  show ?thesis
  proof (cases "rs1 = []")
    case True
    then show ?thesis using sw(2) hd_dropWhile [of ?P rs] by auto
  next
    case False
    with sweep_stops [OF sw(1) assms(2)] sw(2) show ?thesis by simp
  qed
qed

lemma sweep_zero [simp]: "sweep s p i 0 rs = ([], rs, 0)"
  by (cases rs) auto

text \<open>A probe no larger than the front order trades once, with it, and leaves nothing to rest.\<close>

lemma spec_match_probe:
  assumes "b (opposite s) = r # q" "s = order_side inc" "crosses s (order_price inc) (order_price r)"
    "c \<noteq> 0" "c \<le> order_quantity r"
  shows "spec_match b (inc\<lparr>order_quantity := c\<rparr>) =
    ([\<lparr>trade_incoming = order_id inc, trade_resting = order_id r, trade_price = order_price r, trade_quantity = c\<rparr>],
     b(opposite s := if order_quantity r - c = 0 then q else r\<lparr>order_quantity := order_quantity r - c\<rparr> # q))"
  using assms by (simp add: spec_match_def spec_cross_def Let_def min_absorb1)

lemma spec_match_no_cross:
  assumes "\<forall>r\<in>set (b (opposite (order_side ord))). \<not> crosses (order_side ord) (order_price ord) (order_price r)"
    "order_quantity ord \<noteq> 0"
  shows "spec_match b ord = ([], spec_rest b ord)"
  using assms by (cases "b (opposite (order_side ord))") (auto simp: spec_match_def spec_cross_def Let_def fun_upd_idem)

lemma book_ids_rest [book_simps]: "book_ids (spec_rest b ord) = insert (order_id ord) (book_ids b)"
  by (cases "order_side ord") (auto simp: spec_rest_def book_ids_two set_enqueue)

lemma om_link_rest:
  assumes "om_link b om" "order_id ord \<notin> book_ids b"
    and "\<And>t. om_levels om' t = om_levels (om_trackResting ord om) t"
    and "om_orders om' = (om_orders om)(order_id ord \<mapsto> x)"
    and "om_activeOrderIds om' = insert (order_id ord) (om_activeOrderIds om)"
    and "om_allKnownOrderIds om' = om_allKnownOrderIds om"
    and "same_order x ord" "resting_status (order_status x)" "order_id ord \<in> om_allKnownOrderIds om"
    and "\<not> cannot_rest ord" "order_price ord \<noteq> 0"
  shows "om_link (spec_rest b ord) om'"
  unfolding om_link_def
proof (intro conjI)
  have in_rest: "r \<in> set (spec_rest b ord t) \<longleftrightarrow> r \<in> set (b t) \<or> t = order_side ord \<and> r = ord" for r t
    by (auto simp: spec_rest_def set_enqueue)
  show "\<forall>s. shadow_ok (om_levels om' s) s (spec_rest b ord s)"
    using om_track_shadow [OF om_linkD(1) [OF assms(1)]] by (simp add: assms(3))
  have "order_id r \<noteq> order_id ord" if "r \<in> set (b t)" for r t using in_book_ids [where b = b, OF that] assms(2) by auto
  then show "\<forall>s. \<forall>r\<in>set (spec_rest b ord s). \<exists>x. om_orders om' (order_id r) = Some x \<and> same_order x r"
    using om_linkD(4) [OF assms(1)] assms(7) by (fastforce simp: in_rest assms(4))
  show "\<forall>s. \<forall>r\<in>set (spec_rest b ord s). \<not> cannot_rest r \<and> order_price r \<noteq> 0"
    using om_linkD(5) [OF assms(1)] assms(10,11) by (auto simp: in_rest)
  show "om_activeOrderIds om' = book_ids (spec_rest b ord)"
    by (simp add: assms(5) om_linkD(2) [OF assms(1)] book_ids_rest)
  show "dom (om_orders om') \<subseteq> om_allKnownOrderIds om'"
    using om_linkD(3) [OF assms(1)] assms(9) by (auto simp: assms(4,6))
  show "\<forall>j y. om_orders om' j = Some y \<longrightarrow>
      order_id y = j \<and> (j \<in> book_ids (spec_rest b ord) \<longleftrightarrow> resting_status (order_status y))"
    using om_linkD(6) [OF assms(1)] assms(8) same_order_sel(1) [OF assms(7)] by (auto simp: assms(4) book_ids_rest)
qed

lemma om_link_note:
  assumes "om_link b om" "i \<notin> book_ids b" "order_id x = i" "\<not> resting_status (order_status x)"
    "i \<in> om_allKnownOrderIds om"
  shows "om_link b (om\<lparr>om_orders := (om_orders om)(i \<mapsto> x)\<rparr>)"
proof -
  have "order_id r \<noteq> i" if "r \<in> set (b t)" for r t using in_book_ids [where b = b, OF that] assms(2) by auto
  then show ?thesis using assms unfolding om_link_def by auto
qed

subsection \<open>Rebuilding a level\<close>

lemma omap_set_same: "omap_ok l \<Longrightarrow> map_of l p = Some v \<Longrightarrow> omap_set p v l = l"
  by (metis omap_split_found omap_set_present)

text \<open>The ids recorded for a price are one stretch of the queue.\<close>

lemma shadow_level:
  assumes "shadow_ok l s q" "map_of l p = Some ids"
  obtains A L B where "q = A @ L @ B" "map order_id L = ids" "\<forall>r\<in>set L. order_price r = p"
    "\<forall>r\<in>set A. \<not> ahead s p (order_price r)" "\<forall>r\<in>set B. \<not> ahead s (order_price r) p"
proof -
  let ?f = "\<lambda>r. (order_price r, order_id r)"
  from assms(1) have ok: "omap_ok l" and fl: "flat s l = map ?f q" by (auto simp: shadow_ok_def)
  obtain A' B' where AB: "flat s l = A' @ map (Pair p) ids @ B'"
    "\<forall>e\<in>set A'. \<not> ahead s p (fst e)" "\<forall>e\<in>set B'. \<not> ahead s (fst e) p"
    using flat_split_found [OF ok assms(2), where s = s] by metis
  from AB(1) fl obtain A L B where q: "q = A @ L @ B" "map ?f A = A'" "map ?f L = map (Pair p) ids" "map ?f B = B'"
    by (auto simp: map_eq_append_conv append_eq_map_conv)
  have "map snd (map ?f L) = ids" "map fst (map ?f L) = map (\<lambda>_. p) ids" unfolding q(3) by (simp_all add: o_def)
  then have "map order_id L = ids" "set (map order_price L) \<subseteq> {p}" by (auto simp: o_def)
  then show ?thesis using q AB(2,3) by (intro that [of A L B]) auto
qed

lemma enqueue_between:
  assumes "\<forall>r\<in>set A. ahead s (order_price r) (order_price x)" "\<forall>r\<in>set B. \<not> ahead s (order_price r) (order_price x)"
  shows "enqueue s x (A @ B) = A @ x # B"
  unfolding enqueue_def using takeWhile_append_all [OF assms] dropWhile_append_all [OF assms] by simp

text \<open>One order of the book amended, every other one left in its place.\<close>

definition amended :: "OrderId \<Rightarrow> Order \<Rightarrow> book \<Rightarrow> book \<Rightarrow> bool" where
  "amended i ord b b' \<longleftrightarrow>
     (\<forall>t. list_all2 (\<lambda>r' r. if order_id r = i then r' = ord else same_order r' r) (b' t) (b t))"

lemma amended_map:
  assumes "amended i ord b b'"
    "\<And>r' r. r \<in> set (b t) \<Longrightarrow> (if order_id r = i then r' = ord else same_order r' r) \<Longrightarrow> f r' = f r"
  shows "map f (b' t) = map f (b t)"
proof -
  have "list_all2 (\<lambda>r' r. f r' = f r) (b' t) (b t)"
    using assms(1) [unfolded amended_def, rule_format, of t] by (rule list.rel_mono_strong) (use assms(2) in blast)
  then show ?thesis by (simp add: list_all2_map1 list_all2_map2 flip: list.rel_eq)
qed

lemma om_link_amend:
  assumes "om_link b om" "amended i ord b b'" "i \<in> book_ids b"
    and "order_id ord = i" "\<not> cannot_rest ord" "order_price ord \<noteq> 0" "resting_status (order_status ord)"
    and "\<And>t r. r \<in> set (b t) \<Longrightarrow> order_id r = i \<Longrightarrow> order_price r = order_price ord"
    and "\<And>t. om_levels om' t = om_levels om t" "om_orders om' = (om_orders om)(i \<mapsto> ord)"
    and "om_activeOrderIds om' = om_activeOrderIds om" "om_allKnownOrderIds om' = om_allKnownOrderIds om"
  shows "om_link b' om'"
  unfolding om_link_def
proof (intro conjI)
  have ids: "map order_id (b' t) = map order_id (b t)" for t
    by (rule amended_map [OF assms(2)]) (use assms(4) same_order_sel(1) in \<open>auto split: if_splits\<close>)
  have bids: "book_ids b' = book_ids b" unfolding book_ids_def using ids by (metis list.set_map)
  have "map (\<lambda>r. (order_price r, order_id r)) (b' t) = map (\<lambda>r. (order_price r, order_id r)) (b t)" for t
    by (rule amended_map [OF assms(2)]) (use assms(4,8) same_order_sel(1,3) in \<open>auto split: if_splits\<close>)
  then show "\<forall>s. shadow_ok (om_levels om' s) s (b' s)"
    using om_linkD(1) [OF assms(1)] by (simp add: shadow_ok_def assms(9))
  have each: "r' = ord \<or> order_id r' \<noteq> i \<and> (\<exists>r\<in>set (b t). same_order r' r)" if "r' \<in> set (b' t)" for r' t
  proof -
    note mem = that
    obtain r where "r \<in> set (b t)" "if order_id r = i then r' = ord else same_order r' r"
      using list_all2_pick [OF assms(2) [unfolded amended_def, rule_format, of t] mem] by blast
    then show ?thesis using same_order_sel(1) by (auto split: if_splits)
  qed
  show "\<forall>s. \<forall>r\<in>set (b' s). \<exists>x. om_orders om' (order_id r) = Some x \<and> same_order x r"
  proof (intro allI ballI)
    fix s r' assume "r' \<in> set (b' s)"
    then consider "r' = ord" | r where "order_id r' \<noteq> i" "r \<in> set (b s)" "same_order r' r" using each by blast
    then show "\<exists>x. om_orders om' (order_id r') = Some x \<and> same_order x r'"
    proof cases
      case 1
      then show ?thesis using assms(4) by (simp add: assms(10))
    next
      case 2
      with om_linkD(4) [OF assms(1) 2(2)] same_order_sel(1) [OF 2(3)] show ?thesis
        by (auto simp: assms(10) same_order_def)
    qed
  qed
  have same_rest: "cannot_rest r' \<longleftrightarrow> cannot_rest r" if "same_order r' r" for r' r
    using same_order_sel(6,7) [OF that] by (simp add: cannot_rest_def)
  show "\<forall>s. \<forall>r\<in>set (b' s). \<not> cannot_rest r \<and> order_price r \<noteq> 0"
    using each om_linkD(5) [OF assms(1)] assms(5,6) same_rest same_order_sel(3) by (metis (no_types))
  show "om_activeOrderIds om' = book_ids b'" by (simp add: bids assms(11) om_linkD(2) [OF assms(1)])
  obtain x where x: "om_orders om i = Some x" using om_snapshot_resting [OF assms(1,3)] by metis
  then show "dom (om_orders om') \<subseteq> om_allKnownOrderIds om'"
    using om_linkD(3) [OF assms(1)] by (auto simp: assms(10,12))
  show "\<forall>j y. om_orders om' j = Some y \<longrightarrow>
      order_id y = j \<and> (j \<in> book_ids b' \<longleftrightarrow> resting_status (order_status y))"
    using om_linkD(6) [OF assms(1)] assms(3,4,7) by (auto simp: assms(10) bids)
qed

section \<open>The manager over any matcher\<close>

context price_time_matcher
begin

text \<open>One probe of the loop that trades: the front order is hit by the probe and nothing else changes.\<close>

lemma stp_probe:
  fixes om :: "'m OrderManager"
  defines "b \<equiv> abs (om_matcher om)"
  assumes "inv (om_matcher om)" "om_link b om" "s = order_side inc" "b (opposite s) = r # q"
    "order_id inc \<notin> book_ids b" "remaining \<noteq> 0" "\<not> collides (order_accountId inc) r"
    "crosses s (order_price inc) (order_price r)"
    and c: "c = min remaining (order_quantity r)"
    and tr: "tr = \<lparr>trade_incoming = order_id inc, trade_resting = order_id r, trade_price = order_price r, trade_quantity = c\<rparr>"
  obtains om1 where
    "\<And>trades filled. om_stp_loop M inc om trades filled remaining = om_stp_loop M inc om1 (trades @ [tr]) (filled + c) (remaining - c)"
    "inv (om_matcher om1)" "om_link (abs (om_matcher om1)) om1"
    "abs (om_matcher om1) = b(opposite s := if order_quantity r - c = 0 then q else r\<lparr>order_quantity := order_quantity r - c\<rparr> # q)"
    "om_allKnownOrderIds om1 = om_allKnownOrderIds om" "om_orders om1 = book_trade tr (om_orders om)"
    "order_id inc \<notin> book_ids (abs (om_matcher om1))"
proof -
  have ok: "book_ok b" using abs_ok [OF assms(2)] by (simp add: b_def)
  define b1 where "b1 = b(opposite s := if order_quantity r - c = 0 then q else r\<lparr>order_quantity := order_quantity r - c\<rparr> # q)"
  obtain ids where bl: "best_level (opposite s) (om_levels om (opposite s)) = Some (order_price r, order_id r # ids)"
    using om_linkD(1) [OF assms(3)] assms(5) by (metis shadow_best)
  obtain x where x: "om_orders om (order_id r) = Some x" "same_order x r"
    using om_linkD(4) [OF assms(3), of r "opposite s"] assms(5) by auto
  note sel = same_order_sel [OF x(2)]
  have "order_quantity r \<noteq> 0" using book_ok_queue [OF ok, of "opposite s"] assms(5) by (simp add: queue_ok_def)
  then have c': "c \<noteq> 0" "c \<le> order_quantity r" using assms(7) by (auto simp: c min_def)
  have "spec_match b (inc\<lparr>order_quantity := c\<rparr>) = ([tr], b1)"
    using spec_match_probe [where b = b, OF assms(5,4) _ c'] assms(9) by (simp add: tr b1_def)
  then obtain m' where m': "vt_matchOrder M (om_matcher om) (inc\<lparr>order_quantity := c\<rparr>) = Some ([tr], m')" "inv m'" "abs m' = b1"
    using match_law [OF assms(2), of "inc\<lparr>order_quantity := c\<rparr>"] assms(6) by (auto simp: b_def)
  define om1 where "om1 = om_applyTrade tr (om\<lparr>om_matcher := m'\<rparr>)"
  have link0: "om_link b (om\<lparr>om_matcher := m'\<rparr>)" using assms(3) by (simp add: om_link_def)
  note app = om_applyTrade_link [where b = b and s = "opposite s", OF link0 ok assms(5), of tr, folded om1_def]
  have tq: "trade_quantity tr = c" "trade_resting tr = order_id r" by (simp_all add: tr)
  have om1: "om_matcher om1 = m'" "om_link (abs m') om1" "om_allKnownOrderIds om1 = om_allKnownOrderIds om"
    "om_orders om1 = book_trade tr (om_orders om)"
    using app unfolding tq by (simp_all add: m'(3) b1_def)
  have "om_stp_loop M inc om trades filled remaining = om_stp_loop M inc om1 (trades @ [tr]) (filled + c) (remaining - c)"
    for trades filled
    using assms(7-9) bl x(1) sel(4,5) m'(1) assms(4) c
    by (subst om_stp_loop.simps) (auto simp: Let_def om1_def tr collides_def)
  moreover have "order_id inc \<notin> book_ids (abs m')"
    using assms(6) book_ids_reduce [of b "opposite s" r q] assms(5)
      book_ids_cancel [of b "order_id r"] spec_cancel_head [where b = b and s = "opposite s", OF ok assms(5)]
    by (auto simp: m'(3) b1_def)
  ultimately show ?thesis using that [of om1] om1 m'(2,3) by (simp add: b1_def)
qed

lemma stp_stop:
  assumes "om_link (abs (om_matcher om)) om" "s = order_side inc" "abs (om_matcher om) (opposite s) = r # q"
    and "remaining = 0 \<or> collides (order_accountId inc) r \<or> \<not> crosses s (order_price inc) (order_price r)"
  shows "om_stp_loop M inc om trades filled remaining = Some (trades, filled, om)"
proof -
  obtain ids where bl: "best_level (opposite s) (om_levels om (opposite s)) = Some (order_price r, order_id r # ids)"
    using om_linkD(1) [OF assms(1)] assms(3) by (metis shadow_best)
  obtain x where x: "om_orders om (order_id r) = Some x" "same_order x r"
    using om_linkD(4) [OF assms(1), of r "opposite s"] assms(3) by auto
  with assms bl same_order_sel(5) [OF x(2)] show ?thesis
    by (subst om_stp_loop.simps) (auto simp: Let_def collides_def)
qed

lemma stp_loop:
  assumes "inv (om_matcher om)" "om_link (abs (om_matcher om)) om" "s = order_side inc"
    "abs (om_matcher om) (opposite s) = rs" "order_id inc \<notin> book_ids (abs (om_matcher om))"
    "stp_sweep s (order_price inc) (order_id inc) (order_accountId inc) remaining rs = (ts, rs', left)"
  shows "\<exists>om'. om_stp_loop M inc om trades filled remaining = Some (trades @ ts, filled + (remaining - left), om') \<and>
    inv (om_matcher om') \<and> om_link (abs (om_matcher om')) om' \<and>
    abs (om_matcher om') = (abs (om_matcher om))(opposite s := rs') \<and>
    om_allKnownOrderIds om' = om_allKnownOrderIds om \<and> om_orders om' = fold book_trade ts (om_orders om)"
  using assms
proof (induction rs arbitrary: om trades filled remaining ts left)
  case Nil
  then have "om_levels om (opposite s) = []" using om_linkD(1) [OF Nil.prems(2)] by (metis shadow_Nil)
  with Nil.prems show ?case
    by (subst om_stp_loop.simps) (auto simp: stp_sweep_simps Let_def fun_eq_iff)
next
  case (Cons r q)
  show ?case
  proof (cases "remaining = 0 \<or> collides (order_accountId inc) r \<or> \<not> crosses s (order_price inc) (order_price r)")
    case True
    with Cons.prems stp_stop [OF Cons.prems(2-4) True] show ?thesis by (auto simp: stp_sweep_simps Let_def fun_eq_iff)
  next
    case False
    define c where "c = min remaining (order_quantity r)"
    define tr where "tr = \<lparr>trade_incoming = order_id inc, trade_resting = order_id r,
      trade_price = order_price r, trade_quantity = c\<rparr>"
    obtain om1 where step: "\<And>trades filled. om_stp_loop M inc om trades filled remaining =
        om_stp_loop M inc om1 (trades @ [tr]) (filled + c) (remaining - c)" and
      om1: "inv (om_matcher om1)" "om_link (abs (om_matcher om1)) om1"
      "abs (om_matcher om1) = (abs (om_matcher om))(opposite s :=
         if order_quantity r - c = 0 then q else r\<lparr>order_quantity := order_quantity r - c\<rparr> # q)"
      "om_allKnownOrderIds om1 = om_allKnownOrderIds om" "om_orders om1 = book_trade tr (om_orders om)"
      "order_id inc \<notin> book_ids (abs (om_matcher om1))"
      using stp_probe [OF Cons.prems(1-5) _ _ _ c_def tr_def] False by blast
    show ?thesis
    proof (cases "order_quantity r - c = 0")
      case filled: True
      obtain ts' where ts': "stp_sweep s (order_price inc) (order_id inc) (order_accountId inc) (remaining - c) q =
          (ts', rs', left)" "ts = tr # ts'"
        using False filled Cons.prems(6)
        by (auto simp: stp_sweep_simps Let_def c_def tr_def split: prod.splits)
      show ?thesis
        using Cons.IH [OF om1(1,2) Cons.prems(3) _ om1(6) ts'(1), of "trades @ [tr]" "filled + c"] step ts'(2) om1 filled
        by (auto simp del: fun_upd_apply simp: fun_upd_same)
    next
      case part: False
      then have rem: "remaining - c = 0" by (auto simp: c_def min_def split: if_splits)
      have "ts = [tr]" "rs' = r\<lparr>order_quantity := order_quantity r - c\<rparr> # q" "left = 0"
        using False part rem Cons.prems(6) unfolding stp_sweep_simps Let_def c_def [symmetric] tr_def by auto
      moreover have "om_stp_loop M inc om1 (trades @ [tr]) (filled + c) 0 = Some (trades @ [tr], filled + c, om1)"
        by (subst om_stp_loop.simps) (simp add: Let_def)
      moreover have "filled + c = filled + (remaining - 0)" using rem by simp
      ultimately show ?thesis using step rem om1 part by (simp del: fun_upd_apply)
    qed
  qed
qed

lemma om_settle_eq:
  assumes "inv (om_matcher om)" "om_link (abs (om_matcher om)) om" "b = abs (om_matcher om)"
    and "snap = ord\<lparr>order_quantity := left, order_status := final_status (order_quantity ord) left (may_rest b ord left)\<rparr>"
  shows "om_settle M om ord ts (order_quantity ord - left) = do {
      om' \<leftarrow> (if may_rest b ord left then do {
          m' \<leftarrow> vt_addOrder M (om_matcher om) (remainder ord left);
          Some (om_trackResting (remainder ord left)
            (om\<lparr>om_matcher := m', om_activeOrderIds := insert (order_id ord) (om_activeOrderIds om)\<rparr>)) } else Some om);
      Some (\<lparr>mr_trades = ts, mr_accept = accept\<rparr>, om'\<lparr>om_orders := (om_orders om')(order_id ord \<mapsto> snap)\<rparr>) }"
proof -
  have cross: "om_wouldCross om ord \<longleftrightarrow>
      (\<exists>r\<in>set (b (opposite (order_side ord))). crosses (order_side ord) (order_price ord) (order_price r))"
    using om_wouldCross_iff [OF om_linkD(1) [OF assms(2)] abs_ok [OF assms(1)] refl] by (simp add: assms(3))
  have rests: "(order_type ord \<noteq> Market \<and> order_tif ord \<noteq> IOC) \<and> 0 < left \<and> \<not> om_wouldCross om ord \<longleftrightarrow> may_rest b ord left"
    by (auto simp: cross may_rest_def cannot_rest_iff)
  have rem: "ord\<lparr>order_quantity := left, order_status := if 0 < order_quantity ord - left then PartiallyFilled else New\<rparr> =
      remainder ord left" by (auto simp: remainder_def)
  have snap: "ord\<lparr>order_quantity := left, order_status := if left = 0 then Filled
      else if \<not> may_rest b ord left then (if 0 < order_quantity ord - left then Filled else Cancelled)
      else if 0 < order_quantity ord - left then PartiallyFilled else New\<rparr> = snap"
    by (auto simp: assms(4) final_status_def)
  show ?thesis
    unfolding om_settle_def Let_def diff_diff_eq2 add_diff_cancel_left' rests rem snap by (rule refl)
qed

lemma settle:
  assumes "inv (om_matcher om)" "om_link (abs (om_matcher om)) om" "b = abs (om_matcher om)"
    "order_id ord \<notin> book_ids b" "order_id ord \<in> om_allKnownOrderIds om"
    "order_type ord = Limit \<longrightarrow> order_price ord \<noteq> 0"
  shows "\<exists>om'. om_settle M om ord ts (order_quantity ord - left) = Some (\<lparr>mr_trades = ts, mr_accept = accept\<rparr>, om') \<and>
    inv (om_matcher om') \<and> om_link (abs (om_matcher om')) om' \<and>
    abs (om_matcher om') = (if may_rest b ord left then spec_rest b (remainder ord left) else b) \<and>
    om_allKnownOrderIds om' = om_allKnownOrderIds om \<and>
    om_orders om' = (om_orders om)(order_id ord \<mapsto> ord\<lparr>order_quantity := left,
      order_status := final_status (order_quantity ord) left (may_rest b ord left)\<rparr>)"
proof -
  let ?m = "om_matcher om" and ?i = "order_id ord"
  define snap where "snap = ord\<lparr>order_quantity := left,
      order_status := final_status (order_quantity ord) left (may_rest b ord left)\<rparr>"
  note unfold = om_settle_eq [OF assms(1-3) snap_def]
  show ?thesis
  proof (cases "may_rest b ord left")
    case False
    then have "\<not> resting_status (order_status snap)" by (simp add: snap_def final_status_def resting_status_def)
    then have "om_link b (om\<lparr>om_orders := (om_orders om)(?i \<mapsto> snap)\<rparr>)"
      using assms(2,3,4,5) by (intro om_link_note) (simp_all add: snap_def)
    with False unfold assms(1,3) show ?thesis
      by (intro exI [of _ "om\<lparr>om_orders := (om_orders om)(?i \<mapsto> snap)\<rparr>"]) (simp add: snap_def)
  next
    case True
    let ?r = "remainder ord left"
    have "spec_match b ?r = ([], spec_rest b ?r)"
      using True by (intro spec_match_no_cross) (simp_all add: may_rest_def remainder_def)
    then obtain m' where m': "vt_addOrder M ?m ?r = Some m'" "inv m'" "abs m' = spec_rest b ?r"
      using add_law [OF assms(1), of ?r] assms(3,4) by (auto simp: remainder_def)
    define om' where "om' = (om_trackResting ?r (om\<lparr>om_matcher := m',
      om_activeOrderIds := insert ?i (om_activeOrderIds om)\<rparr>))\<lparr>om_orders := (om_orders om)(?i \<mapsto> snap)\<rparr>"
    have lv: "om_levels om' t = om_levels (om_trackResting ?r om) t" for t
      by (simp add: om'_def om_trackResting_def Let_def)
    have "om_link (spec_rest b ?r) om'"
      by (rule om_link_rest [OF assms(2) [folded assms(3)] _ lv, where x = snap])
        (use True assms(4-6) OrderType.exhaust [of "order_type ord"] in
          \<open>auto simp: om'_def remainder_def snap_def same_order_def may_rest_def
            final_status_def resting_status_def cannot_rest_iff\<close>)
    then show ?thesis
      using True unfold m' by (intro exI [of _ om']) (simp add: om'_def snap_def)
  qed
qed

lemma om_match_refines:
  assumes "om_inv inv abs om" "validateNewOrder ord (om_allKnownOrderIds om) = NoReason"
    "spec_submit (abs (om_matcher om)) ord = (ts, b', left)"
  shows "\<exists>om'. om_matchOrder M om ord = Some (\<lparr>mr_trades = ts, mr_accept = accept\<rparr>, om') \<and>
    om_inv inv abs om' \<and> abs (om_matcher om') = b' \<and>
    om_orders om' = (fold book_trade ts (om_orders om))(order_id ord \<mapsto> ord\<lparr>order_quantity := left,
      order_status := final_status (order_quantity ord) left (order_id ord \<in> book_ids b')\<rparr>)"
proof -
  let ?m = "om_matcher om" and ?s = "order_side ord" and ?i = "order_id ord" and ?p = "order_price ord"
  let ?b = "abs ?m"
  define om1 where "om1 = om\<lparr>om_allKnownOrderIds := insert ?i (om_allKnownOrderIds om)\<rparr>"
  define inc where "inc = (if order_type ord = Market then ord\<lparr>order_price := if ?s = Buy then -1 else 0\<rparr> else ord)"
  have inc: "order_side inc = ?s" "order_id inc = ?i" "order_accountId inc = order_accountId ord"
    "order_quantity inc = order_quantity ord" "order_price inc = effective_price ord"
    by (simp_all add: inc_def effective_price_def)
  from assms(1) have iv: "inv ?m" and link: "om_link ?b om" and known: "dom (om_orders om) = om_allKnownOrderIds om"
    by (auto simp: om_inv_def)
  from assms(2) have v: "order_type ord = Limit \<longrightarrow> ?p \<noteq> 0" "?i \<notin> om_allKnownOrderIds om"
    by (auto simp: validateNewOrder_ok)
  have fresh: "i \<in> om_allKnownOrderIds om" if "om_link b x" "dom (om_orders x) = dom (om_orders om)" "i \<in> book_ids b"
    for i b and x :: "'m OrderManager"
    using om_snapshot_resting [OF that(1,3)] that(2) known by (metis domI)
  obtain q where sw: "stp_sweep ?s (effective_price ord) ?i (order_accountId ord) (order_quantity ord) (?b (opposite ?s)) = (ts, q, left)"
    and b': "b' = (if may_rest (?b(opposite ?s := q)) ord left
       then spec_rest (?b(opposite ?s := q)) (remainder ord left) else ?b(opposite ?s := q))"
    using assms(3) by (auto simp: spec_submit_def Let_def split: prod.splits)
  have "\<exists>om'. om_stp_loop M inc om1 [] 0 (order_quantity ord) = Some ([] @ ts, 0 + (order_quantity ord - left), om') \<and>
    inv (om_matcher om') \<and> om_link (abs (om_matcher om')) om' \<and>
    abs (om_matcher om') = (abs (om_matcher om1))(opposite ?s := q) \<and>
    om_allKnownOrderIds om' = om_allKnownOrderIds om1 \<and> om_orders om' = fold book_trade ts (om_orders om1)"
  proof (rule stp_loop)
    show "om_link (abs (om_matcher om1)) om1" using link by (auto simp: om_link_def om1_def)
    show "order_id inc \<notin> book_ids (abs (om_matcher om1))" using fresh [OF link refl] v(2) by (auto simp: inc om1_def)
  qed (use iv sw in \<open>simp_all add: inc om1_def\<close>)
  then obtain om2 where om2: "om_matchWithStp M om1 inc = Some (ts, order_quantity ord - left, om2)"
    "inv (om_matcher om2)" "om_link (abs (om_matcher om2)) om2" "abs (om_matcher om2) = ?b(opposite ?s := q)"
    "om_allKnownOrderIds om2 = insert ?i (om_allKnownOrderIds om)" "om_orders om2 = fold book_trade ts (om_orders om)"
    by (auto simp: om_matchWithStp_def inc om1_def)
  let ?b1 = "?b(opposite ?s := q)"
  have fresh1: "?i \<notin> book_ids ?b1" using fresh [OF om2(3)] v(2) by (auto simp: om2(4,6))
  obtain om' where om': "om_settle M om2 ord ts (order_quantity ord - left) = Some (\<lparr>mr_trades = ts, mr_accept = accept\<rparr>, om')"
    "inv (om_matcher om')" "om_link (abs (om_matcher om')) om'" "abs (om_matcher om') = b'"
    "om_allKnownOrderIds om' = om_allKnownOrderIds om2"
    "om_orders om' = (om_orders om2)(?i \<mapsto> ord\<lparr>order_quantity := left,
      order_status := final_status (order_quantity ord) left (may_rest ?b1 ord left)\<rparr>)"
    using settle [OF om2(2,3) om2(4) [symmetric] fresh1 _ v(1), of ts left] by (auto simp: om2(5) b')
  have "om_matchOrder M om ord = om_settle M om2 ord ts (order_quantity ord - left)"
    using assms(2) om2(1) by (simp add: om_matchOrder_def Let_def inc_def om1_def)
  moreover have "?i \<in> book_ids b' \<longleftrightarrow> may_rest ?b1 ord left"
    using fresh1 by (simp add: b' book_ids_rest remainder_def)
  moreover have "dom (om_orders om') = om_allKnownOrderIds om'"
    using om'(5,6) om2(5,6) known by auto
  ultimately show ?thesis using om' om2(6) by (auto simp: om_inv_def)
qed

lemma om_match_rejects:
  assumes "validateNewOrder ord (om_allKnownOrderIds om) = why" "why \<noteq> NoReason"
  shows "om_matchOrder M om ord = Some (\<lparr>mr_trades = [], mr_accept = reject why\<rparr>, om)"
  using assms by (simp add: om_matchOrder_def)

lemma om_add_match:
  assumes "\<not> cannot_rest ord"
  shows "om_addOrder M om ord = map_option (\<lambda>(r, om'). (mr_accept r, om')) (om_matchOrder M om ord)"
proof (cases "validateNewOrder ord (om_allKnownOrderIds om) = NoReason")
  case False
  with assms show ?thesis by (simp add: om_addOrder_def om_matchOrder_def Let_def)
next
  case True
  have "mr_accept r = accept" if "om_matchOrder M om ord = Some (r, om')" for r om'
    using that True
    by (auto simp: om_matchOrder_def om_settle_def Let_def bind_eq_Some_conv split: if_splits)
  with True assms show ?thesis
    by (cases "om_matchOrder M om ord") (auto simp: om_addOrder_def Let_def)
qed

lemma om_cancel_refines:
  assumes "om_inv inv abs om" "i \<in> om_activeOrderIds om"
  shows "\<exists>om' x. om_cancelOrder M om i = Some (accept, om') \<and> om_inv inv abs om' \<and>
    abs (om_matcher om') = spec_cancel (abs (om_matcher om)) i \<and>
    om_orders om i = Some x \<and> om_orders om' = (om_orders om)(i \<mapsto> x\<lparr>order_status := Cancelled\<rparr>)"
proof -
  let ?b = "abs (om_matcher om)"
  from assms(1) have iv: "inv (om_matcher om)" and link: "om_link ?b om" and known: "dom (om_orders om) = om_allKnownOrderIds om"
    by (auto simp: om_inv_def)
  have "i \<in> book_ids ?b" using assms(2) om_linkD(2) [OF link] by simp
  then obtain x where x: "om_orders om i = Some x" using om_snapshot_resting [OF link] by metis
  obtain m' where m': "vt_cancelOrder M (om_matcher om) i = Some m'" "inv m'" "abs m' = spec_cancel ?b i"
    using cancel_law [OF iv] by blast
  define om' where "om' = (om_untrackResting i (om\<lparr>om_matcher := m', om_activeOrderIds := om_activeOrderIds om - {i}\<rparr>))
    \<lparr>om_orders := (om_orders om)(i \<mapsto> x\<lparr>order_status := Cancelled\<rparr>)\<rparr>"
  have "om_link (spec_cancel ?b i) om'"
    by (rule om_link_drop [OF link abs_ok [OF iv], where x = "x\<lparr>order_status := Cancelled\<rparr>"])
      (use x known om_linkD(6) [OF link x] in \<open>auto simp: om'_def resting_status_def\<close>)
  moreover have "om_cancelOrder M om i = Some (accept, om')"
    using assms(2) m'(1) x by (simp add: om_cancelOrder_def Let_def validateCancel_def om'_def)
  moreover have "om_inv inv abs om'"
    using \<open>om_link (spec_cancel ?b i) om'\<close> m' known x by (auto simp: om_inv_def om'_def)
  ultimately show ?thesis using m'(3) x by (intro exI [of _ om'] exI [of _ x]) (simp add: om'_def)
qed

lemma om_cancel_rejects:
  assumes "i \<notin> om_activeOrderIds om"
  shows "om_cancelOrder M om i = Some (reject UnknownOrder, om)"
  using assms by (simp add: om_cancelOrder_def Let_def validateCancel_def)

text \<open>Amending away from the queue position: cancel, then rest at the back of the new level.\<close>

lemma replace_requeue:
  assumes "om_inv inv abs om" "i \<in> om_activeOrderIds om" "order_id ord = i" "\<not> cannot_rest ord"
    "order_quantity ord \<noteq> 0" "order_price ord \<noteq> 0" "\<not> om_wouldCross om ord" "order_status ord = New"
  shows "\<exists>m1 m2. vt_cancelOrder M (om_matcher om) i = Some m1 \<and> vt_addOrder M m1 ord = Some m2 \<and> inv m2 \<and>
    abs m2 = spec_rest (spec_cancel (abs (om_matcher om)) i) ord \<and>
    om_link (abs m2) (om_trackResting ord ((om_untrackResting i (om\<lparr>om_matcher := m1\<rparr>))
      \<lparr>om_matcher := m2, om_orders := (om_orders om)(i \<mapsto> ord), om_activeOrderIds := insert i (om_activeOrderIds om)\<rparr>))"
proof -
  let ?b = "abs (om_matcher om)"
  from assms(1) have iv: "inv (om_matcher om)" and link: "om_link ?b om" and known: "dom (om_orders om) = om_allKnownOrderIds om"
    by (auto simp: om_inv_def)
  have "i \<in> book_ids ?b" using assms(2) om_linkD(2) [OF link] by simp
  then obtain x where x: "om_orders om i = Some x" using om_snapshot_resting [OF link] by metis
  obtain m1 where m1: "vt_cancelOrder M (om_matcher om) i = Some m1" "inv m1" "abs m1 = spec_cancel ?b i"
    using cancel_law [OF iv] by blast
  have nc: "\<forall>r\<in>set (?b (opposite (order_side ord))). \<not> crosses (order_side ord) (order_price ord) (order_price r)"
    using assms(7) om_wouldCross_iff [OF om_linkD(1) [OF link] abs_ok [OF iv] refl] by simp
  then have "spec_match (abs m1) ord = ([], spec_rest (abs m1) ord)"
    using assms(5) by (intro spec_match_no_cross) (auto simp: m1(3) spec_cancel_def)
  moreover have fresh: "order_id ord \<notin> book_ids (abs m1)" by (simp add: m1(3) book_ids_cancel assms(3))
  ultimately obtain m2 where m2: "vt_addOrder M m1 ord = Some m2" "inv m2" "abs m2 = spec_rest (abs m1) ord"
    using add_law [OF m1(2) fresh] by auto
  define om0 where "om0 = (om_untrackResting i (om\<lparr>om_activeOrderIds := om_activeOrderIds om - {i}\<rparr>))
    \<lparr>om_orders := (om_orders om)(i \<mapsto> x\<lparr>order_status := Cancelled\<rparr>)\<rparr>"
  have link0: "om_link (abs m1) om0"
    unfolding m1(3) by (rule om_link_drop [OF link abs_ok [OF iv], where x = "x\<lparr>order_status := Cancelled\<rparr>"])
      (use x known om_linkD(6) [OF link x] in \<open>auto simp: om0_def resting_status_def\<close>)
  let ?om = "om_trackResting ord ((om_untrackResting i (om\<lparr>om_matcher := m1\<rparr>))
      \<lparr>om_matcher := m2, om_orders := (om_orders om)(i \<mapsto> ord), om_activeOrderIds := insert i (om_activeOrderIds om)\<rparr>)"
  have lv: "om_levels ?om t = om_levels (om_trackResting ord om0) t" for t
    by (simp add: om0_def om_trackResting_def Let_def)
  have "om_link (spec_rest (abs m1) ord) ?om"
    by (rule om_link_rest [OF link0 fresh lv, where x = ord])
      (use assms x known in \<open>auto simp: om0_def resting_status_def\<close>)
  then show ?thesis using m1(1,3) m2 by auto
qed

lemma cancel_ids:
  assumes "inv m"
  shows "\<exists>m'. om_cancel_ids M ids m = Some m' \<and> inv m' \<and>
    abs m' = (\<lambda>t. filter (\<lambda>r. order_id r \<notin> set ids) (abs m t))"
  using assms
proof (induction ids arbitrary: m)
  case (Cons i ids)
  obtain m1 where m1: "vt_cancelOrder M m i = Some m1" "inv m1" "abs m1 = spec_cancel (abs m) i"
    using cancel_law [OF Cons.prems] by blast
  from Cons.IH [OF m1(2)] m1(1,3) show ?case by (auto simp: spec_cancel_def conj_commute)
qed simp

lemma add_ids:
  assumes "inv m" "abs m = b(s := A @ B)"
    "\<forall>r\<in>set A. ahead s (order_price r) p" "\<forall>r\<in>set B. \<not> ahead s (order_price r) p"
    "\<forall>x\<in>set xs. order_price x = p \<and> order_side x = s \<and> order_quantity x \<noteq> 0 \<and> orders (order_id x) = Some x \<and>
       order_id x \<notin> book_ids (abs m)"
    "distinct (map order_id xs)" "\<forall>r\<in>set (b (opposite s)). \<not> crosses s p (order_price r)"
  shows "\<exists>m'. om_add_ids M orders (map order_id xs) m = Some m' \<and> inv m' \<and> abs m' = b(s := A @ xs @ B)"
  using assms
proof (induction xs arbitrary: A m)
  case (Cons x xs)
  then have x: "order_price x = p" "order_side x = s" "order_quantity x \<noteq> 0" "orders (order_id x) = Some x"
    "order_id x \<notin> book_ids (abs m)" by auto
  have "spec_match (abs m) x = ([], spec_rest (abs m) x)"
    using Cons.prems(7) x by (intro spec_match_no_cross) (auto simp: Cons.prems(2))
  then obtain m1 where m1: "vt_addOrder M m x = Some m1" "inv m1" "abs m1 = spec_rest (abs m) x"
    using add_law [OF Cons.prems(1) x(5)] by auto
  have "enqueue s x (A @ B) = A @ x # B" using Cons.prems(3,4) x(1) by (intro enqueue_between) auto
  then have b1: "abs m1 = b(s := (A @ [x]) @ B)" by (intro ext) (simp add: m1(3) spec_rest_def x(2) Cons.prems(2))
  have ids: "book_ids (abs m1) = insert (order_id x) (book_ids (abs m))" by (simp add: m1(3) book_ids_rest)
  have "\<exists>m'. om_add_ids M orders (map order_id xs) m1 = Some m' \<and> inv m' \<and> abs m' = b(s := (A @ [x]) @ xs @ B)"
  proof (rule Cons.IH [OF m1(2) b1])
    show "\<forall>r\<in>set (A @ [x]). ahead s (order_price r) p" using Cons.prems(3) x(1) by simp
    show "\<forall>x\<in>set xs. order_price x = p \<and> order_side x = s \<and> order_quantity x \<noteq> 0 \<and> orders (order_id x) = Some x \<and>
        order_id x \<notin> book_ids (abs m1)"
    proof
      fix y assume y: "y \<in> set xs"
      with Cons.prems(6) have "order_id y \<noteq> order_id x" by (auto simp: image_iff)
      with bspec [OF Cons.prems(5), of y] y show "order_price y = p \<and> order_side y = s \<and> order_quantity y \<noteq> 0 \<and>
          orders (order_id y) = Some y \<and> order_id y \<notin> book_ids (abs m1)" by (simp add: ids)
    qed
  qed (use Cons.prems(4,6,7) in simp_all)
  with m1(1) x(4) show ?case by auto
qed simp

text \<open>The level of a resting order whose price is kept, as a segment of its queue.\<close>

lemma amend_level:
  assumes link: "om_link b om" and ok: "book_ok b" and act: "i \<in> book_ids b"
    and old: "om_orders om i = Some old" "order_price old = p"
    and nc: "\<forall>r\<in>set (b (opposite s)). \<not> crosses s p (order_price r)"
    and ids: "ids = omap_at [] p (om_levels om s)"
  obtains r0 A L B where "r0 \<in> set (b s)" "order_id r0 = i" "order_price r0 = p"
    "omap_set p ids (om_levels om s) = om_levels om s" "b s = A @ L @ B" "map order_id L = ids" "\<forall>r\<in>set L. order_price r = p"
    "\<forall>r\<in>set A. \<not> ahead s p (order_price r)" "\<forall>r\<in>set B. \<not> ahead s (order_price r) p"
proof -
  obtain t0 r0 where r0: "r0 \<in> set (b t0)" "order_id r0 = i" "same_order old r0"
    using om_snapshot_resting [OF link act] old(1) by (metis option.inject)
  have p0: "order_price r0 = p" using same_order_sel(3) [OF r0(3)] old(2) by simp
  have t0: "t0 = s"
  proof (rule ccontr)
    assume "t0 \<noteq> s"
    then have "t0 = opposite s" by (simp add: side_neq_iff)
    with nc r0(1) p0 show False by (cases s) auto
  qed
  have sh: "shadow_ok (om_levels om s) s (b s)" using om_linkD(1) [OF link] by blast
  have "(p, i) \<in> set (flat s (om_levels om s))"
    using sh imageI [OF r0(1), of "\<lambda>r. (order_price r, order_id r)"] by (simp add: shadow_ok_def t0 p0 r0(2))
  moreover have omap: "omap_ok (om_levels om s)" using sh by (simp add: shadow_ok_def)
  ultimately obtain ids' where lv: "map_of (om_levels om s) p = Some ids'"
    using in_flat_map_of [of "om_levels om s" p i s] by blast
  then have ids': "ids' = ids" by (simp add: ids omap_at_def)
  from shadow_level [OF sh lv] that [OF r0(1) [unfolded t0] r0(2) p0 omap_set_same [OF omap lv, unfolded ids']]
  show ?thesis unfolding ids' by metis
qed

text \<open>The level is taken off the book and put back with the recorded orders.\<close>

lemma rebuild_level:
  assumes iv: "inv m" and q: "abs m s = A @ L @ B" and L: "map order_id L = ids"
    and AB: "\<forall>r\<in>set A. \<not> ahead s p (order_price r)" "\<forall>r\<in>set B. \<not> ahead s (order_price r) p"
    and nc: "\<forall>r\<in>set (abs m (opposite s)). \<not> crosses s p (order_price r)"
    and X: "\<And>r. r \<in> set L \<Longrightarrow> order_id (X r) = order_id r \<and> order_price (X r) = p \<and> order_side (X r) = s \<and>
      order_quantity (X r) \<noteq> 0 \<and> orders (order_id r) = Some (X r)"
  shows "\<exists>m1 m2. om_cancel_ids M ids m = Some m1 \<and> om_add_ids M orders ids m1 = Some m2 \<and> inv m2 \<and>
    abs m2 = (abs m)(s := A @ map X L @ B)"
proof -
  note ok = abs_ok [OF iv]
  obtain m1 where m1: "om_cancel_ids M ids m = Some m1" "inv m1"
    "abs m1 = (\<lambda>t. filter (\<lambda>r. order_id r \<notin> set ids) (abs m t))" using cancel_ids [OF iv] by blast
  have idL: "set ids = order_id ` set L" using L by auto
  have b1: "abs m1 = (abs m)(s := A @ B)"
  proof
    fix t
    have "order_id r \<notin> set ids" if "r \<in> set (abs m t)" "t \<noteq> s" for r
      using book_id_unique [OF ok, of _ s r t] that by (auto simp: idL q)
    moreover have "order_id r \<notin> set ids" if "r \<in> set A \<union> set B" for r
      using distinct_map_around [OF book_ok_distinct [OF ok, of s, unfolded q] _ that] by (auto simp: idL)
    ultimately show "abs m1 t = ((abs m)(s := A @ B)) t"
      by (cases "t = s") (auto simp: m1(3) q idL intro!: filter_True)
  qed
  have fresh: "order_id (X r) \<notin> book_ids (abs m1)" if "r \<in> set L" for r
    using X [OF that] that by (auto simp: book_ids_def m1(3) idL) (metis imageI)
  have ids_X: "ids = map order_id (map X L)" using X L by auto
  have "\<exists>m'. om_add_ids M orders (map order_id (map X L)) m1 = Some m' \<and> inv m' \<and> abs m' = (abs m)(s := A @ map X L @ B)"
  proof (rule add_ids [OF m1(2) b1])
    show "\<forall>r\<in>set A. ahead s (order_price r) p" using AB(1) ahead_total by blast
    show "distinct (map order_id (map X L))" unfolding ids_X [symmetric] using book_ok_distinct [OF ok, of s] L by (simp add: q)
    show "\<forall>x\<in>set (map X L). order_price x = p \<and> order_side x = s \<and> order_quantity x \<noteq> 0 \<and>
        orders (order_id x) = Some x \<and> order_id x \<notin> book_ids (abs m1)"
      using fresh X by auto
  qed (use AB(2) nc in auto)
  then show ?thesis using m1(1) unfolding ids_X [symmetric] by blast
qed

text \<open>
  Amending in place: the level is taken off the book and put back in its recorded order, so
  every order keeps its position and only the amended one changes.
\<close>

lemma amended_level:
  assumes "b s = A @ L @ B" and "\<And>r. r \<in> set A \<union> set B \<Longrightarrow> order_id r \<noteq> i"
    and "\<And>r. r \<in> set (b s) \<Longrightarrow> if order_id r = i then X r = ord else same_order (X r) r"
    and "\<And>r t. r \<in> set (b t) \<Longrightarrow> t \<noteq> s \<Longrightarrow> order_id r \<noteq> i"
  shows "amended i ord b (b(s := A @ map X L @ B))"
  unfolding amended_def
proof
  fix t
  show "list_all2 (\<lambda>r' r. if order_id r = i then r' = ord else same_order r' r) ((b(s := A @ map X L @ B)) t) (b t)"
    using assms by (cases "t = s") (simp_all add: list_all2_append list_all2_same list_all2_map1)
qed

lemma rebuild_split:
  assumes "b s = A @ L @ B" "\<forall>r\<in>set L. order_price r = p"
    and "\<forall>r\<in>set A. \<not> ahead s p (order_price r)" "\<forall>r\<in>set B. \<not> ahead s (order_price r) p"
  shows "spec_rebuild orders s p b = b(s := A @ map (\<lambda>r. the (orders (order_id r))) L @ B)"
proof -
  let ?g = "\<lambda>r. if order_price r = p then the (orders (order_id r)) else r"
  have "map ?g A = A" "map ?g B = B" using assms(3,4) by (intro map_idI; metis ahead_refl)+
  moreover have "map ?g L = map (\<lambda>r. the (orders (order_id r))) L" using assms(2) by simp
  ultimately show ?thesis unfolding spec_rebuild_def assms(1) map_append by (simp only:)
qed

lemma replace_in_place:
  assumes "om_inv inv abs om" "i \<in> om_activeOrderIds om" "order_id ord = i" "\<not> cannot_rest ord"
    "order_quantity ord \<noteq> 0" "order_price ord \<noteq> 0" "\<not> om_wouldCross om ord" "order_status ord = New"
    "om_orders om i = Some old" "order_price ord = order_price old" "s = order_side ord"
    "ids = omap_at [] (order_price ord) (om_levels om s)"
  shows "\<exists>m1 m2. om_cancel_ids M ids (om_matcher om) = Some m1 \<and>
    om_add_ids M ((om_orders om)(i \<mapsto> ord)) ids m1 = Some m2 \<and> inv m2 \<and>
    abs m2 = spec_rebuild ((om_orders om)(i \<mapsto> ord)) s (order_price ord) (abs (om_matcher om)) \<and>
    amended i ord (abs (om_matcher om)) (abs m2) \<and>
    om_link (abs m2) (om\<lparr>om_orders := (om_orders om)(i \<mapsto> ord), om_matcher := m2\<rparr>) \<and>
    omap_set (order_price ord) ids (om_levels om s) = om_levels om s"
proof -
  let ?b = "abs (om_matcher om)" and ?p = "order_price ord"
  define orders where "orders = (om_orders om)(i \<mapsto> ord)"
  from assms(1) have iv: "inv (om_matcher om)" and link: "om_link ?b om" by (auto simp: om_inv_def)
  note ok = abs_ok [OF iv]
  have act: "i \<in> book_ids ?b" using assms(2) om_linkD(2) [OF link] by simp
  have nc: "\<forall>r\<in>set (?b (opposite s)). \<not> crosses s ?p (order_price r)"
    using assms(7) om_wouldCross_iff [OF om_linkD(1) [OF link] ok assms(11)] by simp
  obtain r0 A L B where r0: "r0 \<in> set (?b s)" "order_id r0 = i" "order_price r0 = ?p"
    and same: "omap_set ?p ids (om_levels om s) = om_levels om s"
    and q: "?b s = A @ L @ B" and L: "map order_id L = ids" "\<forall>r\<in>set L. order_price r = ?p"
    and AB: "\<forall>r\<in>set A. \<not> ahead s ?p (order_price r)" "\<forall>r\<in>set B. \<not> ahead s (order_price r) ?p"
    using amend_level [OF link ok act assms(9) assms(10) [symmetric] nc assms(12)] by metis
  define X where "X r = the (orders (order_id r))" for r :: Order
  have X: "orders (order_id r) = Some (X r)" "if order_id r = i then X r = ord else same_order (X r) r"
    if "r \<in> set (?b t)" for r t
    using om_linkD(4) [OF link that] by (auto simp: X_def orders_def)
  have i_r0: "r = r0 \<and> t = s" if "r \<in> set (?b t)" "order_id r = i" for r t
    using book_id_unique [OF ok r0(1) that(1)] that(2) r0(2) by simp
  have L_ok: "order_id (X r) = order_id r \<and> order_price (X r) = ?p \<and> order_side (X r) = s \<and> order_quantity (X r) \<noteq> 0 \<and>
      orders (order_id r) = Some (X r)" if "r \<in> set L" for r
  proof -
    have rs: "r \<in> set (?b s)" using that by (simp add: q)
    then have "order_side r = s" "order_quantity r \<noteq> 0" using book_ok_queue [OF ok, of s] by (auto simp: queue_ok_def)
    with X [OF rs] L(2) that assms(3,5,11) same_order_sel(1-4) [of "X r" r] show ?thesis
      by (cases "order_id r = i") auto
  qed
  obtain m1 m2 where m: "om_cancel_ids M ids (om_matcher om) = Some m1" "om_add_ids M orders ids m1 = Some m2" "inv m2"
    "abs m2 = ?b(s := A @ map X L @ B)"
    using rebuild_level [OF iv q L(1) AB nc L_ok] by blast
  have AB_i: "order_id r \<noteq> i" if "r \<in> set A \<union> set B" for r
    using i_r0 [of r s] that AB r0(3) by (auto simp: q)
  have am: "amended i ord ?b (abs m2)"
    unfolding m(4) by (rule amended_level [where b = ?b, OF q AB_i X(2)]) (use i_r0 in blast)+
  have lk: "om_link (abs m2) (om\<lparr>om_orders := orders, om_matcher := m2\<rparr>)"
    by (rule om_link_amend [OF link am act]) (use assms i_r0 r0(3) in \<open>auto simp: orders_def resting_status_def\<close>)
  have "abs m2 = spec_rebuild orders s ?p ?b"
    unfolding m(4) X_def by (rule rebuild_split [where b = ?b, OF q L(2) AB, symmetric])
  then show ?thesis using lk m am same unfolding orders_def by blast
qed

text \<open>Why an amendment is refused, in the order the code checks.\<close>

lemma om_replace_rejects:
  assumes "why = (if i \<notin> om_activeOrderIds om then OrderNotResting
      else if order_id ord \<noteq> i \<or> cannot_rest ord then InvalidReplace
      else if validateNewOrder ord (om_allKnownOrderIds om - {i}) \<noteq> NoReason
      then validateNewOrder ord (om_allKnownOrderIds om - {i})
      else if om_wouldCross om ord then ReplaceWouldCross else NoReason)" "why \<noteq> NoReason"
  shows "om_cancelReplace M om i ord = Some (reject why, om)"
  using assms by (auto simp: om_cancelReplace_def Let_def split: if_splits)

lemma om_replace_refines:
  assumes "om_inv inv abs om" "i \<in> om_activeOrderIds om" "order_id ord = i" "\<not> cannot_rest ord"
    "validateNewOrder ord (om_allKnownOrderIds om - {i}) = NoReason" "\<not> om_wouldCross om ord"
    "om_orders om i = Some old" "new = ord\<lparr>order_status := New\<rparr>"
  shows "\<exists>om'. om_cancelReplace M om i ord = Some (accept, om') \<and> om_inv inv abs om' \<and>
    om_orders om' = (om_orders om)(i \<mapsto> new) \<and>
    (if order_price ord = order_price old \<and> order_quantity ord \<le> order_quantity old
     then abs (om_matcher om') = spec_rebuild (om_orders om') (order_side ord) (order_price ord) (abs (om_matcher om)) \<and>
       amended i new (abs (om_matcher om)) (abs (om_matcher om'))
     else abs (om_matcher om') = spec_rest (spec_cancel (abs (om_matcher om)) i) new)"
proof -
  from assms(1) have known: "dom (om_orders om) = om_allKnownOrderIds om" by (simp add: om_inv_def)
  have new: "order_id new = i" "\<not> cannot_rest new" "order_quantity new \<noteq> 0" "order_price new \<noteq> 0" "order_status new = New"
    "\<not> om_wouldCross om new" "order_price new = order_price ord" "order_quantity new = order_quantity ord"
    "order_side new = order_side ord"
    using assms(3-6) by (auto simp: assms(8) cannot_rest_iff validateNewOrder_ok om_wouldCross_def intro: OrderType.exhaust)
  have known': "dom ((om_orders om)(i \<mapsto> new)) = om_allKnownOrderIds om" using known assms(7) by auto
  show ?thesis
  proof (cases "order_price ord = order_price old \<and> order_quantity ord \<le> order_quantity old")
    case True
    define ids where "ids = omap_at [] (order_price new) (om_levels om (order_side new))"
    obtain m1 m2 where m: "om_cancel_ids M ids (om_matcher om) = Some m1"
      "om_add_ids M ((om_orders om)(i \<mapsto> new)) ids m1 = Some m2" "inv m2"
      "abs m2 = spec_rebuild ((om_orders om)(i \<mapsto> new)) (order_side new) (order_price new) (abs (om_matcher om))"
      "amended i new (abs (om_matcher om)) (abs m2)"
      "om_link (abs m2) (om\<lparr>om_orders := (om_orders om)(i \<mapsto> new), om_matcher := m2\<rparr>)"
      "omap_set (order_price new) ids (om_levels om (order_side new)) = om_levels om (order_side new)"
      using replace_in_place [OF assms(1,2) new(1-4) new(6,5) assms(7) _ refl ids_def] True new(7) by auto
    have ids': "omap_at [] (order_price old) (om_levels om (order_side ord)) = ids"
      using True new(7,9) by (simp add: ids_def)
    have same: "om_put_levels t (om_levels om t) om = om" for t by (cases t) simp_all
    have "om_cancelReplace M om i ord = Some (accept, om\<lparr>om_orders := (om_orders om)(i \<mapsto> new), om_matcher := m2\<rparr>)"
      using assms(2-7) True m(1,2,7) new(7-9) unfolding om_cancelReplace_def assms(8) [symmetric]
      by (simp add: Let_def ids' same)
    then show ?thesis
      using True m(3-6) new(7,9) known' by (auto simp: om_inv_def)
  next
    case False
    obtain m1 m2 where m: "vt_cancelOrder M (om_matcher om) i = Some m1" "vt_addOrder M m1 new = Some m2" "inv m2"
      "abs m2 = spec_rest (spec_cancel (abs (om_matcher om)) i) new"
      "om_link (abs m2) (om_trackResting new ((om_untrackResting i (om\<lparr>om_matcher := m1\<rparr>))
        \<lparr>om_matcher := m2, om_orders := (om_orders om)(i \<mapsto> new), om_activeOrderIds := insert i (om_activeOrderIds om)\<rparr>))"
      using replace_requeue [OF assms(1,2) new(1-4) new(6,5)] by blast
    have "om_cancelReplace M om i ord = Some (accept, om_trackResting new ((om_untrackResting i (om\<lparr>om_matcher := m1\<rparr>))
        \<lparr>om_matcher := m2, om_orders := (om_orders om)(i \<mapsto> new), om_activeOrderIds := insert i (om_activeOrderIds om)\<rparr>))"
      using assms(2-7) False m(1,2) unfolding om_cancelReplace_def assms(8) [symmetric] by (auto simp: Let_def)
    then show ?thesis
      using False m(3-5) known' by (auto simp: om_inv_def)
  qed
qed

lemma om_inv_new:
  assumes "inv m" "abs m = empty_book"
  shows "om_inv inv abs (new_OrderManager m)"
proof -
  have "om_levels (new_OrderManager m) s = []" for s by (cases s) (simp_all add: new_OrderManager_def)
  then show ?thesis
    using assms by (auto simp: om_inv_def om_link_def shadow_ok_def no_empty_level_def empty_book_def book_ids_def)
      (auto simp: new_OrderManager_def)
qed

text \<open>
  Each operation returns, keeps the invariant, and changes the visible state as specified.
\<close>

lemma om_spec_sel [simp]:
  "sm_book (om_spec view om) = view (om_matcher om)" "sm_orders (om_spec view om) = om_orders om"
  by (simp_all add: om_spec_def)

lemma om_inv_sets:
  assumes "om_inv inv abs om"
  shows "om_allKnownOrderIds om = dom (om_orders om)" "om_activeOrderIds om = book_ids (abs (om_matcher om))"
    "om_wouldCross om ord \<longleftrightarrow> would_cross (abs (om_matcher om)) ord" "book_ok (abs (om_matcher om))"
proof -
  from assms have iv: "inv (om_matcher om)" and link: "om_link (abs (om_matcher om)) om" by (auto simp: om_inv_def)
  show "om_allKnownOrderIds om = dom (om_orders om)" using assms by (simp add: om_inv_def)
  show "om_activeOrderIds om = book_ids (abs (om_matcher om))" by (rule om_linkD(2) [OF link])
  show "book_ok (abs (om_matcher om))" by (rule abs_ok [OF iv])
  show "om_wouldCross om ord \<longleftrightarrow> would_cross (abs (om_matcher om)) ord"
    using om_wouldCross_iff [OF om_linkD(1) [OF link] abs_ok [OF iv] refl] by (simp add: would_cross_def)
qed

lemma om_matchOrder_spec:
  assumes "om_inv inv abs om" "spec_om_match (om_spec abs om) ord = (r, sm)"
  shows "\<exists>om'. om_matchOrder M om ord = Some (r, om') \<and> om_inv inv abs om' \<and> om_spec abs om' = sm"
proof (cases "validateNewOrder ord (om_allKnownOrderIds om) = NoReason")
  case False
  with assms om_match_rejects [OF refl False] show ?thesis
    by (auto simp: spec_om_match_def Let_def om_inv_sets(1) [OF assms(1), symmetric])
next
  case True
  obtain ts b left where sp: "spec_submit (abs (om_matcher om)) ord = (ts, b, left)" by (metis prod_cases3)
  from om_match_refines [OF assms(1) True sp] assms(2) True show ?thesis
    by (auto simp: spec_om_match_def Let_def sp om_inv_sets(1) [OF assms(1), symmetric] om_spec_def)
qed

lemma om_addOrder_spec:
  assumes "om_inv inv abs om" "spec_om_add (om_spec abs om) ord = (r, sm)"
  shows "\<exists>om'. om_addOrder M om ord = Some (r, om') \<and> om_inv inv abs om' \<and> om_spec abs om' = sm"
proof (cases "cannot_rest ord")
  case True
  with assms show ?thesis by (auto simp: spec_om_add_def om_addOrder_def)
next
  case False
  obtain r' sm' where sp: "spec_om_match (om_spec abs om) ord = (r', sm')" by (metis surj_pair)
  with om_matchOrder_spec [OF assms(1) sp] assms(2) False show ?thesis
    by (auto simp: spec_om_add_def om_add_match)
qed

lemma om_cancelOrder_spec:
  assumes "om_inv inv abs om" "spec_om_cancel (om_spec abs om) i = (r, sm)"
  shows "\<exists>om'. om_cancelOrder M om i = Some (r, om') \<and> om_inv inv abs om' \<and> om_spec abs om' = sm"
proof (cases "i \<in> om_activeOrderIds om")
  case False
  with assms om_cancel_rejects [OF False] show ?thesis
    by (auto simp: spec_om_cancel_def om_inv_sets(2) [OF assms(1), symmetric])
next
  case True
  from om_cancel_refines [OF assms(1) True] assms(2) True show ?thesis
    by (auto simp: spec_om_cancel_def om_inv_sets(2) [OF assms(1), symmetric] om_spec_def)
qed

lemma om_cancelReplace_spec:
  assumes "om_inv inv abs om" "spec_om_replace (om_spec abs om) i ord = (r, sm)"
  shows "\<exists>om'. om_cancelReplace M om i ord = Some (r, om') \<and> om_inv inv abs om' \<and> om_spec abs om' = sm"
proof -
  note sets = om_inv_sets [OF assms(1)]
  define why where "why = (if i \<notin> om_activeOrderIds om then OrderNotResting
      else if order_id ord \<noteq> i \<or> cannot_rest ord then InvalidReplace
      else if validateNewOrder ord (om_allKnownOrderIds om - {i}) \<noteq> NoReason
      then validateNewOrder ord (om_allKnownOrderIds om - {i})
      else if om_wouldCross om ord then ReplaceWouldCross else NoReason)"
  have why: "replace_reason (om_spec abs om) i ord = why"
    by (simp add: replace_reason_def why_def sets)
  show ?thesis
  proof (cases "why = NoReason")
    case False
    then have "om_cancelReplace M om i ord = Some (reject why, om)" by (rule om_replace_rejects [OF why_def])
    moreover have "(r, sm) = (reject why, om_spec abs om)"
      using assms(2) False by (simp add: spec_om_replace_def Let_def why)
    ultimately show ?thesis using assms(1) by simp
  next
    case True
    then have ok: "i \<in> om_activeOrderIds om" "order_id ord = i" "\<not> cannot_rest ord"
      "validateNewOrder ord (om_allKnownOrderIds om - {i}) = NoReason" "\<not> om_wouldCross om ord"
      by (auto simp: why_def split: if_splits)
    obtain old where old: "om_orders om i = Some old"
      using om_snapshot_resting ok(1) assms(1) by (metis om_inv_def sets(2))
    obtain om' where om': "om_cancelReplace M om i ord = Some (accept, om')" "om_inv inv abs om'"
      "om_orders om' = (om_orders om)(i \<mapsto> ord\<lparr>order_status := New\<rparr>)"
      "if order_price ord = order_price old \<and> order_quantity ord \<le> order_quantity old
       then abs (om_matcher om') = spec_rebuild (om_orders om') (order_side ord) (order_price ord) (abs (om_matcher om)) \<and>
         amended i (ord\<lparr>order_status := New\<rparr>) (abs (om_matcher om)) (abs (om_matcher om'))
       else abs (om_matcher om') = spec_rest (spec_cancel (abs (om_matcher om)) i) (ord\<lparr>order_status := New\<rparr>)"
      using om_replace_refines [OF assms(1) ok old refl] by blast
    have "r = accept" "sm = om_spec abs om'"
      using assms(2) True old om'(3,4)
      by (auto simp: spec_om_replace_def Let_def why om_spec_def [of abs om'] split: if_splits)
    with om'(1,2) show ?thesis by blast
  qed
qed

lemma replace_amended:
  assumes "om_inv inv abs om" "replace_reason (om_spec abs om) i ord = NoReason" "om_orders om i = Some old"
    "order_price ord = order_price old" "order_quantity ord \<le> order_quantity old" "new = ord\<lparr>order_status := New\<rparr>"
  shows "amended i new (abs (om_matcher om))
    (spec_rebuild ((om_orders om)(i \<mapsto> new)) (order_side ord) (order_price ord) (abs (om_matcher om)))"
proof -
  note sets = om_inv_sets [OF assms(1)]
  have ok: "i \<in> om_activeOrderIds om" "order_id ord = i" "\<not> cannot_rest ord"
    "validateNewOrder ord (om_allKnownOrderIds om - {i}) = NoReason" "\<not> om_wouldCross om ord"
    using assms(2) by (auto simp: replace_reason_def sets split: if_splits)
  from om_replace_refines [OF assms(1) ok assms(3,6)] assms(4,5) show ?thesis by auto
qed

end

end
