(* ===== verification/Instrument_Registry.thy ===== *)
theory Instrument_Registry
  imports Reference_Matcher Optimized_Matcher Order_Manager
begin

text \<open>
  \<open>InstrumentRegistry\<close> (\<open>include/titan/exchange/instrument_registry.hpp\<close>,
  \<open>src/exchange/instrument_registry.cpp\<close>): one matcher and one order manager per symbol, and
  the log of everything that happened.  The matcher behind \<open>unique_ptr<IMatcher>\<close> is a value
  of \<open>AnyMatcher\<close> and a virtual call dispatches on its constructor.
\<close>

section \<open>Dynamic dispatch\<close>

datatype AnyMatcher = IsReference ReferenceMatcher | IsOptimized OptimizedMatcher

fun any_addOrder :: "AnyMatcher \<Rightarrow> Order \<Rightarrow> AnyMatcher option" where
  "any_addOrder (IsReference m) ord = map_option IsReference (ref_addOrder m ord)"
| "any_addOrder (IsOptimized m) ord = map_option IsOptimized (opt_addOrder m ord)"

fun any_cancelOrder :: "AnyMatcher \<Rightarrow> OrderId \<Rightarrow> AnyMatcher option" where
  "any_cancelOrder (IsReference m) i = map_option IsReference (ref_cancelOrder m i)"
| "any_cancelOrder (IsOptimized m) i = map_option IsOptimized (opt_cancelOrder m i)"

fun any_matchOrder :: "AnyMatcher \<Rightarrow> Order \<Rightarrow> (Trade list \<times> AnyMatcher) option" where
  "any_matchOrder (IsReference m) ord = map_option (\<lambda>(ts, m'). (ts, IsReference m')) (ref_matchOrder m ord)"
| "any_matchOrder (IsOptimized m) ord = map_option (\<lambda>(ts, m'). (ts, IsOptimized m')) (opt_matchOrder m ord)"

fun any_bestBid :: "AnyMatcher \<Rightarrow> Price" where
  "any_bestBid (IsReference m) = ref_bestBid m"
| "any_bestBid (IsOptimized m) = opt_bestBid m"

fun any_bestAsk :: "AnyMatcher \<Rightarrow> Price" where
  "any_bestAsk (IsReference m) = ref_bestAsk m"
| "any_bestAsk (IsOptimized m) = opt_bestAsk m"

fun any_bidDepth :: "AnyMatcher \<Rightarrow> nat \<Rightarrow> PriceLevel list option" where
  "any_bidDepth (IsReference m) n = ref_bidDepth m n"
| "any_bidDepth (IsOptimized m) n = opt_bidDepth m n"

fun any_askDepth :: "AnyMatcher \<Rightarrow> nat \<Rightarrow> PriceLevel list option" where
  "any_askDepth (IsReference m) n = ref_askDepth m n"
| "any_askDepth (IsOptimized m) n = opt_askDepth m n"

definition AnyMatcher_vtable :: "AnyMatcher IMatcher" where
  "AnyMatcher_vtable =
     \<lparr>vt_addOrder = any_addOrder, vt_cancelOrder = any_cancelOrder, vt_matchOrder = any_matchOrder,
      vt_bestBid = any_bestBid, vt_bestAsk = any_bestAsk,
      vt_bidDepth = any_bidDepth, vt_askDepth = any_askDepth\<rparr>"

fun any_inv :: "AnyMatcher \<Rightarrow> bool" where
  "any_inv (IsReference m) = ref_inv m"
| "any_inv (IsOptimized m) = opt_inv m"

fun any_book :: "AnyMatcher \<Rightarrow> book" where
  "any_book (IsReference m) = ref_book m"
| "any_book (IsOptimized m) = opt_book m"

interpretation any: price_time_matcher AnyMatcher_vtable any_inv any_book
proof
  fix m :: AnyMatcher and ord :: Order and i n
  assume inv: "any_inv m"
  note unfold = AnyMatcher_vtable_def ReferenceMatcher_vtable_def OptimizedMatcher_vtable_def
  show "book_ok (any_book m)" using inv ref.abs_ok opt.abs_ok by (cases m) auto
  show "vt_bestBid AnyMatcher_vtable m = spec_best (any_book m) Buy"
    using inv ref.bestBid_law opt.bestBid_law by (cases m) (auto simp: unfold)
  show "vt_bestAsk AnyMatcher_vtable m = spec_best (any_book m) Sell"
    using inv ref.bestAsk_law opt.bestAsk_law by (cases m) (auto simp: unfold)
  show "vt_bidDepth AnyMatcher_vtable m n = Some (spec_depth (any_book m) Buy n)"
    using inv ref.bidDepth_law opt.bidDepth_law by (cases m) (auto simp: unfold)
  show "vt_askDepth AnyMatcher_vtable m n = Some (spec_depth (any_book m) Sell n)"
    using inv ref.askDepth_law opt.askDepth_law by (cases m) (auto simp: unfold)
  show "\<exists>m'. vt_cancelOrder AnyMatcher_vtable m i = Some m' \<and> any_inv m' \<and> any_book m' = spec_cancel (any_book m) i"
    using inv ref.cancel_law [of _ i] opt.cancel_law [of _ i] by (cases m) (force simp: unfold)+
  assume fresh: "order_id ord \<notin> book_ids (any_book m)"
  show "\<exists>m'. vt_matchOrder AnyMatcher_vtable m ord = Some (fst (spec_match (any_book m) ord), m') \<and>
      any_inv m' \<and> any_book m' = snd (spec_match (any_book m) ord)"
    using inv fresh ref.match_law [of _ ord] opt.match_law [of _ ord] by (cases m) (force simp: unfold)+
  show "\<exists>m'. vt_addOrder AnyMatcher_vtable m ord = Some m' \<and> any_inv m' \<and> any_book m' = snd (spec_match (any_book m) ord)"
    using inv fresh ref.add_law [of _ ord] opt.add_law [of _ ord] by (cases m) (force simp: unfold)+
qed

section \<open>State and operations\<close>

datatype MatcherBackend = Reference | Optimized

type_synonym Manager = "AnyMatcher OrderManager"

record Instrument =
  inst_manager :: Manager
  inst_nextSnapshotSequenceNumber :: u64

record InstrumentRegistry =
  reg_backend :: MatcherBackend
  reg_instruments :: "Symbol \<rightharpoonup> Instrument"
  reg_eventLog :: "Event list"
  reg_nextSequenceNumber :: u64

definition new_InstrumentRegistry :: "MatcherBackend \<Rightarrow> InstrumentRegistry" where
  "new_InstrumentRegistry backend =
     \<lparr>reg_backend = backend, reg_instruments = Map.empty, reg_eventLog = [], reg_nextSequenceNumber = 0\<rparr>"

definition reg_makeMatcher :: "InstrumentRegistry \<Rightarrow> AnyMatcher" where
  "reg_makeMatcher R =
     (if reg_backend R = Optimized then IsOptimized new_OptimizedMatcher else IsReference new_ReferenceMatcher)"

definition reg_createInstrument :: "InstrumentRegistry \<Rightarrow> Symbol \<Rightarrow> InstrumentRegistry" where
  "reg_createInstrument R symbol =
     (if reg_instruments R symbol \<noteq> None then R
      else R\<lparr>reg_instruments := (reg_instruments R)(symbol \<mapsto>
        \<lparr>inst_manager = new_OrderManager (reg_makeMatcher R), inst_nextSnapshotSequenceNumber = 0\<rparr>)\<rparr>)"

definition reg_hasInstrument :: "InstrumentRegistry \<Rightarrow> Symbol \<Rightarrow> bool" where
  "reg_hasInstrument R symbol = (reg_instruments R symbol \<noteq> None)"

definition reg_emit :: "EventPayload \<Rightarrow> InstrumentRegistry \<Rightarrow> InstrumentRegistry" where
  "reg_emit payload R =
     R\<lparr>reg_eventLog := reg_eventLog R @ [\<lparr>event_sequence = reg_nextSequenceNumber R, event_payload = payload\<rparr>],
       reg_nextSequenceNumber := reg_nextSequenceNumber R + 1\<rparr>"

definition reg_put_manager :: "Symbol \<Rightarrow> Instrument \<Rightarrow> Manager \<Rightarrow> InstrumentRegistry \<Rightarrow> InstrumentRegistry" where
  "reg_put_manager symbol inst om R =
     R\<lparr>reg_instruments := (reg_instruments R)(symbol \<mapsto> inst\<lparr>inst_manager := om\<rparr>)\<rparr>"

definition reg_snapshot :: "InstrumentRegistry \<Rightarrow> Symbol \<Rightarrow> nat \<Rightarrow> (BookSnapshot \<times> InstrumentRegistry) option" where
  "reg_snapshot R symbol depth =
     (case reg_instruments R symbol of
        None \<Rightarrow> Some (\<lparr>snap_symbol = symbol, snap_sequence = 0, snap_bids = [], snap_asks = []\<rparr>, R)
      | Some inst \<Rightarrow> do {
          let n = inst_nextSnapshotSequenceNumber inst;
          let R' = R\<lparr>reg_instruments := (reg_instruments R)(symbol \<mapsto> inst\<lparr>inst_nextSnapshotSequenceNumber := n + 1\<rparr>)\<rparr>;
          bids \<leftarrow> vt_bidDepth AnyMatcher_vtable (om_matcher (inst_manager inst)) depth;
          asks \<leftarrow> vt_askDepth AnyMatcher_vtable (om_matcher (inst_manager inst)) depth;
          Some (\<lparr>snap_symbol = symbol, snap_sequence = n, snap_bids = bids, snap_asks = asks\<rparr>, R')
        })"

definition reg_findOrder :: "InstrumentRegistry \<Rightarrow> Symbol \<Rightarrow> OrderId \<Rightarrow> Order option" where
  "reg_findOrder R symbol i =
     (case reg_instruments R symbol of None \<Rightarrow> None | Some inst \<Rightarrow> om_find (inst_manager inst) i)"

definition reg_clearEventLog :: "InstrumentRegistry \<Rightarrow> InstrumentRegistry" where
  "reg_clearEventLog R = R\<lparr>reg_eventLog := []\<rparr>"

definition reg_reset :: "InstrumentRegistry \<Rightarrow> InstrumentRegistry" where
  "reg_reset R = R\<lparr>reg_instruments := Map.empty, reg_eventLog := [], reg_nextSequenceNumber := 0\<rparr>"

definition reg_submitOrder :: "InstrumentRegistry \<Rightarrow> Symbol \<Rightarrow> Order \<Rightarrow> (AcceptResult \<times> InstrumentRegistry) option" where
  "reg_submitOrder R symbol ord =
     (case reg_instruments R symbol of
        None \<Rightarrow> Some (reject UnknownSymbol, reg_emit (OrderRejected symbol (order_id ord) UnknownSymbol) R)
      | Some inst \<Rightarrow> do {
          (result, om) \<leftarrow> om_addOrder AnyMatcher_vtable (inst_manager inst) ord;
          let R' = reg_put_manager symbol inst om R;
          Some (result,
            if accepted result
            then reg_emit (OrderSubmitted symbol (order_id ord) (order_side ord) (order_price ord) (order_quantity ord)) R'
            else reg_emit (OrderRejected symbol (order_id ord) (reason result)) R')
        })"

definition reg_cancelOrder :: "InstrumentRegistry \<Rightarrow> Symbol \<Rightarrow> OrderId \<Rightarrow> (AcceptResult \<times> InstrumentRegistry) option" where
  "reg_cancelOrder R symbol i =
     (case reg_instruments R symbol of
        None \<Rightarrow> Some (reject UnknownSymbol, reg_emit (OrderRejected symbol i UnknownSymbol) R)
      | Some inst \<Rightarrow> do {
          (result, om) \<leftarrow> om_cancelOrder AnyMatcher_vtable (inst_manager inst) i;
          let R' = reg_put_manager symbol inst om R;
          Some (result,
            if accepted result then reg_emit (OrderCancelled symbol i) R'
            else reg_emit (OrderRejected symbol i (reason result)) R')
        })"

definition trade_event :: "Symbol \<Rightarrow> Trade \<Rightarrow> EventPayload" where
  "trade_event symbol t =
     TradeExecuted symbol (trade_incoming t) (trade_resting t) (trade_price t) (trade_quantity t)"

definition reg_matchOrder :: "InstrumentRegistry \<Rightarrow> Symbol \<Rightarrow> Order \<Rightarrow> (Trade list \<times> InstrumentRegistry) option" where
  "reg_matchOrder R symbol ord =
     (case reg_instruments R symbol of
        None \<Rightarrow> Some ([], reg_emit (OrderRejected symbol (order_id ord) UnknownSymbol) R)
      | Some inst \<Rightarrow> do {
          (result, om) \<leftarrow> om_matchOrder AnyMatcher_vtable (inst_manager inst) ord;
          let R1 = reg_put_manager symbol inst om R;
          let R2 = (if accepted (mr_accept result)
            then reg_emit (OrderSubmitted symbol (order_id ord) (order_side ord) (order_price ord) (order_quantity ord)) R1
            else reg_emit (OrderRejected symbol (order_id ord) (reason (mr_accept result))) R1);
          Some (mr_trades result, fold (\<lambda>t. reg_emit (trade_event symbol t)) (mr_trades result) R2)
        })"

definition reg_cancelReplace ::
  "InstrumentRegistry \<Rightarrow> Symbol \<Rightarrow> OrderId \<Rightarrow> Order \<Rightarrow> (AcceptResult \<times> InstrumentRegistry) option" where
  "reg_cancelReplace R symbol oldId newOrder =
     (case reg_instruments R symbol of
        None \<Rightarrow> Some (reject UnknownSymbol, reg_emit (OrderRejected symbol oldId UnknownSymbol) R)
      | Some inst \<Rightarrow> do {
          (result, om) \<leftarrow> om_cancelReplace AnyMatcher_vtable (inst_manager inst) oldId newOrder;
          let R' = reg_put_manager symbol inst om R;
          Some (result,
            if accepted result
            then reg_emit (OrderReplaced symbol oldId (order_price newOrder) (order_quantity newOrder)) R'
            else reg_emit (OrderRejected symbol oldId (reason result)) R')
        })"

section \<open>Sequences of calls\<close>

text \<open>The public interface as data, so that a session is a list of calls.\<close>

datatype RegistryCall =
    CreateInstrument Symbol
  | SubmitOrder Symbol Order
  | CancelOrder Symbol OrderId
  | MatchOrder Symbol Order
  | CancelReplace Symbol OrderId Order
  | Snapshot Symbol nat
  | FindOrder Symbol OrderId
  | ClearEventLog
  | Reset

datatype Reply =
    Done
  | Accepted AcceptResult
  | Traded "Trade list"
  | Snapped BookSnapshot
  | Found "Order option"

fun reg_call :: "InstrumentRegistry \<Rightarrow> RegistryCall \<Rightarrow> (Reply \<times> InstrumentRegistry) option" where
  "reg_call R (CreateInstrument symbol) = Some (Done, reg_createInstrument R symbol)"
| "reg_call R (SubmitOrder symbol ord) = map_option (map_prod Accepted id) (reg_submitOrder R symbol ord)"
| "reg_call R (CancelOrder symbol i) = map_option (map_prod Accepted id) (reg_cancelOrder R symbol i)"
| "reg_call R (MatchOrder symbol ord) = map_option (map_prod Traded id) (reg_matchOrder R symbol ord)"
| "reg_call R (CancelReplace symbol i ord) = map_option (map_prod Accepted id) (reg_cancelReplace R symbol i ord)"
| "reg_call R (Snapshot symbol n) = map_option (map_prod Snapped id) (reg_snapshot R symbol n)"
| "reg_call R (FindOrder symbol i) = Some (Found (reg_findOrder R symbol i), R)"
| "reg_call R ClearEventLog = Some (Done, reg_clearEventLog R)"
| "reg_call R Reset = Some (Done, reg_reset R)"

fun reg_run :: "InstrumentRegistry \<Rightarrow> RegistryCall list \<Rightarrow> (Reply list \<times> InstrumentRegistry) option" where
  "reg_run R [] = Some ([], R)"
| "reg_run R (c # cs) = do { (r, R1) \<leftarrow> reg_call R c; (rs, R2) \<leftarrow> reg_run R1 cs; Some (r # rs, R2) }"

section \<open>The abstract exchange\<close>

text \<open>Per symbol a specified manager and the snapshot counter, and the event log.  No backend.\<close>

record Exchange =
  ex_instruments :: "Symbol \<rightharpoonup> SpecManager \<times> u64"
  ex_log :: "Event list"
  ex_next :: u64

definition empty_Exchange :: Exchange where
  "empty_Exchange = \<lparr>ex_instruments = Map.empty, ex_log = [], ex_next = 0\<rparr>"

definition ex_emit :: "EventPayload \<Rightarrow> Exchange \<Rightarrow> Exchange" where
  "ex_emit payload E =
     E\<lparr>ex_log := ex_log E @ [\<lparr>event_sequence = ex_next E, event_payload = payload\<rparr>], ex_next := ex_next E + 1\<rparr>"

text \<open>Every order-entry call: look the symbol up, let the manager answer, log what it said.\<close>

definition ex_route :: "Symbol \<Rightarrow> OrderId \<Rightarrow> (SpecManager \<Rightarrow> MatchResult \<times> SpecManager) \<Rightarrow> EventPayload \<Rightarrow> Exchange \<Rightarrow> MatchResult \<times> Exchange" where
  "ex_route symbol i f ok E =
     (case ex_instruments E symbol of
        None \<Rightarrow> (\<lparr>mr_trades = [], mr_accept = reject UnknownSymbol\<rparr>, ex_emit (OrderRejected symbol i UnknownSymbol) E)
      | Some (sm, n) \<Rightarrow>
          (case f sm of (r, sm') \<Rightarrow>
             (r, fold (\<lambda>t. ex_emit (trade_event symbol t)) (mr_trades r)
                   (ex_emit (if accepted (mr_accept r) then ok else OrderRejected symbol i (reason (mr_accept r)))
                     (E\<lparr>ex_instruments := (ex_instruments E)(symbol \<mapsto> (sm', n))\<rparr>)))))"

definition no_trades :: "AcceptResult \<times> SpecManager \<Rightarrow> MatchResult \<times> SpecManager" where
  "no_trades = map_prod (\<lambda>a. \<lparr>mr_trades = [], mr_accept = a\<rparr>) id"

definition submitted_event :: "Symbol \<Rightarrow> Order \<Rightarrow> EventPayload" where
  "submitted_event symbol ord = OrderSubmitted symbol (order_id ord) (order_side ord) (order_price ord) (order_quantity ord)"

fun ex_call :: "Exchange \<Rightarrow> RegistryCall \<Rightarrow> Reply \<times> Exchange" where
  "ex_call E (CreateInstrument symbol) =
     (Done, if ex_instruments E symbol \<noteq> None then E
            else E\<lparr>ex_instruments := (ex_instruments E)(symbol \<mapsto> (\<lparr>sm_book = empty_book, sm_orders = Map.empty\<rparr>, 0))\<rparr>)"
| "ex_call E (SubmitOrder symbol ord) = map_prod (Accepted \<circ> mr_accept) id
     (ex_route symbol (order_id ord) (\<lambda>sm. no_trades (spec_om_add sm ord)) (submitted_event symbol ord) E)"
| "ex_call E (CancelOrder symbol i) = map_prod (Accepted \<circ> mr_accept) id
     (ex_route symbol i (\<lambda>sm. no_trades (spec_om_cancel sm i)) (OrderCancelled symbol i) E)"
| "ex_call E (MatchOrder symbol ord) = map_prod (Traded \<circ> mr_trades) id
     (ex_route symbol (order_id ord) (\<lambda>sm. spec_om_match sm ord) (submitted_event symbol ord) E)"
| "ex_call E (CancelReplace symbol i ord) = map_prod (Accepted \<circ> mr_accept) id
     (ex_route symbol i (\<lambda>sm. no_trades (spec_om_replace sm i ord)) (OrderReplaced symbol i (order_price ord) (order_quantity ord)) E)"
| "ex_call E (Snapshot symbol n) =
     (case ex_instruments E symbol of
        None \<Rightarrow> (Snapped \<lparr>snap_symbol = symbol, snap_sequence = 0, snap_bids = [], snap_asks = []\<rparr>, E)
      | Some (sm, k) \<Rightarrow>
          (Snapped \<lparr>snap_symbol = symbol, snap_sequence = k, snap_bids = spec_depth (sm_book sm) Buy n,
                    snap_asks = spec_depth (sm_book sm) Sell n\<rparr>,
           E\<lparr>ex_instruments := (ex_instruments E)(symbol \<mapsto> (sm, k + 1))\<rparr>))"
| "ex_call E (FindOrder symbol i) =
     (Found (case ex_instruments E symbol of None \<Rightarrow> None | Some (sm, _) \<Rightarrow> sm_orders sm i), E)"
| "ex_call E ClearEventLog = (Done, E\<lparr>ex_log := []\<rparr>)"
| "ex_call E Reset = (Done, empty_Exchange)"

fun ex_run :: "Exchange \<Rightarrow> RegistryCall list \<Rightarrow> Reply list \<times> Exchange" where
  "ex_run E [] = ([], E)"
| "ex_run E (c # cs) = (case ex_call E c of (r, E1) \<Rightarrow> case ex_run E1 cs of (rs, E2) \<Rightarrow> (r # rs, E2))"

section \<open>Refinement\<close>

definition reg_inv :: "InstrumentRegistry \<Rightarrow> bool" where
  "reg_inv R \<longleftrightarrow> (\<forall>symbol inst. reg_instruments R symbol = Some inst \<longrightarrow> om_inv any_inv any_book (inst_manager inst))"

definition inst_spec :: "Instrument \<Rightarrow> SpecManager \<times> u64" where
  "inst_spec inst = (om_spec any_book (inst_manager inst), inst_nextSnapshotSequenceNumber inst)"

definition reg_spec :: "InstrumentRegistry \<Rightarrow> Exchange" where
  "reg_spec R = \<lparr>ex_instruments = (\<lambda>symbol. map_option inst_spec (reg_instruments R symbol)),
     ex_log = reg_eventLog R, ex_next = reg_nextSequenceNumber R\<rparr>"

lemma reg_spec_emit [simp]: "reg_spec (reg_emit p R) = ex_emit p (reg_spec R)"
  by (simp add: reg_spec_def reg_emit_def ex_emit_def)

lemma reg_inv_emit [simp]: "reg_inv (reg_emit p R) = reg_inv R"
  by (simp add: reg_inv_def reg_emit_def)

lemma reg_emits [simp]:
  "reg_spec (fold (\<lambda>t. reg_emit (f t)) ts R) = fold (\<lambda>t. ex_emit (f t)) ts (reg_spec R)"
  "reg_inv (fold (\<lambda>t. reg_emit (f t)) ts R) = reg_inv R"
  by (induction ts arbitrary: R) simp_all

lemma reg_put:
  assumes "reg_inv R" "reg_instruments R symbol = Some inst" "om_inv any_inv any_book om"
  shows "reg_inv (reg_put_manager symbol inst om R)"
    "reg_spec (reg_put_manager symbol inst om R) = (reg_spec R)\<lparr>ex_instruments :=
       (ex_instruments (reg_spec R))(symbol \<mapsto> (om_spec any_book om, inst_nextSnapshotSequenceNumber inst))\<rparr>"
  using assms by (auto simp: reg_inv_def reg_put_manager_def reg_spec_def inst_spec_def fun_eq_iff)

lemma reg_lookup:
  "ex_instruments (reg_spec R) symbol = map_option inst_spec (reg_instruments R symbol)"
  by (simp add: reg_spec_def)

lemma new_manager:
  "om_inv any_inv any_book (new_OrderManager (reg_makeMatcher R))"
  "om_spec any_book (new_OrderManager (reg_makeMatcher R)) = \<lparr>sm_book = empty_book, sm_orders = Map.empty\<rparr>"
proof -
  have "any_inv (reg_makeMatcher R)" "any_book (reg_makeMatcher R) = empty_book"
    using ref_inv_new opt_inv_new by (simp_all add: reg_makeMatcher_def)
  then show "om_inv any_inv any_book (new_OrderManager (reg_makeMatcher R))"
    "om_spec any_book (new_OrderManager (reg_makeMatcher R)) = \<lparr>sm_book = empty_book, sm_orders = Map.empty\<rparr>"
    using any.om_inv_new by (auto simp: om_spec_def new_OrderManager_def)
qed

lemma reg_submit_refines:
  assumes "reg_inv R"
  shows "\<exists>r R'. reg_submitOrder R symbol ord = Some (r, R') \<and> reg_inv R' \<and>
    ex_call (reg_spec R) (SubmitOrder symbol ord) = (Accepted r, reg_spec R')"
proof (cases "reg_instruments R symbol")
  case None
  with assms show ?thesis by (simp add: reg_submitOrder_def ex_route_def reg_lookup)
next
  case (Some inst)
  then have iv: "om_inv any_inv any_book (inst_manager inst)" using assms by (auto simp: reg_inv_def)
  obtain r sm where sp: "spec_om_add (om_spec any_book (inst_manager inst)) ord = (r, sm)" by (metis surj_pair)
  obtain om where "om_addOrder AnyMatcher_vtable (inst_manager inst) ord = Some (r, om)"
    "om_inv any_inv any_book om" "om_spec any_book om = sm"
    using any.om_addOrder_spec [OF iv sp] by blast
  with Some sp reg_put [OF assms Some] show ?thesis
    by (simp add: reg_submitOrder_def ex_route_def reg_lookup inst_spec_def no_trades_def submitted_event_def)
qed

lemma reg_cancel_refines:
  assumes "reg_inv R"
  shows "\<exists>r R'. reg_cancelOrder R symbol i = Some (r, R') \<and> reg_inv R' \<and>
    ex_call (reg_spec R) (CancelOrder symbol i) = (Accepted r, reg_spec R')"
proof (cases "reg_instruments R symbol")
  case None
  with assms show ?thesis by (simp add: reg_cancelOrder_def ex_route_def reg_lookup)
next
  case (Some inst)
  then have iv: "om_inv any_inv any_book (inst_manager inst)" using assms by (auto simp: reg_inv_def)
  obtain r sm where sp: "spec_om_cancel (om_spec any_book (inst_manager inst)) i = (r, sm)" by (metis surj_pair)
  obtain om where "om_cancelOrder AnyMatcher_vtable (inst_manager inst) i = Some (r, om)"
    "om_inv any_inv any_book om" "om_spec any_book om = sm"
    using any.om_cancelOrder_spec [OF iv sp] by blast
  with Some sp reg_put [OF assms Some] show ?thesis
    by (simp add: reg_cancelOrder_def ex_route_def reg_lookup inst_spec_def no_trades_def)
qed

lemma reg_match_refines:
  assumes "reg_inv R"
  shows "\<exists>ts R'. reg_matchOrder R symbol ord = Some (ts, R') \<and> reg_inv R' \<and>
    ex_call (reg_spec R) (MatchOrder symbol ord) = (Traded ts, reg_spec R')"
proof (cases "reg_instruments R symbol")
  case None
  with assms show ?thesis by (simp add: reg_matchOrder_def ex_route_def reg_lookup)
next
  case (Some inst)
  then have iv: "om_inv any_inv any_book (inst_manager inst)" using assms by (auto simp: reg_inv_def)
  obtain r sm where sp: "spec_om_match (om_spec any_book (inst_manager inst)) ord = (r, sm)" by (metis surj_pair)
  obtain om where "om_matchOrder AnyMatcher_vtable (inst_manager inst) ord = Some (r, om)"
    "om_inv any_inv any_book om" "om_spec any_book om = sm"
    using any.om_matchOrder_spec [OF iv sp] by blast
  with Some sp reg_put [OF assms Some] show ?thesis
    by (simp add: reg_matchOrder_def ex_route_def reg_lookup inst_spec_def submitted_event_def Let_def)
qed

lemma reg_replace_refines:
  assumes "reg_inv R"
  shows "\<exists>r R'. reg_cancelReplace R symbol i ord = Some (r, R') \<and> reg_inv R' \<and>
    ex_call (reg_spec R) (CancelReplace symbol i ord) = (Accepted r, reg_spec R')"
proof (cases "reg_instruments R symbol")
  case None
  with assms show ?thesis by (simp add: reg_cancelReplace_def ex_route_def reg_lookup)
next
  case (Some inst)
  then have iv: "om_inv any_inv any_book (inst_manager inst)" using assms by (auto simp: reg_inv_def)
  obtain r sm where sp: "spec_om_replace (om_spec any_book (inst_manager inst)) i ord = (r, sm)" by (metis surj_pair)
  obtain om where "om_cancelReplace AnyMatcher_vtable (inst_manager inst) i ord = Some (r, om)"
    "om_inv any_inv any_book om" "om_spec any_book om = sm"
    using any.om_cancelReplace_spec [OF iv sp] by blast
  with Some sp reg_put [OF assms Some] show ?thesis
    by (simp add: reg_cancelReplace_def ex_route_def reg_lookup inst_spec_def no_trades_def)
qed

lemma reg_snapshot_refines:
  assumes "reg_inv R"
  shows "\<exists>s R'. reg_snapshot R symbol n = Some (s, R') \<and> reg_inv R' \<and>
    ex_call (reg_spec R) (Snapshot symbol n) = (Snapped s, reg_spec R')"
proof (cases "reg_instruments R symbol")
  case None
  with assms show ?thesis by (simp add: reg_snapshot_def reg_lookup)
next
  case (Some inst)
  then have "any_inv (om_matcher (inst_manager inst))" "om_inv any_inv any_book (inst_manager inst)"
    using assms by (auto simp: reg_inv_def om_inv_def)
  with Some assms any.bidDepth_law any.askDepth_law show ?thesis
    by (auto simp: reg_snapshot_def Let_def reg_lookup inst_spec_def reg_inv_def reg_spec_def fun_eq_iff)
qed

lemma reg_call_refines:
  assumes "reg_inv R"
  shows "\<exists>r R'. reg_call R c = Some (r, R') \<and> reg_inv R' \<and> ex_call (reg_spec R) c = (r, reg_spec R')"
proof (cases c)
  case (CreateInstrument symbol)
  have "reg_inv (reg_createInstrument R symbol)"
    using assms new_manager(1) by (auto simp: reg_createInstrument_def reg_inv_def)
  moreover have "reg_spec (reg_createInstrument R symbol) = snd (ex_call (reg_spec R) c)"
    using new_manager(2) by (auto simp: CreateInstrument reg_createInstrument_def reg_spec_def inst_spec_def fun_eq_iff)
  ultimately show ?thesis by (simp add: CreateInstrument)
next
  case (SubmitOrder symbol ord)
  then show ?thesis using reg_submit_refines [OF assms, of symbol ord] by auto
next
  case (CancelOrder symbol i)
  then show ?thesis using reg_cancel_refines [OF assms, of symbol i] by auto
next
  case (MatchOrder symbol ord)
  then show ?thesis using reg_match_refines [OF assms, of symbol ord] by auto
next
  case (CancelReplace symbol i ord)
  then show ?thesis using reg_replace_refines [OF assms, of symbol i ord] by auto
next
  case (Snapshot symbol n)
  then show ?thesis using reg_snapshot_refines [OF assms, of symbol n] by auto
next
  case (FindOrder symbol i)
  then show ?thesis using assms
    by (auto simp: reg_findOrder_def reg_lookup inst_spec_def om_find_def split: option.splits)
next
  case ClearEventLog
  then show ?thesis using assms by (simp add: reg_clearEventLog_def reg_inv_def reg_spec_def)
next
  case Reset
  then show ?thesis by (simp add: reg_reset_def reg_inv_def reg_spec_def empty_Exchange_def)
qed

lemma reg_run_refines:
  assumes "reg_inv R"
  shows "\<exists>rs R'. reg_run R cs = Some (rs, R') \<and> reg_inv R' \<and> ex_run (reg_spec R) cs = (rs, reg_spec R')"
  using assms
proof (induction cs arbitrary: R)
  case (Cons c cs)
  obtain r R1 where 1: "reg_call R c = Some (r, R1)" "reg_inv R1" "ex_call (reg_spec R) c = (r, reg_spec R1)"
    using reg_call_refines [OF Cons.prems] by blast
  from Cons.IH [OF 1(2)] 1 show ?case by auto
qed simp

lemma reg_inv_new [simp]: "reg_inv (new_InstrumentRegistry backend)"
  "reg_spec (new_InstrumentRegistry backend) = empty_Exchange"
  by (simp_all add: reg_inv_def new_InstrumentRegistry_def reg_spec_def empty_Exchange_def)

section \<open>Sessions\<close>

text \<open>The book of a symbol, as a session has left it.\<close>

definition reg_book :: "InstrumentRegistry \<Rightarrow> Symbol \<Rightarrow> book" where
  "reg_book R symbol =
     (case reg_instruments R symbol of None \<Rightarrow> empty_book | Some inst \<Rightarrow> any_book (om_matcher (inst_manager inst)))"

lemma session:
  assumes "reg_run (new_InstrumentRegistry backend) cs = Some (rs, R)"
  shows "reg_inv R" "ex_run empty_Exchange cs = (rs, reg_spec R)"
proof -
  obtain rs' R' where "reg_run (new_InstrumentRegistry backend) cs = Some (rs', R')" "reg_inv R'"
    "ex_run empty_Exchange cs = (rs', reg_spec R')"
    using reg_run_refines [of "new_InstrumentRegistry backend" cs] by auto
  with assms show "reg_inv R" "ex_run empty_Exchange cs = (rs, reg_spec R)" by auto
qed

lemma reg_instD:
  assumes "reg_inv R" "reg_instruments R symbol = Some inst"
  shows "om_inv any_inv any_book (inst_manager inst)"
    "om_link (reg_book R symbol) (inst_manager inst)" "book_ok (reg_book R symbol)"
    "om_orders (inst_manager inst) = reg_findOrder R symbol"
    "om_spec any_book (inst_manager inst) = \<lparr>sm_book = reg_book R symbol, sm_orders = reg_findOrder R symbol\<rparr>"
proof -
  show inv: "om_inv any_inv any_book (inst_manager inst)" using assms by (auto simp: reg_inv_def)
  then show "om_link (reg_book R symbol) (inst_manager inst)" "book_ok (reg_book R symbol)"
    using assms(2) any.om_inv_sets(4) by (auto simp: om_inv_def reg_book_def)
  show "om_orders (inst_manager inst) = reg_findOrder R symbol"
    using assms(2) by (auto simp: reg_findOrder_def om_find_def fun_eq_iff)
  then show "om_spec any_book (inst_manager inst) = \<lparr>sm_book = reg_book R symbol, sm_orders = reg_findOrder R symbol\<rparr>"
    using assms(2) by (simp add: om_spec_def reg_book_def)
qed

lemma reg_book_ok: "reg_inv R \<Longrightarrow> book_ok (reg_book R symbol)"
  using reg_instD(3) by (cases "reg_instruments R symbol") (auto simp: reg_book_def)

lemma reg_resting:
  assumes "reg_inv R" "r \<in> set (reg_book R symbol s)"
  shows "\<exists>x. reg_findOrder R symbol (order_id r) = Some x \<and> same_order x r \<and> resting_status (order_status x)"
    "\<not> cannot_rest r \<and> order_price r \<noteq> 0 \<and> order_quantity r \<noteq> 0"
proof -
  obtain inst where i: "reg_instruments R symbol = Some inst"
    using assms(2) by (cases "reg_instruments R symbol") (auto simp: reg_book_def empty_book_def)
  note I = reg_instD [OF assms(1) i]
  obtain x where x: "om_orders (inst_manager inst) (order_id r) = Some x" "same_order x r"
    using om_linkD(4) [OF I(2) assms(2)] by blast
  with om_linkD(6) [OF I(2) x(1)] in_book_ids [where b = "reg_book R symbol", OF assms(2)]
  show "\<exists>x. reg_findOrder R symbol (order_id r) = Some x \<and> same_order x r \<and> resting_status (order_status x)"
    by (auto simp: I(4))
  show "\<not> cannot_rest r \<and> order_price r \<noteq> 0 \<and> order_quantity r \<noteq> 0"
    using om_linkD(5) [OF I(2) assms(2)] book_ok_queue [OF I(3), of s] assms(2) by (auto simp: queue_ok_def)
qed

lemma reg_view_of_spec:
  "reg_book R symbol = (case ex_instruments (reg_spec R) symbol of None \<Rightarrow> empty_book | Some (sm, _) \<Rightarrow> sm_book sm)"
  "reg_findOrder R symbol i = (case ex_instruments (reg_spec R) symbol of None \<Rightarrow> None | Some (sm, _) \<Rightarrow> sm_orders sm i)"
  by (auto simp: reg_book_def reg_findOrder_def reg_lookup inst_spec_def om_find_def split: option.splits)

lemma ex_emits_instruments [simp]:
  "ex_instruments (ex_emit p E) = ex_instruments E"
  "ex_instruments (fold (\<lambda>t. ex_emit (f t)) ts E) = ex_instruments E"
  by (simp add: ex_emit_def) (induction ts arbitrary: E; simp add: ex_emit_def)

text \<open>What one \<open>matchOrder\<close> call does to the book it is sent to.\<close>

lemma reg_match_book:
  assumes "reg_inv R" "reg_matchOrder R symbol ord = Some (ts, R')"
  obtains (refused) "ts = []" "reg_book R' = reg_book R" "reg_findOrder R' = reg_findOrder R"
      "reg_instruments R symbol = None \<or> validateNewOrder ord (dom (reg_findOrder R symbol)) \<noteq> NoReason"
  | (matched) left where "spec_submit (reg_book R symbol) ord = (ts, reg_book R' symbol, left)"
      "validateNewOrder ord (dom (reg_findOrder R symbol)) = NoReason" "reg_instruments R symbol \<noteq> None"
      "reg_findOrder R' symbol = (fold book_trade ts (reg_findOrder R symbol))(order_id ord \<mapsto> ord\<lparr>order_quantity := left,
         order_status := final_status (order_quantity ord) left (order_id ord \<in> book_ids (reg_book R' symbol))\<rparr>)"
proof -
  have ex: "ex_call (reg_spec R) (MatchOrder symbol ord) = (Traded ts, reg_spec R')"
    using reg_match_refines [OF assms(1), of symbol ord] assms(2) by auto
  show ?thesis
  proof (cases "reg_instruments R symbol")
    case None
    with ex have "ts = []" "ex_instruments (reg_spec R') = ex_instruments (reg_spec R)"
      by (auto simp: ex_route_def reg_lookup) (metis ex_emits_instruments(1))
    with None refused show ?thesis by (simp add: reg_view_of_spec fun_eq_iff)
  next
    case (Some inst)
    let ?sm = "\<lparr>sm_book = reg_book R symbol, sm_orders = reg_findOrder R symbol\<rparr>"
    have look: "ex_instruments (reg_spec R) symbol = Some (?sm, inst_nextSnapshotSequenceNumber inst)"
      using Some reg_instD(5) [OF assms(1) Some] by (simp add: reg_lookup inst_spec_def)
    obtain r sm' where sp: "spec_om_match ?sm ord = (r, sm')" by (metis surj_pair)
    from ex have ts: "ts = mr_trades r" by (simp add: ex_route_def look sp)
    from ex have "ex_instruments (reg_spec R') = ex_instruments (snd (ex_call (reg_spec R) (MatchOrder symbol ord)))" by simp
    then have inst': "ex_instruments (reg_spec R') =
        (ex_instruments (reg_spec R))(symbol \<mapsto> (sm', inst_nextSnapshotSequenceNumber inst))"
      by (simp add: ex_route_def look sp)
    show ?thesis
    proof (cases "validateNewOrder ord (dom (reg_findOrder R symbol)) = NoReason")
      case False
      with sp have "mr_trades r = []" "sm' = ?sm" by (auto simp: spec_om_match_def)
      moreover from this inst' look have "ex_instruments (reg_spec R') = ex_instruments (reg_spec R)"
        by (simp add: fun_upd_idem)
      ultimately show ?thesis using False ts refused by (simp add: reg_view_of_spec fun_eq_iff)
    next
      case True
      obtain ts' b' left where sub: "spec_submit (reg_book R symbol) ord = (ts', b', left)" by (metis prod_cases3)
      with sp True have "ts = ts'" "sm_book sm' = b'" "sm_orders sm' = (fold book_trade ts' (reg_findOrder R symbol))
          (order_id ord \<mapsto> ord\<lparr>order_quantity := left,
             order_status := final_status (order_quantity ord) left (order_id ord \<in> book_ids b')\<rparr>)"
        by (auto simp: spec_om_match_def ts)
      moreover have "reg_book R' symbol = sm_book sm'" "reg_findOrder R' symbol = sm_orders sm'"
        by (auto simp: reg_view_of_spec inst')
      ultimately show ?thesis using sub True Some matched [of left] by simp
    qed
  qed
qed

lemma spec_submit_parts:
  assumes "spec_submit b ord = (ts, b', left)" "s = order_side ord"
  obtains q where
    "stp_sweep s (effective_price ord) (order_id ord) (order_accountId ord) (order_quantity ord) (b (opposite s)) = (ts, q, left)"
    "b' = (if may_rest (b(opposite s := q)) ord left then spec_rest (b(opposite s := q)) (remainder ord left)
           else b(opposite s := q))"
  using assms by (auto simp: spec_submit_def Let_def split: prod.splits)

section \<open>The event log\<close>

text \<open>Sequence numbers count up by one per event and are never reused, cleared log or not.\<close>

definition numbered :: "Event list \<Rightarrow> u64 \<Rightarrow> bool" where
  "numbered log next \<longleftrightarrow> (\<exists>n. map event_sequence log = map (\<lambda>k. n + of_nat k) [0..<length log] \<and>
     next = n + of_nat (length log))"

lemma numbered_emit: "numbered (ex_log E) (ex_next E) \<Longrightarrow> numbered (ex_log (ex_emit p E)) (ex_next (ex_emit p E))"
  by (auto simp: numbered_def ex_emit_def)

lemma numbered_emits:
  assumes "numbered (ex_log E) (ex_next E)"
  shows "numbered (ex_log (fold (\<lambda>t. ex_emit (f t)) ts E)) (ex_next (fold (\<lambda>t. ex_emit (f t)) ts E))"
  using assms by (induction ts arbitrary: E) (simp_all add: numbered_emit)

lemma numbered_route:
  assumes "numbered (ex_log E) (ex_next E)" "ex_route symbol i f ok E = (r, E')"
  shows "numbered (ex_log E') (ex_next E')"
proof (cases "ex_instruments E symbol")
  case None
  with assms show ?thesis by (auto simp: ex_route_def numbered_emit)
next
  case (Some e)
  obtain sm n r' sm' where e: "e = (sm, n)" "f sm = (r', sm')" by (metis surj_pair)
  let ?E = "E\<lparr>ex_instruments := (ex_instruments E)(symbol \<mapsto> (sm', n))\<rparr>"
  have "numbered (ex_log ?E) (ex_next ?E)" using assms(1) by simp
  from numbered_emits [OF numbered_emit [OF this]] assms(2) Some e show ?thesis
    by (auto simp: ex_route_def)
qed

lemma numbered_call:
  assumes "numbered (ex_log E) (ex_next E)" "ex_call E c = (r, E')"
  shows "numbered (ex_log E') (ex_next E')"
proof (cases c)
  case ClearEventLog
  with assms(2) show ?thesis by (auto simp: numbered_def)
next
  case Reset
  with assms(2) show ?thesis by (auto simp: numbered_def empty_Exchange_def)
qed (use assms numbered_route in \<open>auto simp: map_prod_def split: option.splits if_splits prod.splits\<close>)

lemma numbered_run:
  assumes "numbered (ex_log E) (ex_next E)" "ex_run E cs = (rs, E')"
  shows "numbered (ex_log E') (ex_next E')"
  using assms
proof (induction cs arbitrary: E rs)
  case (Cons c cs)
  obtain r E1 where c: "ex_call E c = (r, E1)" by (metis surj_pair)
  obtain rs' where "ex_run E1 cs = (rs', E')" using Cons.prems(2) c by (auto split: prod.splits)
  with Cons.IH numbered_call [OF Cons.prems(1) c] show ?case by blast
qed simp

lemma reg_emit_log [simp]:
  "map event_payload (reg_eventLog (reg_emit p R)) = map event_payload (reg_eventLog R) @ [p]"
  "map event_payload (reg_eventLog (fold (\<lambda>t. reg_emit (f t)) ts R)) = map event_payload (reg_eventLog R) @ map f ts"
  "reg_eventLog (reg_put_manager symbol inst om R) = reg_eventLog R"
proof -
  show one: "map event_payload (reg_eventLog (reg_emit p R)) = map event_payload (reg_eventLog R) @ [p]" for p R
    by (simp add: reg_emit_def)
  show "map event_payload (reg_eventLog (fold (\<lambda>t. reg_emit (f t)) ts R)) = map event_payload (reg_eventLog R) @ map f ts"
    by (induction ts arbitrary: R) (simp_all add: one)
qed (simp add: reg_put_manager_def)

lemma reg_trade:
  assumes "reg_inv R" "reg_matchOrder R symbol ord = Some (ts, R')" "t \<in> set ts"
  shows "trade_incoming t = order_id ord \<and> crosses (order_side ord) (effective_price ord) (trade_price t) \<and>
    trade_quantity t \<noteq> 0 \<and>
    (\<exists>r\<in>set (reg_book R symbol (opposite (order_side ord))). order_id r = trade_resting t \<and>
       order_price r = trade_price t \<and> \<not> collides (order_accountId ord) r)"
proof (rule reg_match_book [OF assms(1,2)])
  assume "ts = []"
  with assms(3) show ?thesis by simp
next
  fix left assume sub: "spec_submit (reg_book R symbol) ord = (ts, reg_book R' symbol, left)"
  obtain q where sw: "stp_sweep (order_side ord) (effective_price ord) (order_id ord) (order_accountId ord)
      (order_quantity ord) (reg_book R symbol (opposite (order_side ord))) = (ts, q, left)"
    using spec_submit_parts [OF sub refl] by metis
  have "\<forall>r\<in>set (reg_book R symbol (opposite (order_side ord))). order_quantity r \<noteq> 0"
    using reg_resting(2) [OF assms(1)] by blast
  from stp_sweep_trades [OF sw this assms(3)] show ?thesis by blast
qed

text \<open>Whatever the call, the manager's answer is the reply and the new view of the symbol.\<close>

lemma ex_route_view:
  assumes "reg_inv R" "reg_instruments R symbol \<noteq> None"
    "f \<lparr>sm_book = reg_book R symbol, sm_orders = reg_findOrder R symbol\<rparr> = (r, sm)"
    "ex_route symbol i f ok (reg_spec R) = (r', reg_spec R')"
  shows "r' = r" "reg_book R' = (reg_book R)(symbol := sm_book sm)"
    "reg_findOrder R' = (reg_findOrder R)(symbol := sm_orders sm)"
proof -
  obtain inst where i: "reg_instruments R symbol = Some inst" using assms(2) by auto
  have look: "ex_instruments (reg_spec R) symbol = Some (\<lparr>sm_book = reg_book R symbol, sm_orders = reg_findOrder R symbol\<rparr>,
      inst_nextSnapshotSequenceNumber inst)"
    using reg_instD(5) [OF assms(1) i] i by (simp add: reg_lookup inst_spec_def)
  show "r' = r" using assms(3,4) by (simp add: ex_route_def look)
  have "ex_instruments (reg_spec R') = ex_instruments (snd (ex_route symbol i f ok (reg_spec R)))" by (simp add: assms(4))
  then have "ex_instruments (reg_spec R') = (ex_instruments (reg_spec R))(symbol \<mapsto> (sm, inst_nextSnapshotSequenceNumber inst))"
    using assms(3) by (simp add: ex_route_def look)
  then show "reg_book R' = (reg_book R)(symbol := sm_book sm)"
    "reg_findOrder R' = (reg_findOrder R)(symbol := sm_orders sm)"
    by (auto simp: reg_view_of_spec fun_eq_iff)
qed

lemma map_prod_eq: "map_prod f id x = (a, b) \<longleftrightarrow> (\<exists>c. x = (c, b) \<and> f c = a)"
  by (cases x) auto

lemma reg_cancel_view:
  assumes "reg_inv R" "reg_instruments R symbol \<noteq> None" "reg_cancelOrder R symbol i = Some (r, R')"
    "spec_om_cancel \<lparr>sm_book = reg_book R symbol, sm_orders = reg_findOrder R symbol\<rparr> i = (r', sm)"
  shows "r = r'" "reg_book R' = (reg_book R)(symbol := sm_book sm)"
    "reg_findOrder R' = (reg_findOrder R)(symbol := sm_orders sm)"
proof -
  obtain m where "ex_route symbol i (\<lambda>sm. no_trades (spec_om_cancel sm i)) (OrderCancelled symbol i) (reg_spec R) = (m, reg_spec R')"
    "mr_accept m = r"
    using reg_cancel_refines [OF assms(1), of symbol i] assms(3) by (auto simp: map_prod_eq)
  with ex_route_view [OF assms(1,2) _ this(1)] assms(4) show "r = r'" "reg_book R' = (reg_book R)(symbol := sm_book sm)"
    "reg_findOrder R' = (reg_findOrder R)(symbol := sm_orders sm)"
    by (auto simp: no_trades_def)
qed

lemma reg_replace_view:
  assumes "reg_inv R" "reg_instruments R symbol \<noteq> None" "reg_cancelReplace R symbol i ord = Some (r, R')"
    "spec_om_replace \<lparr>sm_book = reg_book R symbol, sm_orders = reg_findOrder R symbol\<rparr> i ord = (r', sm)"
  shows "r = r'" "reg_book R' = (reg_book R)(symbol := sm_book sm)"
    "reg_findOrder R' = (reg_findOrder R)(symbol := sm_orders sm)"
proof -
  obtain m where "ex_route symbol i (\<lambda>sm. no_trades (spec_om_replace sm i ord))
      (OrderReplaced symbol i (order_price ord) (order_quantity ord)) (reg_spec R) = (m, reg_spec R')"
    "mr_accept m = r"
    using reg_replace_refines [OF assms(1), of symbol i ord] assms(3) by (auto simp: map_prod_eq)
  with ex_route_view [OF assms(1,2) _ this(1)] assms(4) show "r = r'" "reg_book R' = (reg_book R)(symbol := sm_book sm)"
    "reg_findOrder R' = (reg_findOrder R)(symbol := sm_orders sm)"
    by (auto simp: no_trades_def)
qed

lemma reg_unknown_symbol:
  assumes "reg_instruments R symbol = None"
  shows "reg_cancelOrder R symbol i = Some (reject UnknownSymbol, reg_emit (OrderRejected symbol i UnknownSymbol) R)"
    "reg_cancelReplace R symbol i ord = Some (reject UnknownSymbol, reg_emit (OrderRejected symbol i UnknownSymbol) R)"
    "reg_submitOrder R symbol ord = Some (reject UnknownSymbol, reg_emit (OrderRejected symbol (order_id ord) UnknownSymbol) R)"
    "reg_matchOrder R symbol ord = Some ([], reg_emit (OrderRejected symbol (order_id ord) UnknownSymbol) R)"
  using assms by (simp_all add: reg_cancelOrder_def reg_cancelReplace_def reg_submitOrder_def reg_matchOrder_def)

lemma accepted_simps [simp]:
  "accepted accept" "\<not> accepted (reject why)" "reason (reject why) = why" "reason accept = NoReason"
  by (simp_all add: accept_def reject_def)

end
