(* ===== verification/Demo_Session.thy ===== *)
theory Demo_Session
  imports Instrument_Registry
begin

text \<open>
  One short session on a registry with the reference backend, evaluated by the kernel: three
  asks of three accounts.  The witnesses of the session properties are instances at it.
\<close>

definition demo_calls :: "RegistryCall list" where
  "demo_calls =
     [CreateInstrument ''AAPL'',
      SubmitOrder ''AAPL'' ((limit_order 1 Sell 101 5)\<lparr>order_accountId := 7\<rparr>),
      SubmitOrder ''AAPL'' ((limit_order 2 Sell 100 10)\<lparr>order_accountId := 8\<rparr>),
      SubmitOrder ''AAPL'' ((limit_order 3 Sell 100 4)\<lparr>order_accountId := 9\<rparr>)]"

definition demo_replies :: "Reply list" where
  "demo_replies = fst (the (reg_run (new_InstrumentRegistry Reference) demo_calls))"

definition demo :: InstrumentRegistry where
  "demo = snd (the (reg_run (new_InstrumentRegistry Reference) demo_calls))"

text \<open>A buyer that trades with order 2 and stops before order 3 of its own account.\<close>

definition demo_order :: Order where
  "demo_order = (limit_order 4 Buy 100 12)\<lparr>order_accountId := 9\<rparr>"

definition demo_trade :: Trade where
  "demo_trade = \<lparr>trade_incoming = 4, trade_resting = 2, trade_price = 100, trade_quantity = 10\<rparr>"

definition demo_after :: InstrumentRegistry where
  "demo_after = snd (the (reg_matchOrder demo ''AAPL'' demo_order))"

lemma demo_run: "reg_run (new_InstrumentRegistry Reference) demo_calls = Some (demo_replies, demo)"
proof -
  obtain rs R where "reg_run (new_InstrumentRegistry Reference) demo_calls = Some (rs, R)"
    using reg_run_refines [of "new_InstrumentRegistry Reference" demo_calls] by auto
  then show ?thesis by (simp add: demo_replies_def demo_def)
qed

lemma demo_match: "reg_matchOrder demo ''AAPL'' demo_order = Some ([demo_trade], demo_after)"
proof -
  have "map_option fst (reg_matchOrder demo ''AAPL'' demo_order) = Some [demo_trade]" by code_simp
  then show ?thesis by (auto simp: demo_after_def)
qed

lemma demo_book: "map order_id (reg_book demo ''AAPL'' Sell) = [2, 3, 1]"
  by code_simp

lemma demo_found:
  "reg_findOrder demo ''AAPL'' 2 = Some ((limit_order 2 Sell 100 10)\<lparr>order_accountId := 8\<rparr>)"
  "reg_findOrder demo ''AAPL'' 4 = None"
  by code_simp+

lemma demo_after_found:
  "reg_findOrder demo_after ''AAPL'' 4 = Some (demo_order\<lparr>order_quantity := 2, order_status := Filled\<rparr>)"
  by code_simp

lemma demo_cancel:
  obtains R' where "reg_cancelOrder demo ''AAPL'' 2 = Some (accept, R')"
proof -
  have "map_option fst (reg_cancelOrder demo ''AAPL'' 2) = Some accept" by code_simp
  then show ?thesis using that by auto
qed

lemma demo_replace:
  obtains R1 R2 R3 where "reg_cancelReplace demo ''AAPL'' 2 (limit_order 2 Sell 100 6) = Some (accept, R1)"
    "reg_cancelReplace demo ''AAPL'' 2 (limit_order 2 Sell 102 6) = Some (accept, R2)"
    "reg_cancelReplace demo ''AAPL'' 5 (limit_order 5 Sell 102 6) = Some (reject OrderNotResting, R3)"
proof -
  have "map_option fst (reg_cancelReplace demo ''AAPL'' 2 (limit_order 2 Sell 100 6)) = Some accept"
    "map_option fst (reg_cancelReplace demo ''AAPL'' 2 (limit_order 2 Sell 102 6)) = Some accept"
    "map_option fst (reg_cancelReplace demo ''AAPL'' 5 (limit_order 5 Sell 102 6)) = Some (reject OrderNotResting)"
    by code_simp+
  then show ?thesis using that by auto
qed

lemma demo_snapshot:
  obtains R' where "reg_snapshot demo ''AAPL'' 5 = Some (\<lparr>snap_symbol = ''AAPL'', snap_sequence = 0, snap_bids = [],
      snap_asks = [\<lparr>level_price = 100, level_quantity = 14\<rparr>, \<lparr>level_price = 101, level_quantity = 5\<rparr>]\<rparr>, R')"
proof -
  have "map_option fst (reg_snapshot demo ''AAPL'' 5) = Some \<lparr>snap_symbol = ''AAPL'', snap_sequence = 0, snap_bids = [],
      snap_asks = [\<lparr>level_price = 100, level_quantity = 14\<rparr>, \<lparr>level_price = 101, level_quantity = 5\<rparr>]\<rparr>"
    by code_simp
  then show ?thesis using that by auto
qed

lemma demo_log: "length (reg_eventLog demo) = 3"
  by code_simp

text \<open>The session continued: order 2 asks for more, and stands behind order 3 of the same price.\<close>

definition demo_requeued :: "RegistryCall list" where
  "demo_requeued = demo_calls @ [CancelReplace ''AAPL'' 2 (limit_order 2 Sell 100 12)]"

lemma demo_requeued_book:
  "map_option (\<lambda>(rs, R). map (\<lambda>r. (order_id r, order_price r)) (reg_book R ''AAPL'' Sell))
     (reg_run (new_InstrumentRegistry Reference) demo_requeued) = Some [(3, 100), (2, 100), (1, 101)]"
  by code_simp

end
