(* ===== verification/Time_Priority.thy ===== *)
theory Time_Priority
  imports Instrument_Registry
begin

text \<open>
  Time priority over whole sessions.  The calls of a session are numbered, and the arrival time
  of a resting order is the number of the call that brought it to its price: the call that
  submitted it or, since an amendment to another price or for more quantity gives up the place
  in the queue (\<open>OrderManager::cancelReplace\<close>), the last such amendment.  Books are then sorted
  by price and, at one price, by arrival time.
\<close>

section \<open>Arrival times\<close>

text \<open>
  Whether a call, answered with a given reply, brings the order \<open>i\<close> of a symbol to its price.
  \<open>matchOrder\<close> replies with trades alone; it takes an order exactly when the id is not known yet
  and the order is valid, and a refused order with an unknown id leaves nothing to be timed.
\<close>

fun arrived :: "InstrumentRegistry \<Rightarrow> RegistryCall \<Rightarrow> Reply \<Rightarrow> Symbol \<Rightarrow> OrderId \<Rightarrow> bool" where
  "arrived R (SubmitOrder symbol ord) (Accepted r) symbol' i \<longleftrightarrow> symbol' = symbol \<and> i = order_id ord \<and> accepted r"
| "arrived R (MatchOrder symbol ord) (Traded ts) symbol' i \<longleftrightarrow>
     symbol' = symbol \<and> i = order_id ord \<and> reg_findOrder R symbol (order_id ord) = None"
| "arrived R (CancelReplace symbol j ord) (Accepted r) symbol' i \<longleftrightarrow>
     symbol' = symbol \<and> i = j \<and> accepted r \<and>
     (case reg_findOrder R symbol j of
        None \<Rightarrow> False
      | Some old \<Rightarrow> \<not> (order_price ord = order_price old \<and> order_quantity ord \<le> order_quantity old))"
| "arrived R c r symbol i \<longleftrightarrow> False"

type_synonym Arrivals = "Symbol \<Rightarrow> OrderId \<Rightarrow> nat"

fun arrivals_from :: "nat \<Rightarrow> InstrumentRegistry \<Rightarrow> Arrivals \<Rightarrow> RegistryCall list \<Rightarrow> Arrivals" where
  "arrivals_from now R T [] = T"
| "arrivals_from now R T (c # cs) =
     (case reg_call R c of
        None \<Rightarrow> T
      | Some (r, R') \<Rightarrow> arrivals_from (Suc now) R' (\<lambda>symbol i. if arrived R c r symbol i then now else T symbol i) cs)"

definition arrival_time :: "MatcherBackend \<Rightarrow> RegistryCall list \<Rightarrow> Arrivals" where
  "arrival_time backend cs = arrivals_from 0 (new_InstrumentRegistry backend) (\<lambda>symbol i. 0) cs"

text \<open>\<open>a\<close> is served before \<open>b\<close>: a strictly better price, or the same price and an earlier arrival.\<close>

definition before :: "Side \<Rightarrow> (OrderId \<Rightarrow> nat) \<Rightarrow> Order \<Rightarrow> Order \<Rightarrow> bool" where
  "before s T a b \<longleftrightarrow> \<not> ahead s (order_price b) (order_price a) \<or>
     order_price a = order_price b \<and> T (order_id a) < T (order_id b)"

section \<open>Arrival order of one book\<close>

definition in_arrival_order :: "(OrderId \<Rightarrow> nat) \<Rightarrow> (OrderId \<times> Price) list \<Rightarrow> bool" where
  "in_arrival_order T = sorted_wrt (\<lambda>a b. snd a = snd b \<longrightarrow> T (fst a) < T (fst b))"

definition place :: "Order \<Rightarrow> OrderId \<times> Price" where
  "place r = (order_id r, order_price r)"

text \<open>Every queue in arrival order, and nothing in it arrived at \<open>now\<close> or later.\<close>

definition timed :: "nat \<Rightarrow> (OrderId \<Rightarrow> nat) \<Rightarrow> book \<Rightarrow> bool" where
  "timed now T b \<longleftrightarrow> (\<forall>s. in_arrival_order T (map place (b s)) \<and> (\<forall>r\<in>set (b s). T (order_id r) < now))"

lemma timedD:
  assumes "timed now T b"
  shows "in_arrival_order T (map place (b s))" "r \<in> set (b s) \<Longrightarrow> T (order_id r) < now"
  using assms by (auto simp: timed_def)

lemma timed_empty: "timed now T empty_book"
  by (simp add: timed_def empty_book_def in_arrival_order_def)

lemma timed_later:
  assumes "timed now T b" "\<forall>i\<in>book_ids b. T' i = T i"
  shows "timed (Suc now) T' b"
proof -
  have "T' (order_id r) = T (order_id r)" if "r \<in> set (b s)" for r s
    using assms(2) in_book_ids [where b = b, OF that] by blast
  note same = this
  show ?thesis unfolding timed_def
  proof (intro allI conjI ballI)
    fix s r
    show "in_arrival_order T' (map place (b s))"
      using timedD(1) [OF assms(1), of s] unfolding in_arrival_order_def sorted_wrt_map
      by (rule sorted_wrt_mono_rel [rotated]) (use same in \<open>simp add: place_def\<close>)
    show "T' (order_id r) < Suc now" if "r \<in> set (b s)"
      using same [OF that] timedD(2) [OF assms(1) that] by simp
  qed
qed

text \<open>Orders may leave the front and others may leave anywhere: the order of the rest is kept.\<close>

lemma timed_tail:
  assumes "timed now T b" "map place (b s) = gone @ map place q"
  shows "timed now T (b(s := q))"
proof -
  have "in_arrival_order T (map place q)"
    using timedD(1) [OF assms(1), of s] unfolding assms(2) in_arrival_order_def sorted_wrt_append by blast
  moreover have "T (order_id r) < now" if "r \<in> set q" for r
  proof -
    have "place r \<in> place ` set (b s)" using that arg_cong [OF assms(2), of set] by auto
    then obtain r' where "r' \<in> set (b s)" "order_id r = order_id r'" by (auto simp: place_def)
    then show ?thesis using timedD(2) [OF assms(1)] by simp
  qed
  ultimately show ?thesis using timedD [OF assms(1)] by (simp add: timed_def)
qed

lemma timed_same_places:
  assumes "timed now T b" "\<And>s. map place (b' s) = map place (b s)"
  shows "timed now T b'"
proof -
  have "order_id ` set (b' s) = order_id ` set (b s)" for s
    using arg_cong [OF assms(2) [of s], of "\<lambda>ps. fst ` set ps"] by (simp add: place_def image_image)
  note ids = this
  have "T (order_id r) < now" if "r \<in> set (b' s)" for r s
  proof -
    have "order_id r \<in> order_id ` set (b s)" unfolding ids [symmetric] using that by simp
    then show ?thesis using timedD(2) [OF assms(1)] by auto
  qed
  then show ?thesis using timedD(1) [OF assms(1)] assms(2) by (simp add: timed_def)
qed

lemma timed_cancel: "timed now T b \<Longrightarrow> timed now T (spec_cancel b i)"
  by (auto simp: timed_def spec_cancel_def in_arrival_order_def sorted_wrt_map sorted_wrt_filter)

lemma arrival_insert:
  assumes "in_arrival_order T (xs @ ys)" "\<forall>a\<in>set xs. T (fst a) < T (fst x)" "\<forall>b\<in>set ys. snd b \<noteq> snd x"
  shows "in_arrival_order T (xs @ x # ys)"
  using assms unfolding in_arrival_order_def by (fastforce simp: sorted_wrt_append)

text \<open>A newcomer stands behind every order of its price.\<close>

lemma timed_rest:
  assumes "timed now T b" "sorted_wrt (\<lambda>a b. ahead s (order_price a) (order_price b)) (b s)"
    "order_id ord \<notin> book_ids b" "order_side ord = s"
  shows "timed (Suc now) (T(order_id ord := now)) (spec_rest b ord)"
proof -
  let ?T = "T(order_id ord := now)" and ?P = "\<lambda>r. ahead s (order_price r) (order_price ord)"
  have same: "timed (Suc now) ?T b" by (rule timed_later [OF assms(1)]) (use assms(3) in auto)
  let ?A = "takeWhile ?P (b s)" and ?B = "dropWhile ?P (b s)"
  have split: "b s = ?A @ ?B" by simp
  have old: "?T (order_id r) < now" if "r \<in> set (b s)" for r
    using assms(1,3) that in_book_ids [where b = b, OF that] by (auto simp: timed_def)
  have behind: "order_price r \<noteq> order_price ord" if "r \<in> set ?B" for r
  proof -
    have ne: "?B \<noteq> []" using that by force
    have "\<not> ?P (hd ?B)" by (rule hd_dropWhile [OF ne])
    moreover have "sorted_wrt (\<lambda>a b. ahead s (order_price a) (order_price b)) ?B"
      unfolding dropWhile_eq_drop by (rule sorted_wrt_drop [OF assms(2)])
    ultimately show ?thesis using that by (cases ?B) (auto dest: ahead_trans)
  qed
  have "in_arrival_order ?T (map place (?A @ ?B))" using timedD(1) [OF same, of s] by simp
  then have "in_arrival_order ?T (map place ?A @ map place ?B)" unfolding map_append .
  moreover have "\<forall>a\<in>set (map place ?A). ?T (fst a) < ?T (fst (place ord))"
    using old set_takeWhileD [of _ ?P "b s"] by (simp add: place_def del: fun_upd_apply) (simp add: fun_upd_def)
  moreover have "\<forall>a\<in>set (map place ?B). snd a \<noteq> snd (place ord)" using behind by (auto simp: place_def)
  ultimately have "in_arrival_order ?T (map place ?A @ place ord # map place ?B)" by (rule arrival_insert)
  then have "in_arrival_order ?T (map place (enqueue s ord (b s)))" by (simp add: enqueue_def)
  with same show ?thesis
    by (auto simp: timed_def spec_rest_def assms(4) set_enqueue)
qed

lemma sweep_tail:
  assumes "sweep s p i q rs = (ts, rs', left)"
  shows "\<exists>gone. map place rs = gone @ map place rs'"
proof -
  obtain n where n: "rs' = drop n rs \<or>
      (\<exists>r rest x. drop n rs = r # rest \<and> x \<noteq> 0 \<and> rs' = r\<lparr>order_quantity := x\<rparr> # rest)"
    using sweep_rest [OF assms] by blast
  then have "map place rs' = map place (drop n rs)" by (auto simp: place_def)
  then have "map place rs = map place (take n rs) @ map place rs'" by (simp add: map_append [symmetric] del: map_append)
  then show ?thesis by blast
qed

lemma stp_sweep_tail:
  assumes "stp_sweep s p i acc q rs = (ts, rs', left)"
  shows "\<exists>gone. map place rs = gone @ map place rs'"
proof -
  let ?P = "\<lambda>r. \<not> collides acc r"
  obtain q' where q': "sweep s p i q (takeWhile ?P rs) = (ts, q', left)" "rs' = q' @ dropWhile ?P rs"
    using assms by (auto simp: stp_sweep_def split: prod.splits)
  obtain gone where "map place (takeWhile ?P rs) = gone @ map place q'" using sweep_tail [OF q'(1)] by blast
  then have "map place (takeWhile ?P rs @ dropWhile ?P rs) = gone @ map place rs'" by (simp add: q'(2) del: takeWhile_dropWhile_id)
  then show ?thesis by auto
qed

lemma timed_submit:
  assumes "timed now T b" "book_ok b" "order_id ord \<notin> book_ids b" "spec_submit b ord = (ts, b', left)"
  shows "timed (Suc now) (T(order_id ord := now)) b'"
proof -
  let ?s = "order_side ord"
  obtain q where q: "stp_sweep ?s (effective_price ord) (order_id ord) (order_accountId ord) (order_quantity ord)
      (b (opposite ?s)) = (ts, q, left)"
    and b': "b' = (if may_rest (b(opposite ?s := q)) ord left then spec_rest (b(opposite ?s := q)) (remainder ord left)
       else b(opposite ?s := q))"
    using spec_submit_parts [OF assms(4) refl] by metis
  let ?b = "b(opposite ?s := q)"
  obtain gone where gone: "map place (b (opposite ?s)) = gone @ map place q" using stp_sweep_tail [OF q] by blast
  have b1: "timed now T ?b" by (rule timed_tail [OF assms(1) gone])
  have "place ` set q \<subseteq> place ` set (b (opposite ?s))" using arg_cong [OF gone, of set] by auto
  then have "order_id ` set q \<subseteq> order_id ` set (b (opposite ?s))" by (force simp: place_def)
  then have fresh: "order_id ord \<notin> book_ids ?b" using assms(3) by (fastforce simp: book_ids_def split: if_splits)
  have "sorted_wrt (\<lambda>a b. ahead ?s (order_price a) (order_price b)) (?b ?s)"
    using book_ok_queue [OF assms(2), of ?s] by (simp add: queue_ok_def)
  with timed_rest [OF b1, of ?s "remainder ord left"] fresh timed_later [OF b1, of "T(order_id ord := now)"] show ?thesis
    by (auto simp: b' remainder_def)
qed

section \<open>Arrival order of a session\<close>

lemma resting_known: "reg_inv R \<Longrightarrow> i \<in> book_ids (reg_book R symbol) \<Longrightarrow> reg_findOrder R symbol i \<noteq> None"
  by (auto simp: book_ids_def dest: reg_resting(1))

lemma timed_match:
  assumes "timed now T b" "book_ok b" "book_ids b \<subseteq> dom orders"
    "spec_om_match \<lparr>sm_book = b, sm_orders = orders\<rparr> ord = (r, sm)"
  shows "timed (Suc now) (if orders (order_id ord) = None then T(order_id ord := now) else T) (sm_book sm)"
    "timed (Suc now) (if accepted (mr_accept r) then T(order_id ord := now) else T) (sm_book sm)"
proof -
  consider (refused) "sm_book sm = b" "\<not> accepted (mr_accept r)"
    | (taken) ts left where "spec_submit b ord = (ts, sm_book sm, left)" "orders (order_id ord) = None" "accepted (mr_accept r)"
    using assms(4)
    by (auto simp: spec_om_match_def Let_def validateNewOrder_ok domIff simp del: not_None_eq split: if_splits prod.splits)
  note cases = this
  have fresh: "order_id ord \<notin> book_ids b" if "orders (order_id ord) = None" using that assms(3) by auto
  show "timed (Suc now) (if orders (order_id ord) = None then T(order_id ord := now) else T) (sm_book sm)"
    by (cases rule: cases) (use timed_later [OF assms(1)] timed_submit [OF assms(1,2)] fresh in auto)
  show "timed (Suc now) (if accepted (mr_accept r) then T(order_id ord := now) else T) (sm_book sm)"
    by (cases rule: cases) (use timed_later [OF assms(1)] timed_submit [OF assms(1,2)] fresh in auto)
qed

text \<open>An amendment in place changes no id and no price; any other one takes the order out and back in, behind.\<close>

lemma replace_keeps_places:
  assumes "reg_inv R" "reg_instruments R symbol = Some inst" "reg_findOrder R symbol i = Some old"
    "sm = \<lparr>sm_book = reg_book R symbol, sm_orders = reg_findOrder R symbol\<rparr>" "replace_reason sm i ord = NoReason"
    "order_price ord = order_price old" "order_quantity ord \<le> order_quantity old"
  shows "map place (spec_rebuild ((reg_findOrder R symbol)(i \<mapsto> ord\<lparr>order_status := New\<rparr>)) (order_side ord) (order_price ord)
    (reg_book R symbol) s) = map place (reg_book R symbol s)"
proof (rule amended_map)
  note I = reg_instD [OF assms(1,2)]
  show "amended i (ord\<lparr>order_status := New\<rparr>) (reg_book R symbol) (spec_rebuild ((reg_findOrder R symbol)
      (i \<mapsto> ord\<lparr>order_status := New\<rparr>)) (order_side ord) (order_price ord) (reg_book R symbol))"
    using any.replace_amended [OF I(1), of i ord old] assms(2-7) by (simp add: I(4,5) reg_book_def)
  fix r r' assume r: "r \<in> set (reg_book R symbol s)" "if order_id r = i then r' = ord\<lparr>order_status := New\<rparr> else same_order r' r"
  have "order_id ord = i" using assms(5) by (auto simp: replace_reason_def split: if_splits)
  moreover have "order_price r = order_price old" if "order_id r = i"
    using reg_resting(1) [OF assms(1) r(1)] that assms(3) by (auto dest: same_order_sel(3))
  ultimately show "place r' = place r" using r(2) assms(6)
    by (auto simp: place_def dest: same_order_sel(1,3) split: if_splits)
qed

lemma timed_replace:
  assumes "reg_inv R" "reg_instruments R symbol = Some inst" "timed now T (reg_book R symbol)"
    "spec_om_replace \<lparr>sm_book = reg_book R symbol, sm_orders = reg_findOrder R symbol\<rparr> i ord = (r, sm)"
  shows "timed (Suc now) (\<lambda>j. if arrived R (CancelReplace symbol i ord) (Accepted r) symbol j then now else T j) (sm_book sm)"
    (is "timed _ ?T _")
proof (cases "replace_reason \<lparr>sm_book = reg_book R symbol, sm_orders = reg_findOrder R symbol\<rparr> i ord = NoReason")
  case False
  with assms(4) have "sm_book sm = reg_book R symbol" "\<not> accepted r" by (auto simp: spec_om_replace_def Let_def)
  then show ?thesis using timed_later [OF assms(3), of T] by simp
next
  case True
  let ?b = "reg_book R symbol"
  from True have i: "i \<in> book_ids ?b" "order_id ord = i" by (auto simp: replace_reason_def split: if_splits)
  then obtain old where old: "reg_findOrder R symbol i = Some old" using resting_known [OF assms(1)] by blast
  let ?in_place = "order_price ord = order_price old \<and> order_quantity ord \<le> order_quantity old"
  have r: "accepted r" "sm_book sm = (if ?in_place
      then spec_rebuild ((reg_findOrder R symbol)(i \<mapsto> ord\<lparr>order_status := New\<rparr>)) (order_side ord) (order_price ord) ?b
      else spec_rest (spec_cancel ?b i) (ord\<lparr>order_status := New\<rparr>))"
    using True assms(4) old by (auto simp: spec_om_replace_def Let_def)
  show ?thesis
  proof (cases ?in_place)
    case True': True
    have "map place (sm_book sm s) = map place (?b s)" for s
      using replace_keeps_places [OF assms(1,2) old refl True] True' r(2) by simp
    then have "timed (Suc now) T (sm_book sm)"
      by (rule timed_same_places [OF timed_later [OF assms(3)], rotated]) simp
    then show ?thesis using True' old by simp
  next
    case False
    let ?c = "spec_cancel ?b i"
    have "sorted_wrt (\<lambda>a b. ahead (order_side ord) (order_price a) (order_price b)) (?c (order_side ord))"
      using book_ok_queue [OF book_ok_cancel [OF reg_book_ok [OF assms(1)]]] by (auto simp: queue_ok_def)
    from timed_rest [OF timed_cancel [OF assms(3)] this, of "ord\<lparr>order_status := New\<rparr>"] i
    have "timed (Suc now) (T(i := now)) (sm_book sm)" unfolding r(2) if_not_P [OF False] by (simp add: book_ids_cancel)
    moreover have "?T = T(i := now)" using False r(1) old by (auto simp: fun_eq_iff)
    ultimately show ?thesis by simp
  qed
qed

text \<open>
  A routed call touches the book of its symbol alone, and not even that one when the symbol is
  unknown: it is enough to look at the manager's answer.
\<close>

lemma timed_route:
  assumes "reg_inv R" "\<And>symbol. timed now (T symbol) (reg_book R symbol)"
    "ex_route target i f ok (reg_spec R) = (m, reg_spec R')" "\<And>symbol j. symbol \<noteq> target \<Longrightarrow> T' symbol j = T symbol j"
    and answer: "\<And>inst sm. reg_instruments R target = Some inst \<Longrightarrow>
      f \<lparr>sm_book = reg_book R target, sm_orders = reg_findOrder R target\<rparr> = (m, sm) \<Longrightarrow> timed (Suc now) (T' target) (sm_book sm)"
  shows "timed (Suc now) (T' symbol) (reg_book R' symbol)"
proof (cases "reg_instruments R target")
  case None
  with assms(3) have "ex_instruments (reg_spec R') = ex_instruments (reg_spec R)"
    by (auto simp: ex_route_def reg_lookup) (metis ex_emits_instruments(1))
  with None have "reg_book R' symbol = reg_book R symbol" "reg_book R target = empty_book"
    by (simp_all add: reg_view_of_spec reg_lookup)
  then show ?thesis using timed_empty timed_later [OF assms(2), of symbol "T' symbol"] assms(4)
    by (cases "symbol = target") auto
next
  case (Some inst)
  obtain r sm where sm: "f \<lparr>sm_book = reg_book R target, sm_orders = reg_findOrder R target\<rparr> = (r, sm)" by (metis surj_pair)
  have "reg_instruments R target \<noteq> None" using Some by simp
  note view = ex_route_view [OF assms(1) this sm assms(3)]
  show ?thesis
  proof (cases "symbol = target")
    case True
    then show ?thesis using answer [OF Some] sm view by simp
  next
    case False
    then show ?thesis using timed_later [OF assms(2), of symbol "T' symbol"] assms(4) view(2) by simp
  qed
qed

lemma known_resting: "reg_inv R \<Longrightarrow> book_ids (reg_book R symbol) \<subseteq> dom (reg_findOrder R symbol)"
  using resting_known by blast

text \<open>The other calls leave a book as it is or empty.\<close>

fun routed :: "RegistryCall \<Rightarrow> bool" where
  "routed (SubmitOrder _ _) = True"
| "routed (CancelOrder _ _) = True"
| "routed (MatchOrder _ _) = True"
| "routed (CancelReplace _ _ _) = True"
| "routed _ = False"

lemma timed_unrouted:
  assumes "timed now T (reg_book R symbol)" "ex_call (reg_spec R) c = (r, reg_spec R')" "\<not> routed c"
  shows "timed (Suc now) T (reg_book R' symbol)"
proof -
  have "ex_instruments (reg_spec R') = ex_instruments (snd (ex_call (reg_spec R) c))" by (simp add: assms(2))
  then have "reg_book R' symbol = reg_book R symbol \<or> reg_book R' symbol = empty_book"
    using assms(3) by (cases c) (auto simp: reg_view_of_spec empty_Exchange_def split: option.splits if_splits)
  then show ?thesis using timed_later [OF assms(1), of T] timed_empty by auto
qed

text \<open>The order of arrival is kept by every call of the public interface.\<close>

lemma timed_call:
  assumes "reg_inv R" "\<And>symbol. timed now (T symbol) (reg_book R symbol)" "ex_call (reg_spec R) c = (r, reg_spec R')"
  shows "timed (Suc now) (\<lambda>i. if arrived R c r symbol i then now else T symbol i) (reg_book R' symbol)"
    (is "timed _ (?T symbol) _")
proof (cases c)
  case (SubmitOrder target ord)
  with assms(3) obtain m where m: "ex_route target (order_id ord) (\<lambda>sm. no_trades (spec_om_add sm ord)) (submitted_event target ord)
      (reg_spec R) = (m, reg_spec R')" and r: "r = Accepted (mr_accept m)" by (auto simp: map_prod_eq)
  show ?thesis
  proof (rule timed_route [OF assms(1,2) m])
    fix sm assume "no_trades (spec_om_add \<lparr>sm_book = reg_book R target, sm_orders = reg_findOrder R target\<rparr> ord) = (m, sm)"
    then show "timed (Suc now) (?T target) (sm_book sm)"
      using timed_match(2) [OF assms(2) reg_book_ok [OF assms(1)] known_resting [OF assms(1)], of target ord]
        timed_later [OF assms(2), of target "T target"]
      by (auto simp: SubmitOrder r spec_om_add_def no_trades_def fun_upd_def split: if_splits prod.splits)
  qed (simp add: SubmitOrder r)
next
  case (MatchOrder target ord)
  with assms(3) obtain m where m: "ex_route target (order_id ord) (\<lambda>sm. spec_om_match sm ord) (submitted_event target ord)
      (reg_spec R) = (m, reg_spec R')" and r: "r = Traded (mr_trades m)" by (auto simp: map_prod_eq)
  show ?thesis
  proof (rule timed_route [OF assms(1,2) m])
    fix sm assume "spec_om_match \<lparr>sm_book = reg_book R target, sm_orders = reg_findOrder R target\<rparr> ord = (m, sm)"
    from timed_match(1) [OF assms(2) reg_book_ok [OF assms(1)] known_resting [OF assms(1)] this]
    show "timed (Suc now) (?T target) (sm_book sm)" by (auto simp: MatchOrder r fun_upd_def split: if_splits)
  qed (simp add: MatchOrder r)
next
  case (CancelOrder target i)
  with assms(3) obtain m where m: "ex_route target i (\<lambda>sm. no_trades (spec_om_cancel sm i)) (OrderCancelled target i) (reg_spec R)
      = (m, reg_spec R')" by (auto simp: map_prod_eq)
  show ?thesis
  proof (rule timed_route [OF assms(1,2) m])
    fix sm assume "no_trades (spec_om_cancel \<lparr>sm_book = reg_book R target, sm_orders = reg_findOrder R target\<rparr> i) = (m, sm)"
    then show "timed (Suc now) (?T target) (sm_book sm)"
      using timed_later [OF timed_cancel [OF assms(2)], of target i "T target"] timed_later [OF assms(2), of target "T target"]
      by (auto simp: CancelOrder spec_om_cancel_def no_trades_def split: if_splits)
  qed (simp add: CancelOrder)
next
  case (CancelReplace target i ord)
  with assms(3) obtain m where m: "ex_route target i (\<lambda>sm. no_trades (spec_om_replace sm i ord))
      (OrderReplaced target i (order_price ord) (order_quantity ord)) (reg_spec R) = (m, reg_spec R')"
    and r: "r = Accepted (mr_accept m)" by (auto simp: map_prod_eq)
  show ?thesis
  proof (rule timed_route [OF assms(1,2) m])
    fix inst sm assume "reg_instruments R target = Some inst"
      "no_trades (spec_om_replace \<lparr>sm_book = reg_book R target, sm_orders = reg_findOrder R target\<rparr> i ord) = (m, sm)"
    then show "timed (Suc now) (?T target) (sm_book sm)"
      using timed_replace [OF assms(1) _ assms(2), of target inst i ord "mr_accept m" sm]
      by (auto simp: CancelReplace r no_trades_def map_prod_eq)
  qed (simp add: CancelReplace r)
qed (use timed_unrouted [OF assms(2,3), of symbol] in simp_all)

lemma timed_run:
  assumes "reg_inv R" "\<And>symbol. timed now (T symbol) (reg_book R symbol)" "reg_run R cs = Some (rs, R')"
  shows "\<exists>now'. timed now' (arrivals_from now R T cs symbol) (reg_book R' symbol)"
  using assms
proof (induction cs arbitrary: R T now rs)
  case (Cons c cs)
  obtain r R1 where c: "reg_call R c = Some (r, R1)" "reg_inv R1"
    and ex: "ex_call (reg_spec R) c = (r, reg_spec R1)"
    using reg_call_refines [OF Cons.prems(1), of c] by blast
  obtain rs' where rs': "reg_run R1 cs = Some (rs', R')" using Cons.prems(3) c(1) by (auto simp: bind_eq_Some_conv)
  from Cons.IH [OF c(2) timed_call [OF Cons.prems(1,2) ex] rs'] c(1) show ?case by simp
qed auto

text \<open>Price order and arrival order together: every order stands behind all that are served before it.\<close>

lemma session_served_in_order:
  assumes "reg_run (new_InstrumentRegistry backend) cs = Some (rs, R)"
  shows "sorted_wrt (before s (arrival_time backend cs symbol)) (reg_book R symbol s)"
proof -
  let ?T = "arrival_time backend cs symbol" and ?q = "reg_book R symbol s"
  have "timed 0 (\<lambda>i. 0) (reg_book (new_InstrumentRegistry backend) symbol)" for symbol
    using timed_empty by (simp add: reg_book_def new_InstrumentRegistry_def)
  from timed_run [where T = "\<lambda>symbol i. 0", OF reg_inv_new(1) this assms, of symbol]
  have "in_arrival_order ?T (map place ?q)" by (auto simp: arrival_time_def timed_def)
  moreover have "sorted_wrt (\<lambda>a b. ahead s (order_price a) (order_price b)) ?q"
    using book_ok_queue [OF reg_book_ok [OF session(1) [OF assms]]] by (auto simp: queue_ok_def)
  ultimately show ?thesis
    unfolding in_arrival_order_def sorted_wrt_map
    by (auto simp: sorted_wrt_iff_nth_less before_def place_def dest: ahead_antisym)
qed

end
