(* ===== verification/Optimized_Sessions.thy ===== *)
theory Optimized_Sessions
  imports Demo_Session
begin

text \<open>
  Sessions on a registry built with the optimized backend.  Every matcher such a registry makes
  is an \<open>OptimizedMatcher\<close> and stays one; with the invariant of that matcher this gives the
  accounting of its pool of orders after any sequence of calls.
\<close>

section \<open>The backend of an instrument never changes\<close>

fun optimized_inv :: "AnyMatcher \<Rightarrow> bool" where
  "optimized_inv (IsReference m) = False"
| "optimized_inv (IsOptimized m) = opt_inv m"

interpretation optimized: price_time_matcher AnyMatcher_vtable optimized_inv any_book
proof
  fix m :: AnyMatcher and ord :: Order and i n
  assume "optimized_inv m"
  then obtain k where k: "m = IsOptimized k" "opt_inv k" by (cases m) auto
  have inv: "any_inv m" by (simp add: k)
  note unfold = AnyMatcher_vtable_def OptimizedMatcher_vtable_def
  show "book_ok (any_book m)" by (rule any.abs_ok [OF inv])
  show "vt_bestBid AnyMatcher_vtable m = spec_best (any_book m) Buy" by (rule any.bestBid_law [OF inv])
  show "vt_bestAsk AnyMatcher_vtable m = spec_best (any_book m) Sell" by (rule any.bestAsk_law [OF inv])
  show "vt_bidDepth AnyMatcher_vtable m n = Some (spec_depth (any_book m) Buy n)" by (rule any.bidDepth_law [OF inv])
  show "vt_askDepth AnyMatcher_vtable m n = Some (spec_depth (any_book m) Sell n)" by (rule any.askDepth_law [OF inv])
  show "\<exists>m'. vt_cancelOrder AnyMatcher_vtable m i = Some m' \<and> optimized_inv m' \<and> any_book m' = spec_cancel (any_book m) i"
    using opt.cancel_law [OF k(2), of i] by (force simp: unfold k(1))
  assume fresh: "order_id ord \<notin> book_ids (any_book m)"
  show "\<exists>m'. vt_matchOrder AnyMatcher_vtable m ord = Some (fst (spec_match (any_book m) ord), m') \<and>
      optimized_inv m' \<and> any_book m' = snd (spec_match (any_book m) ord)"
    using opt.match_law [OF k(2), of ord] fresh by (force simp: unfold k(1))
  show "\<exists>m'. vt_addOrder AnyMatcher_vtable m ord = Some m' \<and> optimized_inv m' \<and> any_book m' = snd (spec_match (any_book m) ord)"
    using opt.add_law [OF k(2), of ord] fresh by (force simp: unfold k(1))
qed

definition all_optimized :: "InstrumentRegistry \<Rightarrow> bool" where
  "all_optimized R \<longleftrightarrow> reg_backend R = Optimized \<and>
     (\<forall>symbol inst. reg_instruments R symbol = Some inst \<longrightarrow> om_inv optimized_inv any_book (inst_manager inst))"

lemma all_optimized_emit [simp]:
  "all_optimized (reg_emit p R) = all_optimized R"
  "all_optimized (fold (\<lambda>t. reg_emit (f t)) ts R) = all_optimized R"
proof -
  show one: "all_optimized (reg_emit p R) = all_optimized R" for p R by (simp add: all_optimized_def reg_emit_def)
  show "all_optimized (fold (\<lambda>t. reg_emit (f t)) ts R) = all_optimized R"
    by (induction ts arbitrary: R) (simp_all add: one)
qed

lemma all_optimized_put:
  "all_optimized R \<Longrightarrow> om_inv optimized_inv any_book om \<Longrightarrow> all_optimized (reg_put_manager symbol inst om R)"
  by (auto simp: all_optimized_def reg_put_manager_def)

lemma all_optimized_manager:
  assumes "all_optimized R" "reg_instruments R symbol = Some inst"
  shows "om_addOrder AnyMatcher_vtable (inst_manager inst) ord = Some (a, om) \<Longrightarrow> om_inv optimized_inv any_book om"
    "om_cancelOrder AnyMatcher_vtable (inst_manager inst) i = Some (a, om) \<Longrightarrow> om_inv optimized_inv any_book om"
    "om_matchOrder AnyMatcher_vtable (inst_manager inst) ord = Some (r, om) \<Longrightarrow> om_inv optimized_inv any_book om"
    "om_cancelReplace AnyMatcher_vtable (inst_manager inst) i ord = Some (a, om) \<Longrightarrow> om_inv optimized_inv any_book om"
proof -
  have inv: "om_inv optimized_inv any_book (inst_manager inst)" using assms by (auto simp: all_optimized_def)
  note spec = optimized.om_addOrder_spec [OF inv] optimized.om_cancelOrder_spec [OF inv]
    optimized.om_matchOrder_spec [OF inv] optimized.om_cancelReplace_spec [OF inv]
  show "om_addOrder AnyMatcher_vtable (inst_manager inst) ord = Some (a, om) \<Longrightarrow> om_inv optimized_inv any_book om"
    using spec(1) [of ord] by (metis option.inject prod.inject surj_pair)
  show "om_cancelOrder AnyMatcher_vtable (inst_manager inst) i = Some (a, om) \<Longrightarrow> om_inv optimized_inv any_book om"
    using spec(2) [of i] by (metis option.inject prod.inject surj_pair)
  show "om_matchOrder AnyMatcher_vtable (inst_manager inst) ord = Some (r, om) \<Longrightarrow> om_inv optimized_inv any_book om"
    using spec(3) [of ord] by (metis option.inject prod.inject surj_pair)
  show "om_cancelReplace AnyMatcher_vtable (inst_manager inst) i ord = Some (a, om) \<Longrightarrow> om_inv optimized_inv any_book om"
    using spec(4) [of i ord] by (metis option.inject prod.inject surj_pair)
qed

lemma all_optimized_call:
  assumes "all_optimized R" "reg_call R c = Some (r, R')"
  shows "all_optimized R'"
proof (cases c)
  case (CreateInstrument symbol)
  have "om_inv optimized_inv any_book (new_OrderManager (IsOptimized new_OptimizedMatcher))"
    by (rule optimized.om_inv_new) (simp_all add: opt_inv_new)
  with assms CreateInstrument show ?thesis
    by (auto simp: reg_createInstrument_def reg_makeMatcher_def all_optimized_def split: if_splits)
next
  case (Snapshot symbol n)
  with assms show ?thesis
    by (auto simp: reg_snapshot_def Let_def bind_eq_Some_conv all_optimized_def split: option.splits if_splits)
next
  case ClearEventLog
  with assms show ?thesis by (auto simp: reg_clearEventLog_def all_optimized_def)
next
  case Reset
  with assms show ?thesis by (auto simp: reg_reset_def all_optimized_def)
qed (use assms all_optimized_manager [OF assms(1)] all_optimized_put [OF assms(1)] in
  \<open>auto simp: reg_submitOrder_def reg_cancelOrder_def reg_matchOrder_def reg_cancelReplace_def
     Let_def bind_eq_Some_conv split: option.splits\<close>)

lemma all_optimized_run:
  assumes "all_optimized R" "reg_run R cs = Some (rs, R')"
  shows "all_optimized R'"
  using assms
proof (induction cs arbitrary: R rs)
  case (Cons c cs)
  then obtain r R1 rs1 where "reg_call R c = Some (r, R1)" "reg_run R1 cs = Some (rs1, R')"
    by (auto simp: bind_eq_Some_conv)
  with Cons.IH all_optimized_call [OF Cons.prems(1)] show ?case by blast
qed simp

lemma session_optimized:
  assumes "reg_run (new_InstrumentRegistry Optimized) cs = Some (rs, R)" "reg_instruments R symbol = Some inst"
  obtains m where "om_matcher (inst_manager inst) = IsOptimized m" "opt_inv m" "reg_book R symbol = opt_book m"
proof -
  have "all_optimized (new_InstrumentRegistry Optimized)" by (simp add: all_optimized_def new_InstrumentRegistry_def)
  from all_optimized_run [OF this assms(1)] assms(2) have "optimized_inv (om_matcher (inst_manager inst))"
    by (auto simp: all_optimized_def om_inv_def)
  then obtain m where "om_matcher (inst_manager inst) = IsOptimized m" "opt_inv m"
    by (cases "om_matcher (inst_manager inst)") auto
  with assms(2) show ?thesis using that by (simp add: reg_book_def)
qed

section \<open>The pool after a session\<close>

text \<open>
  C19. The pool of orders is exact after any session on the optimized backend, whatever was
  submitted, matched, amended or cancelled: the orders that live in a matcher's pool are exactly
  those resting in its book, and the slots of all slabs are the free ones and one per resting order.
  No filled or cancelled order keeps its slot and no slot is freed twice.
\<close>

theorem optimized_pool_exact:
  assumes "reg_run (new_InstrumentRegistry Optimized) cs = Some (rs, R)" "reg_instruments R symbol = Some inst"
  shows "\<exists>m. om_matcher (inst_manager inst) = IsOptimized m \<and>
    (\<forall>ord. (\<exists>a. pool_read (opt_orderPool m) a = Some ord) = (\<exists>s. ord \<in> set (reg_book R symbol s))) \<and>
    pool_slabCount (opt_orderPool m) * pool_slabSize (opt_orderPool m) =
      pool_freeCount (opt_orderPool m) + length (reg_book R symbol Buy) + length (reg_book R symbol Sell)"
proof -
  obtain m where m: "om_matcher (inst_manager inst) = IsOptimized m" "opt_inv m" "reg_book R symbol = opt_book m"
    by (rule session_optimized [OF assms])
  with opt_pool_slots [OF m(2)] opt_pool_orders [OF m(2)] show ?thesis by (intro exI [of _ m]) simp
qed

text \<open>The demonstration session on this backend: three orders rest, and every other slot is free.\<close>

theorem optimized_pool_exact_witness:
  "\<exists>rs R inst m. reg_run (new_InstrumentRegistry Optimized) demo_calls = Some (rs, R) \<and>
     reg_instruments R ''AAPL'' = Some inst \<and> om_matcher (inst_manager inst) = IsOptimized m \<and>
     pool_slabCount (opt_orderPool m) * pool_slabSize (opt_orderPool m) = pool_freeCount (opt_orderPool m) + 3"
proof -
  obtain rs R where run: "reg_run (new_InstrumentRegistry Optimized) demo_calls = Some (rs, R)"
    "ex_run empty_Exchange demo_calls = (rs, reg_spec R)"
    using reg_run_refines [of "new_InstrumentRegistry Optimized" demo_calls] by auto
  with session(2) [OF demo_run] have "reg_spec R = reg_spec demo" by simp
  then have book: "reg_book R = reg_book demo" by (simp add: fun_eq_iff reg_view_of_spec)
  have "length (reg_book demo ''AAPL'' Sell) = 3" "length (reg_book demo ''AAPL'' Buy) = 0" by code_simp+
  note len = this [folded book]
  then obtain inst where inst: "reg_instruments R ''AAPL'' = Some inst"
    by (cases "reg_instruments R ''AAPL''") (auto simp: reg_book_def empty_book_def)
  from optimized_pool_exact [OF run(1) inst] len run(1) inst show ?thesis by auto
qed

end
