(* ===== verification/Event_Publisher.thy ===== *)
theory Event_Publisher
  imports Titan_Types
begin

text \<open>
  \<open>EventPublisher\<close> (\<open>include/titan/market_data/publisher.hpp\<close>, \<open>src/market_data/publisher.cpp\<close>):
  execution reports derived from the event log alone.  Quantities and notionals accumulate
  in 64 bits, so both wrap; the average price divides by the accumulated quantity, and a
  division by zero has no result.
\<close>

section \<open>State and operations\<close>

datatype ExecType = ExecNew | ExecTrade | ExecCancelled | ExecReplaced | ExecRejected

record ExecutionReport =
  er_symbol :: Symbol
  er_sequenceNumber :: u64
  er_orderId :: OrderId
  er_execType :: ExecType
  er_lastQty :: Quantity
  er_cumQty :: Quantity
  er_leavesQty :: Quantity
  er_lastPx :: Price
  er_avgPx :: Price
  er_rejectReason :: RejectReason

record OrderState =
  os_originalQty :: Quantity
  os_cumQty :: Quantity
  os_cumNotional :: Quantity

record EventPublisher =
  pub_orderStates :: "Symbol \<rightharpoonup> (OrderId \<rightharpoonup> OrderState)"
  pub_nextSequenceNumber :: "Symbol \<rightharpoonup> u64"
  pub_reports :: "ExecutionReport list"

definition new_EventPublisher :: EventPublisher where
  "new_EventPublisher = \<lparr>pub_orderStates = Map.empty, pub_nextSequenceNumber = Map.empty, pub_reports = []\<rparr>"

definition pub_clear :: "EventPublisher \<Rightarrow> EventPublisher" where
  "pub_clear P = P\<lparr>pub_reports := [], pub_orderStates := Map.empty, pub_nextSequenceNumber := Map.empty\<rparr>"

text \<open>\<open>operator[]\<close> on the nested maps: a missing entry is created first.\<close>

definition pub_states_at :: "EventPublisher \<Rightarrow> Symbol \<Rightarrow> (OrderId \<rightharpoonup> OrderState)" where
  "pub_states_at P symbol = (case pub_orderStates P symbol of None \<Rightarrow> Map.empty | Some f \<Rightarrow> f)"

definition pub_put_state :: "Symbol \<Rightarrow> OrderId \<Rightarrow> OrderState \<Rightarrow> EventPublisher \<Rightarrow> EventPublisher" where
  "pub_put_state symbol i st P =
     P\<lparr>pub_orderStates := (pub_orderStates P)(symbol \<mapsto> (pub_states_at P symbol)(i \<mapsto> st))\<rparr>"

definition pub_nextSeq :: "Symbol \<Rightarrow> EventPublisher \<Rightarrow> u64 \<times> EventPublisher" where
  "pub_nextSeq symbol P =
     (let n = (case pub_nextSequenceNumber P symbol of None \<Rightarrow> 0 | Some n \<Rightarrow> n)
      in (n, P\<lparr>pub_nextSequenceNumber := (pub_nextSequenceNumber P)(symbol \<mapsto> n + 1)\<rparr>))"

text \<open>\<open>reports_.push_back(ExecutionReport{symbol, nextSeq(symbol), ...})\<close>.\<close>

definition pub_report ::
  "Symbol \<Rightarrow> OrderId \<Rightarrow> ExecType \<Rightarrow> Quantity \<Rightarrow> Quantity \<Rightarrow> Quantity \<Rightarrow> Price \<Rightarrow> Price \<Rightarrow> RejectReason \<Rightarrow>
   EventPublisher \<Rightarrow> EventPublisher" where
  "pub_report symbol i ty lastQty cumQty leaves lastPx avgPx why P =
     (case pub_nextSeq symbol P of (n, P1) \<Rightarrow>
        P1\<lparr>pub_reports := pub_reports P1 @
          [\<lparr>er_symbol = symbol, er_sequenceNumber = n, er_orderId = i, er_execType = ty, er_lastQty = lastQty,
            er_cumQty = cumQty, er_leavesQty = leaves, er_lastPx = lastPx, er_avgPx = avgPx, er_rejectReason = why\<rparr>]\<rparr>)"

definition pub_handleSubmitted :: "Symbol \<Rightarrow> OrderId \<Rightarrow> Quantity \<Rightarrow> EventPublisher \<Rightarrow> EventPublisher" where
  "pub_handleSubmitted symbol i quantity P =
     pub_report symbol i ExecNew 0 0 quantity 0 0 NoReason
       (pub_put_state symbol i \<lparr>os_originalQty = quantity, os_cumQty = 0, os_cumNotional = 0\<rparr> P)"

definition pub_emitFill :: "Symbol \<Rightarrow> OrderId \<Rightarrow> Quantity \<Rightarrow> Price \<Rightarrow> EventPublisher \<Rightarrow> EventPublisher option" where
  "pub_emitFill symbol i tradeQty tradePx P =
     (case pub_orderStates P symbol of
        None \<Rightarrow> Some P
      | Some states \<Rightarrow>
          (case states i of
             None \<Rightarrow> Some P
           | Some st \<Rightarrow>
               let cumQty = os_cumQty st + tradeQty;
                   cumNotional = os_cumNotional st + tradeQty * tradePx;
                   P1 = pub_put_state symbol i (st\<lparr>os_cumQty := cumQty, os_cumNotional := cumNotional\<rparr>) P;
                   leaves = os_originalQty st - cumQty
               in if cumQty = 0 then None
                  else Some (pub_report symbol i ExecTrade tradeQty cumQty leaves tradePx (cumNotional div cumQty) NoReason P1)))"

definition pub_handleTrade :: "Symbol \<Rightarrow> OrderId \<Rightarrow> OrderId \<Rightarrow> Price \<Rightarrow> Quantity \<Rightarrow> EventPublisher \<Rightarrow> EventPublisher option" where
  "pub_handleTrade symbol incoming resting price quantity P =
     do { P1 \<leftarrow> pub_emitFill symbol incoming quantity price P;
          pub_emitFill symbol resting quantity price P1 }"

definition pub_handleCancelled :: "Symbol \<Rightarrow> OrderId \<Rightarrow> EventPublisher \<Rightarrow> EventPublisher" where
  "pub_handleCancelled symbol i P =
     (let st = (case pub_orderStates P symbol of None \<Rightarrow> None | Some states \<Rightarrow> states i);
          cumQty = (case st of None \<Rightarrow> 0 | Some st \<Rightarrow> os_cumQty st);
          avgPx = (case st of None \<Rightarrow> 0 | Some st \<Rightarrow> if 0 < cumQty then os_cumNotional st div cumQty else 0)
      in pub_report symbol i ExecCancelled 0 cumQty 0 0 avgPx NoReason P)"

definition pub_handleReplaced :: "Symbol \<Rightarrow> OrderId \<Rightarrow> Price \<Rightarrow> Quantity \<Rightarrow> EventPublisher \<Rightarrow> EventPublisher" where
  "pub_handleReplaced symbol i newPrice newQuantity P =
     (let st0 = (case pub_states_at P symbol i of
                   None \<Rightarrow> \<lparr>os_originalQty = 0, os_cumQty = 0, os_cumNotional = 0\<rparr> | Some st \<Rightarrow> st);
          st = st0\<lparr>os_originalQty := os_cumQty st0 + newQuantity\<rparr>;
          avgPx = (if 0 < os_cumQty st then os_cumNotional st div os_cumQty st else 0)
      in pub_report symbol i ExecReplaced 0 (os_cumQty st) newQuantity newPrice avgPx NoReason (pub_put_state symbol i st P))"

definition pub_handleRejected :: "Symbol \<Rightarrow> OrderId \<Rightarrow> RejectReason \<Rightarrow> EventPublisher \<Rightarrow> EventPublisher" where
  "pub_handleRejected symbol i why P = pub_report symbol i ExecRejected 0 0 0 0 0 why P"

fun pub_process :: "EventPublisher \<Rightarrow> Event \<Rightarrow> EventPublisher option" where
  "pub_process P e =
     (case event_payload e of
        OrderSubmitted symbol i side price quantity \<Rightarrow> Some (pub_handleSubmitted symbol i quantity P)
      | OrderCancelled symbol i \<Rightarrow> Some (pub_handleCancelled symbol i P)
      | OrderReplaced symbol i price quantity \<Rightarrow> Some (pub_handleReplaced symbol i price quantity P)
      | TradeExecuted symbol incoming resting price quantity \<Rightarrow> pub_handleTrade symbol incoming resting price quantity P
      | OrderRejected symbol i why \<Rightarrow> Some (pub_handleRejected symbol i why P))"

fun pub_process_all :: "EventPublisher \<Rightarrow> Event list \<Rightarrow> EventPublisher option" where
  "pub_process_all P [] = Some P"
| "pub_process_all P (e # es) = do { P1 \<leftarrow> pub_process P e; pub_process_all P1 es }"

section \<open>Numbering\<close>

text \<open>The reports of one symbol carry 0, 1, 2 and so on, in the order they were made.\<close>

definition reports_of :: "EventPublisher \<Rightarrow> Symbol \<Rightarrow> ExecutionReport list" where
  "reports_of P symbol = filter (\<lambda>r. er_symbol r = symbol) (pub_reports P)"

definition pub_next :: "EventPublisher \<Rightarrow> Symbol \<Rightarrow> u64" where
  "pub_next P symbol = (case pub_nextSequenceNumber P symbol of None \<Rightarrow> 0 | Some n \<Rightarrow> n)"

definition pub_numbered :: "EventPublisher \<Rightarrow> bool" where
  "pub_numbered P \<longleftrightarrow> (\<forall>symbol.
     map er_sequenceNumber (reports_of P symbol) = map of_nat [0..<length (reports_of P symbol)] \<and>
     pub_next P symbol = of_nat (length (reports_of P symbol)))"

lemma pub_put_state_sel [simp]:
  "pub_reports (pub_put_state s i st P) = pub_reports P"
  "pub_nextSequenceNumber (pub_put_state s i st P) = pub_nextSequenceNumber P"
  "pub_orderStates (pub_put_state s i st P) = (pub_orderStates P)(s \<mapsto> (pub_states_at P s)(i \<mapsto> st))"
  by (simp_all add: pub_put_state_def)

lemma pub_numbered_put [simp]: "pub_numbered (pub_put_state s i st P) = pub_numbered P"
  by (simp add: pub_numbered_def reports_of_def pub_next_def)

lemma pub_report_sel [simp]:
  "pub_orderStates (pub_report s i ty a b c d e w P) = pub_orderStates P"
  "pub_reports (pub_report s i ty a b c d e w P) = pub_reports P @
     [\<lparr>er_symbol = s, er_sequenceNumber = pub_next P s, er_orderId = i, er_execType = ty, er_lastQty = a,
       er_cumQty = b, er_leavesQty = c, er_lastPx = d, er_avgPx = e, er_rejectReason = w\<rparr>]"
  "pub_next (pub_report s i ty a b c d e w P) t = (if t = s then pub_next P s + 1 else pub_next P t)"
  by (auto simp: pub_report_def pub_nextSeq_def Let_def pub_next_def)

lemma pub_numbered_report:
  assumes "pub_numbered P"
  shows "pub_numbered (pub_report s i ty a b c d e w P)"
  using assms by (auto simp: pub_numbered_def reports_of_def)

lemma pub_numbered_fill:
  assumes "pub_numbered P" "pub_emitFill s i q p P = Some P'"
  shows "pub_numbered P'"
  using assms by (auto simp: pub_emitFill_def Let_def pub_numbered_report split: option.splits if_splits)

lemma pub_numbered_process:
  assumes "pub_numbered P" "pub_process P e = Some P'"
  shows "pub_numbered P'"
  using assms
  by (auto dest: pub_numbered_fill simp: pub_handleSubmitted_def pub_handleCancelled_def pub_handleReplaced_def pub_handleRejected_def
      pub_handleTrade_def Let_def bind_eq_Some_conv pub_numbered_report split: EventPayload.splits)

lemma pub_numbered_all:
  assumes "pub_numbered P" "pub_process_all P es = Some P'"
  shows "pub_numbered P'"
  using assms by (induction es arbitrary: P) (auto simp: bind_eq_Some_conv dest: pub_numbered_process)

lemma pub_numbered_new: "pub_numbered new_EventPublisher"
  by (simp add: pub_numbered_def new_EventPublisher_def reports_of_def pub_next_def)

section \<open>Accumulated fills\<close>

text \<open>The fills of one order, booked one after the other.\<close>

fun pub_fills :: "Symbol \<Rightarrow> OrderId \<Rightarrow> (Quantity \<times> Price) list \<Rightarrow> EventPublisher \<Rightarrow> EventPublisher option" where
  "pub_fills s i [] P = Some P"
| "pub_fills s i ((q, p) # fs) P = do { P1 \<leftarrow> pub_emitFill s i q p P; pub_fills s i fs P1 }"

definition fill_qty :: "(Quantity \<times> Price) list \<Rightarrow> nat" where
  "fill_qty fs = (\<Sum>f\<leftarrow>fs. unat (fst f))"

definition fill_notional :: "(Quantity \<times> Price) list \<Rightarrow> nat" where
  "fill_notional fs = (\<Sum>f\<leftarrow>fs. unat (fst f) * unat (snd f))"

definition state_at :: "EventPublisher \<Rightarrow> Symbol \<Rightarrow> OrderId \<Rightarrow> OrderState option" where
  "state_at P s i = (case pub_orderStates P s of None \<Rightarrow> None | Some f \<Rightarrow> f i)"

lemma state_at_cases:
  "state_at P s i = Some st \<longleftrightarrow> (\<exists>f. pub_orderStates P s = Some f \<and> f i = Some st)"
  by (auto simp: state_at_def split: option.splits)

lemma pub_emitFill_step:
  assumes "state_at P s i = Some st" "os_cumQty st + q \<noteq> 0"
  obtains P' where "pub_emitFill s i q p P = Some P'"
    "state_at P' s i = Some (st\<lparr>os_cumQty := os_cumQty st + q, os_cumNotional := os_cumNotional st + q * p\<rparr>)"
    "er_cumQty (last (pub_reports P')) = os_cumQty st + q"
    "er_leavesQty (last (pub_reports P')) = os_originalQty st - (os_cumQty st + q)"
    "er_avgPx (last (pub_reports P')) = (os_cumNotional st + q * p) div (os_cumQty st + q)"
    "pub_reports P' \<noteq> []"
  using assms
  by (auto simp: state_at_cases pub_emitFill_def Let_def pub_states_at_def intro!: that)

lemma pub_fills_state:
  assumes "state_at P s i = Some st" "\<forall>f\<in>set fs. fst f \<noteq> 0"
    "unat (os_cumQty st) + fill_qty fs < 2 ^ 64" "unat (os_cumNotional st) + fill_notional fs < 2 ^ 64" "fs \<noteq> []"
  shows "\<exists>P'. pub_fills s i fs P = Some P' \<and> pub_reports P' \<noteq> [] \<and>
    unat (er_cumQty (last (pub_reports P'))) = unat (os_cumQty st) + fill_qty fs \<and>
    er_leavesQty (last (pub_reports P')) = os_originalQty st - er_cumQty (last (pub_reports P')) \<and>
    unat (er_avgPx (last (pub_reports P'))) =
      (unat (os_cumNotional st) + fill_notional fs) div (unat (os_cumQty st) + fill_qty fs)"
  using assms
proof (induction fs arbitrary: P st)
  case (Cons f fs)
  obtain q p where f: "f = (q, p)" by (cases f)
  have q: "q \<noteq> 0" using Cons.prems(2) by (simp add: f)
  have cum: "unat (os_cumQty st + q) = unat (os_cumQty st) + unat q"
    using Cons.prems(3) by (simp add: f fill_qty_def unat_word_ariths(1))
  have prod: "unat (q * p) = unat q * unat p"
    using Cons.prems(4) by (simp add: f fill_notional_def unat_word_ariths(2))
  have notional: "unat (os_cumNotional st + q * p) = unat (os_cumNotional st) + unat q * unat p"
    using Cons.prems(4) by (simp add: f fill_notional_def unat_word_ariths(1) prod)
  have nz: "os_cumQty st + q \<noteq> 0"
    using cum q by (metis add_eq_0_iff_both_eq_0 unat_0 unat_eq_0)
  obtain P1 where P1: "pub_emitFill s i q p P = Some P1"
    "state_at P1 s i = Some (st\<lparr>os_cumQty := os_cumQty st + q, os_cumNotional := os_cumNotional st + q * p\<rparr>)"
    "er_cumQty (last (pub_reports P1)) = os_cumQty st + q"
    "er_leavesQty (last (pub_reports P1)) = os_originalQty st - (os_cumQty st + q)"
    "er_avgPx (last (pub_reports P1)) = (os_cumNotional st + q * p) div (os_cumQty st + q)"
    "pub_reports P1 \<noteq> []"
    using pub_emitFill_step [OF Cons.prems(1) nz] by metis
  show ?case
  proof (cases "fs = []")
    case True
    with P1 show ?thesis
      by (simp add: f fill_qty_def fill_notional_def cum notional unat_div)
  next
    case False
    have "\<exists>P'. pub_fills s i fs P1 = Some P' \<and> pub_reports P' \<noteq> [] \<and>
        unat (er_cumQty (last (pub_reports P'))) = unat (os_cumQty st + q) + fill_qty fs \<and>
        er_leavesQty (last (pub_reports P')) = os_originalQty st - er_cumQty (last (pub_reports P')) \<and>
        unat (er_avgPx (last (pub_reports P'))) =
          (unat (os_cumNotional st + q * p) + fill_notional fs) div (unat (os_cumQty st + q) + fill_qty fs)"
      using Cons.IH [OF P1(2)] Cons.prems(2-4) False
      by (simp add: f fill_qty_def fill_notional_def cum notional)
    with P1(1) show ?thesis
      by (auto simp: f fill_qty_def fill_notional_def cum notional add.assoc)
  qed
qed simp

text \<open>An average lies between the best and the worst price.\<close>

lemma fill_notional_bounds:
  assumes "\<forall>f\<in>set fs. lo \<le> unat (snd f) \<and> unat (snd f) \<le> hi"
  shows "lo * fill_qty fs \<le> fill_notional fs" "fill_notional fs \<le> hi * fill_qty fs"
proof -
  show "lo * fill_qty fs \<le> fill_notional fs"
    using assms by (induction fs) (auto simp: fill_qty_def fill_notional_def algebra_simps add_mono)
  show "fill_notional fs \<le> hi * fill_qty fs"
    using assms by (induction fs) (auto simp: fill_qty_def fill_notional_def algebra_simps add_mono)
qed

section \<open>Properties\<close>

text \<open>
  Reports are numbered per symbol: after any events, the reports of a symbol carry
  0, 1, 2 and so on without a gap, whatever happens on the other symbols.
\<close>

theorem reports_numbered_per_symbol:
  assumes "pub_process_all new_EventPublisher es = Some P"
  shows "map er_sequenceNumber (reports_of P symbol) = map of_nat [0..<length (reports_of P symbol)]"
  using pub_numbered_all [OF pub_numbered_new assms] by (simp add: pub_numbered_def)

theorem reports_numbered_per_symbol_witness:
  "\<exists>P. pub_process_all new_EventPublisher
     [\<lparr>event_sequence = 0, event_payload = OrderSubmitted ''A'' 1 Sell 100 5\<rparr>,
      \<lparr>event_sequence = 1, event_payload = OrderRejected ''B'' 2 ZeroPrice\<rparr>,
      \<lparr>event_sequence = 2, event_payload = OrderCancelled ''A'' 1\<rparr>] = Some P \<and>
     map er_sequenceNumber (reports_of P ''A'') = [0, 1]"
proof -
  let ?es = "[\<lparr>event_sequence = 0, event_payload = OrderSubmitted ''A'' 1 Sell 100 5\<rparr>,
      \<lparr>event_sequence = 1, event_payload = OrderRejected ''B'' 2 ZeroPrice\<rparr>,
      \<lparr>event_sequence = 2, event_payload = OrderCancelled ''A'' 1\<rparr>]"
  obtain P where P: "pub_process_all new_EventPublisher ?es = Some P" by simp
  moreover have "map_option (\<lambda>P. length (reports_of P ''A'')) (pub_process_all new_EventPublisher ?es) = Some 2" by code_simp
  ultimately have "length (reports_of P ''A'') = 2" by simp
  with reports_numbered_per_symbol [OF P, of "''A''"] P show ?thesis by (simp add: upt_rec)
qed

text \<open>
  C25. The fills of an order: as long as neither the filled quantity nor the notional
  overflows 64 bits, the last report shows exactly the total filled, what is left of the
  original quantity, and the volume-weighted average price rounded down, which lies between
  the lowest and the highest price traded.
\<close>

theorem fill_reports_exact:
  assumes "state_at P s i = Some \<lparr>os_originalQty = original, os_cumQty = 0, os_cumNotional = 0\<rparr>"
    and "fs \<noteq> []" "\<forall>f\<in>set fs. fst f \<noteq> 0"
    and "fill_qty fs \<le> unat original" "fill_notional fs < 2 ^ 64"
    and "\<forall>f\<in>set fs. lo \<le> unat (snd f) \<and> unat (snd f) \<le> hi"
  shows "\<exists>P' r. pub_fills s i fs P = Some P' \<and> r = last (pub_reports P') \<and>
    unat (er_cumQty r) = fill_qty fs \<and> unat (er_leavesQty r) = unat original - fill_qty fs \<and>
    unat (er_avgPx r) = fill_notional fs div fill_qty fs \<and> lo \<le> unat (er_avgPx r) \<and> unat (er_avgPx r) \<le> hi"
proof -
  have "fill_qty fs < 2 ^ 64" using assms(4) unsigned_less [of original, where 'a = nat] by simp
  then obtain P' where P': "pub_fills s i fs P = Some P'"
    "unat (er_cumQty (last (pub_reports P'))) = fill_qty fs"
    "er_leavesQty (last (pub_reports P')) = original - er_cumQty (last (pub_reports P'))"
    "unat (er_avgPx (last (pub_reports P'))) = fill_notional fs div fill_qty fs"
    using pub_fills_state [OF assms(1,3)] assms(2,5) by auto
  have "er_cumQty (last (pub_reports P')) \<le> original"
    using P'(2) assms(4) by (simp add: word_le_nat_alt)
  then have leaves: "unat (er_leavesQty (last (pub_reports P'))) = unat original - fill_qty fs"
    by (simp add: P'(2,3) unat_sub)
  have "0 < fill_qty fs"
    using assms(2,3) by (cases fs) (auto simp: fill_qty_def unat_gt_0)
  then have "lo \<le> fill_notional fs div fill_qty fs"
    using fill_notional_bounds(1) [OF assms(6)] by (simp add: less_eq_div_iff_mult_less_eq)
  moreover have "fill_notional fs div fill_qty fs \<le> hi"
    using div_le_mono [OF fill_notional_bounds(2) [OF assms(6)], of "fill_qty fs"] \<open>0 < fill_qty fs\<close> by simp
  ultimately show ?thesis using P' leaves by auto
qed

theorem fill_reports_exact_witness:
  "\<exists>P P' r. pub_process_all new_EventPublisher
      [\<lparr>event_sequence = 0, event_payload = OrderSubmitted ''A'' 1 Sell 100 5\<rparr>] = Some P \<and>
     pub_fills ''A'' 1 [(1, 100), (3, 103)] P = Some P' \<and> r = last (pub_reports P') \<and>
     unat (er_cumQty r) = 4 \<and> unat (er_leavesQty r) = 1 \<and> unat (er_avgPx r) = 102"
proof -
  obtain P where P: "pub_process_all new_EventPublisher
      [\<lparr>event_sequence = 0, event_payload = OrderSubmitted ''A'' 1 Sell 100 5\<rparr>] = Some P"
    "state_at P ''A'' 1 = Some \<lparr>os_originalQty = 5, os_cumQty = 0, os_cumNotional = 0\<rparr>"
    by (simp add: state_at_def pub_handleSubmitted_def new_EventPublisher_def pub_states_at_def Let_def)
  have "\<exists>P' r. pub_fills ''A'' 1 [(1, 100), (3, 103)] P = Some P' \<and> r = last (pub_reports P') \<and>
     unat (er_cumQty r) = 4 \<and> unat (er_leavesQty r) = 1 \<and> unat (er_avgPx r) = 102"
    using fill_reports_exact [OF P(2), of "[(1, 100), (3, 103)]" 100 103]
    by (auto simp: fill_qty_def fill_notional_def simp del: pub_fills.simps)
  with P(1) show ?thesis by blast
qed

text \<open>The notional of a fill is a 64-bit product: beyond that the average price is wrong.\<close>

lemma average_price_wraps:
  "map_option (\<lambda>P. er_avgPx (last (pub_reports P)))
     (pub_process_all new_EventPublisher
       [\<lparr>event_sequence = 0, event_payload = OrderSubmitted ''A'' 1 Buy 8589934592 4294967296\<rparr>,
        \<lparr>event_sequence = 1, event_payload = TradeExecuted ''A'' 2 1 8589934592 2147483648\<rparr>]) = Some 0"
  by code_simp

end
