(* ===== verification/Spsc_Queue.thy ===== *)
theory Spsc_Queue
  imports Titan_Prelude
begin

text \<open>
  \<open>SpscQueue\<close> (\<open>include/titan/pipeline/spsc_queue.hpp\<close>): a single-producer single-consumer ring.
  The first part models the member functions as they run alone and shows that they implement
  a bounded queue.  The second part splits \<open>try_enqueue\<close> and \<open>try_dequeue\<close> at their
  atomic loads and stores and lets a producer and a consumer interleave; the load of the
  other thread's index may return any value it had since this thread last saw it, which is what
  acquire and release loads and stores of one atomic guarantee.
\<close>

unbundle bit_operations_syntax

section \<open>Member functions\<close>

record 'a SpscQueue =
  q_buffer :: "'a list"
  q_head :: u64
  q_tail :: u64

text \<open>The \<open>static_assert\<close> on \<open>Capacity\<close>, which is a \<open>size_t\<close>.\<close>

definition capacity_ok :: "nat \<Rightarrow> bool" where
  "capacity_ok cap \<longleftrightarrow> (\<exists>k. 1 \<le> k \<and> k < 64 \<and> cap = 2 ^ k)"

definition q_kMask :: "nat \<Rightarrow> u64" where
  "q_kMask cap = of_nat cap - 1"

definition q_advance :: "nat \<Rightarrow> u64 \<Rightarrow> u64" where
  "q_advance cap i = (i + 1) AND q_kMask cap"

definition new_SpscQueue :: "nat \<Rightarrow> 'a \<Rightarrow> 'a SpscQueue" where
  "new_SpscQueue cap d = \<lparr>q_buffer = replicate cap d, q_head = 0, q_tail = 0\<rparr>"

text \<open>An index outside the buffer is undefined behaviour.\<close>

definition q_try_enqueue :: "nat \<Rightarrow> 'a \<Rightarrow> 'a SpscQueue \<Rightarrow> (bool \<times> 'a SpscQueue) option" where
  "q_try_enqueue cap item q =
     (let next = q_advance cap (q_tail q) in
      if next = q_head q then Some (False, q)
      else if unat (q_tail q) < length (q_buffer q)
      then Some (True, q\<lparr>q_buffer := (q_buffer q)[unat (q_tail q) := item], q_tail := next\<rparr>)
      else None)"

definition q_try_dequeue :: "nat \<Rightarrow> 'a SpscQueue \<Rightarrow> ('a option \<times> 'a SpscQueue) option" where
  "q_try_dequeue cap q =
     (if q_head q = q_tail q then Some (None, q)
      else if unat (q_head q) < length (q_buffer q)
      then Some (Some (q_buffer q ! unat (q_head q)), q\<lparr>q_head := q_advance cap (q_head q)\<rparr>)
      else None)"

definition q_capacity :: "nat \<Rightarrow> nat" where
  "q_capacity cap = cap - 1"

definition q_empty :: "'a SpscQueue \<Rightarrow> bool" where
  "q_empty q \<longleftrightarrow> q_head q = q_tail q"

definition q_full :: "nat \<Rightarrow> 'a SpscQueue \<Rightarrow> bool" where
  "q_full cap q \<longleftrightarrow> q_advance cap (q_tail q) = q_head q"

definition q_size :: "nat \<Rightarrow> 'a SpscQueue \<Rightarrow> u64" where
  "q_size cap q = (q_tail q - q_head q) AND q_kMask cap"

section \<open>Index arithmetic\<close>

text \<open>\<open>slot cap n\<close>: the index the n-th element ever queued goes to.\<close>

definition slot :: "nat \<Rightarrow> nat \<Rightarrow> u64" where
  "slot cap n = of_nat (n mod cap)"

lemma capacity_pos:
  assumes "capacity_ok cap"
  shows "0 < cap" "1 < cap"
proof -
  from assms obtain k where "1 \<le> k" "cap = 2 ^ k" by (auto simp: capacity_ok_def)
  then show "1 < cap" using one_less_power [of "2::nat" k] by simp
  then show "0 < cap" by simp
qed

lemma and_kMask:
  assumes "capacity_ok cap"
  shows "unat (w AND q_kMask cap) = unat w mod cap"
proof -
  obtain k where k: "1 \<le> k" "k < 64" "cap = 2 ^ k" using assms by (auto simp: capacity_ok_def)
  then have "q_kMask cap = mask k" by (simp add: q_kMask_def mask_eq_exp_minus_1)
  then show ?thesis
    by (simp only: take_bit_eq_mask [symmetric] unsigned_take_bit_eq) (simp add: k(3) take_bit_eq_mod)
qed

lemma capacity_dvd:
  assumes "capacity_ok cap"
  shows "cap dvd 2 ^ 64"
proof -
  obtain k where k: "k < 64" "cap = 2 ^ k" using assms by (auto simp: capacity_ok_def)
  then have "k \<le> 64" by simp
  then show ?thesis unfolding k(2) by (rule le_imp_power_dvd)
qed

lemma unat_slot:
  assumes "capacity_ok cap"
  shows "unat (slot cap n) = n mod cap"
proof -
  have "cap \<le> 2 ^ 64" using capacity_dvd [OF assms] by (rule dvd_imp_le) simp
  then have "n mod cap < 2 ^ 64"
    using assms by (metis capacity_pos(1) mod_less_divisor order_less_le_trans)
  then show ?thesis by (simp add: slot_def unat_of_nat take_bit_nat_eq_self)
qed

lemma slot_eq_iff: "capacity_ok cap \<Longrightarrow> slot cap m = slot cap n \<longleftrightarrow> m mod cap = n mod cap"
  by (simp add: word_unat_eq_iff unat_slot)

lemma unat_mod_capacity:
  assumes "capacity_ok cap"
  shows "unat (of_nat n :: u64) mod cap = n mod cap"
  using capacity_dvd [OF assms] by (simp add: unat_of_nat take_bit_eq_mod mod_mod_cancel)

lemma advance_slot:
  assumes "capacity_ok cap"
  shows "q_advance cap (slot cap n) = slot cap (Suc n)"
proof -
  have "unat (q_advance cap (slot cap n)) = unat (slot cap n + 1) mod cap"
    using and_kMask [OF assms] by (simp add: q_advance_def)
  also have "slot cap n + 1 = of_nat (n mod cap + 1)" by (simp add: slot_def)
  also have "unat (of_nat (n mod cap + 1) :: u64) mod cap = (n mod cap + 1) mod cap"
    using unat_mod_capacity [OF assms] .
  also have "\<dots> = unat (slot cap (Suc n))" by (simp add: unat_slot [OF assms] mod_Suc_eq)
  finally show ?thesis by (simp add: word_unat_eq_iff)
qed

lemma mod_add_cancel:
  assumes "((a::nat) + n) mod c = (b + n) mod c"
  shows "a mod c = b mod c"
proof -
  have "(int a + int n) mod int c = (int b + int n) mod int c"
    using assms by (simp flip: of_nat_add of_nat_mod)
  then have "(int a + int n - int n) mod int c = (int b + int n - int n) mod int c"
    by (rule mod_diff_cong) simp
  then show ?thesis by (simp flip: of_nat_mod)
qed

text \<open>Fewer than \<open>cap\<close> apart, two positions share an index only when they are equal.\<close>

lemma mod_apart:
  assumes "(m::nat) \<le> n" "n < m + cap" "m mod cap = n mod cap"
  shows "m = n"
proof -
  from assms(1,3) obtain d where d: "n = m + cap * d" using mod_eq_nat1E [of n cap m] by metis
  with assms(2) have "cap * d < cap * 1" by simp
  then have "d = 0" by (simp only: nat_mult_less_cancel_disj) simp
  with d show ?thesis by simp
qed

section \<open>A bounded queue\<close>

datatype 'a QueueOp = Enqueue 'a | Dequeue

datatype 'a QueueReply = Enqueued bool | Dequeued "'a option"

fun queue_run :: "('a \<Rightarrow> 'q \<Rightarrow> (bool \<times> 'q) option) \<Rightarrow> ('q \<Rightarrow> ('a option \<times> 'q) option) \<Rightarrow>
    'a QueueOp list \<Rightarrow> 'q \<Rightarrow> ('a QueueReply list \<times> 'q) option" where
  "queue_run enq deq [] q = Some ([], q)"
| "queue_run enq deq (Enqueue x # ops) q = do {
     (ok, q1) \<leftarrow> enq x q; (rs, q2) \<leftarrow> queue_run enq deq ops q1; Some (Enqueued ok # rs, q2) }"
| "queue_run enq deq (Dequeue # ops) q = do {
     (r, q1) \<leftarrow> deq q; (rs, q2) \<leftarrow> queue_run enq deq ops q1; Some (Dequeued r # rs, q2) }"

text \<open>The promise: a list of at most \<open>limit\<close> elements, first in, first out; a full queue refuses.\<close>

fun fifo_run :: "nat \<Rightarrow> 'a QueueOp list \<Rightarrow> 'a list \<Rightarrow> 'a QueueReply list \<times> 'a list" where
  "fifo_run limit [] xs = ([], xs)"
| "fifo_run limit (Enqueue x # ops) xs =
     (if length xs < limit then map_prod ((#) (Enqueued True)) id (fifo_run limit ops (xs @ [x]))
      else map_prod ((#) (Enqueued False)) id (fifo_run limit ops xs))"
| "fifo_run limit (Dequeue # ops) xs =
     (case xs of
        [] \<Rightarrow> map_prod ((#) (Dequeued None)) id (fifo_run limit ops [])
      | x # ys \<Rightarrow> map_prod ((#) (Dequeued (Some x))) id (fifo_run limit ops ys))"

locale bounded_fifo =
  fixes limit :: nat
    and holds :: "'q \<Rightarrow> 'a list \<Rightarrow> bool"
    and enq :: "'a \<Rightarrow> 'q \<Rightarrow> (bool \<times> 'q) option"
    and deq :: "'q \<Rightarrow> ('a option \<times> 'q) option"
  assumes enq_room: "holds q xs \<Longrightarrow> length xs < limit \<Longrightarrow> \<exists>q'. enq x q = Some (True, q') \<and> holds q' (xs @ [x])"
    and enq_full: "holds q xs \<Longrightarrow> length xs = limit \<Longrightarrow> enq x q = Some (False, q)"
    and deq_front: "holds q (x # xs) \<Longrightarrow> \<exists>q'. deq q = Some (Some x, q') \<and> holds q' xs"
    and deq_empty: "holds q [] \<Longrightarrow> deq q = Some (None, q)"
    and holds_limit: "holds q xs \<Longrightarrow> length xs \<le> limit"
begin

lemma run_refines:
  "holds q xs \<Longrightarrow> \<exists>q'. queue_run enq deq ops q = Some (fst (fifo_run limit ops xs), q')
     \<and> holds q' (snd (fifo_run limit ops xs))"
proof (induction ops arbitrary: q xs)
  case (Cons c ops)
  show ?case
  proof (cases c)
    case (Enqueue x)
    show ?thesis
    proof (cases "length xs < limit")
      case True
      then obtain q1 where "enq x q = Some (True, q1)" "holds q1 (xs @ [x])" using enq_room [OF Cons.prems] by blast
      with Cons.IH [of q1 "xs @ [x]"] True Enqueue show ?thesis by auto
    next
      case False
      then have "enq x q = Some (False, q)" using enq_full holds_limit Cons.prems by (simp add: order_antisym)
      with Cons.IH [OF Cons.prems] False Enqueue show ?thesis by auto
    qed
  next
    case Dequeue
    show ?thesis
    proof (cases xs)
      case Nil
      then have "deq q = Some (None, q)" using deq_empty Cons.prems by simp
      with Cons.IH [OF Cons.prems] Nil Dequeue show ?thesis by auto
    next
      case (Cons x ys)
      then obtain q1 where "deq q = Some (Some x, q1)" "holds q1 ys" using deq_front Cons.prems by blast
      with Cons.IH [of q1 ys] Cons Dequeue show ?thesis by auto
    qed
  qed
qed simp

end

text \<open>What the ring holds when \<open>n\<close> elements have been dequeued from it before.\<close>

definition ring_at :: "nat \<Rightarrow> nat \<Rightarrow> 'a SpscQueue \<Rightarrow> 'a list \<Rightarrow> bool" where
  "ring_at cap n q xs \<longleftrightarrow> capacity_ok cap \<and> length (q_buffer q) = cap \<and> length xs < cap \<and>
     q_head q = slot cap n \<and> q_tail q = slot cap (n + length xs) \<and>
     (\<forall>i<length xs. q_buffer q ! ((n + i) mod cap) = xs ! i)"

definition ring_holds :: "nat \<Rightarrow> 'a SpscQueue \<Rightarrow> 'a list \<Rightarrow> bool" where
  "ring_holds cap q xs \<longleftrightarrow> (\<exists>n. ring_at cap n q xs)"

lemma ring_full:
  assumes "ring_at cap n q xs"
  shows "q_advance cap (q_tail q) = q_head q \<longleftrightarrow> length xs = cap - 1"
proof -
  have cap: "capacity_ok cap" "length xs < cap" using assms by (auto simp: ring_at_def)
  have "q_advance cap (q_tail q) = q_head q \<longleftrightarrow> Suc (n + length xs) mod cap = n mod cap"
    using assms by (simp add: ring_at_def advance_slot slot_eq_iff)
  also have "\<dots> \<longleftrightarrow> Suc (length xs) = cap"
  proof
    assume "Suc (n + length xs) mod cap = n mod cap"
    then have "n = Suc (n + length xs) \<or> \<not> Suc (n + length xs) < n + cap"
      using mod_apart [of n "Suc (n + length xs)" cap] by auto
    with cap(2) show "Suc (length xs) = cap" by linarith
  qed (metis add_Suc_right mod_add_self2)
  finally show ?thesis using cap capacity_pos by auto
qed

lemma ring_empty:
  assumes "ring_at cap n q xs"
  shows "q_head q = q_tail q \<longleftrightarrow> xs = []"
  using assms mod_apart [of n "n + length xs" cap] by (auto simp: ring_at_def slot_eq_iff)

lemma ring_enqueue:
  assumes "ring_at cap n q xs" "length xs < cap - 1"
  shows "ring_at cap n (q\<lparr>q_buffer := (q_buffer q)[unat (q_tail q) := x], q_tail := q_advance cap (q_tail q)\<rparr>) (xs @ [x])"
    "unat (q_tail q) < length (q_buffer q)"
proof -
  have cap: "capacity_ok cap" using assms by (simp add: ring_at_def)
  have idx: "unat (q_tail q) = (n + length xs) mod cap" using assms cap by (simp add: ring_at_def unat_slot)
  show "unat (q_tail q) < length (q_buffer q)"
    unfolding idx using assms capacity_pos [OF cap] by (simp add: ring_at_def)
  have "(n + length xs) mod cap \<noteq> (n + i) mod cap" if "i < length xs" for i
    using mod_apart [of "n + i" "n + length xs" cap] that assms by (auto simp: ring_at_def)
  then have "(q_buffer q)[unat (q_tail q) := x] ! ((n + i) mod cap) = (xs @ [x]) ! i" if "i < length (xs @ [x])" for i
    using that assms cap capacity_pos [OF cap] unfolding idx
    by (cases "i < length xs") (auto simp: ring_at_def nth_append less_Suc_eq)
  then show "ring_at cap n (q\<lparr>q_buffer := (q_buffer q)[unat (q_tail q) := x], q_tail := q_advance cap (q_tail q)\<rparr>) (xs @ [x])"
    using assms cap by (auto simp: ring_at_def advance_slot)
qed

lemma ring_dequeue:
  assumes "ring_at cap n q (x # xs)"
  shows "ring_at cap (Suc n) (q\<lparr>q_head := q_advance cap (q_head q)\<rparr>) xs"
    "unat (q_head q) < length (q_buffer q)" "q_buffer q ! unat (q_head q) = x"
proof -
  have cap: "capacity_ok cap" using assms by (simp add: ring_at_def)
  have idx: "unat (q_head q) = n mod cap" using assms cap by (simp add: ring_at_def unat_slot)
  show "unat (q_head q) < length (q_buffer q)"
    unfolding idx using assms capacity_pos [OF cap] by (simp add: ring_at_def)
  show "q_buffer q ! unat (q_head q) = x"
    unfolding idx using assms by (auto simp: ring_at_def dest: spec [of _ 0])
  show "ring_at cap (Suc n) (q\<lparr>q_head := q_advance cap (q_head q)\<rparr>) xs"
    using assms cap by (force simp: ring_at_def advance_slot)
qed

interpretation ring: bounded_fifo "q_capacity cap" "ring_holds cap" "q_try_enqueue cap" "q_try_dequeue cap" for cap
proof unfold_locales
  fix q :: "'a SpscQueue" and x xs
  show "\<exists>q'. q_try_enqueue cap x q = Some (True, q') \<and> ring_holds cap q' (xs @ [x])"
    if room: "ring_holds cap q xs" "length xs < q_capacity cap"
  proof -
    obtain n where n: "ring_at cap n q xs" "length xs < cap - 1" using room by (auto simp: ring_holds_def q_capacity_def)
    with ring_full [OF n(1)] ring_enqueue [OF n] show ?thesis
      by (auto simp: ring_holds_def q_try_enqueue_def Let_def)
  qed
  show "q_try_enqueue cap x q = Some (False, q)" if "ring_holds cap q xs" "length xs = q_capacity cap"
    using that ring_full by (auto simp: ring_holds_def q_try_enqueue_def Let_def q_capacity_def)
  show "\<exists>q'. q_try_dequeue cap q = Some (Some x, q') \<and> ring_holds cap q' xs" if front: "ring_holds cap q (x # xs)"
  proof -
    obtain n where n: "ring_at cap n q (x # xs)" using front by (auto simp: ring_holds_def)
    with ring_empty [OF n] ring_dequeue [OF n] show ?thesis
      by (auto simp: ring_holds_def q_try_dequeue_def)
  qed
  show "q_try_dequeue cap q = Some (None, q)" if "ring_holds cap q []"
    using that ring_empty by (auto simp: ring_holds_def q_try_dequeue_def)
  show "length xs \<le> q_capacity cap" if "ring_holds cap q xs"
    using that by (auto simp: ring_holds_def ring_at_def q_capacity_def)
qed

lemma ring_new: "capacity_ok cap \<Longrightarrow> ring_at cap 0 (new_SpscQueue cap d) []"
  by (simp add: ring_at_def new_SpscQueue_def slot_def capacity_pos)

lemma ring_size:
  assumes "ring_at cap n q xs"
  shows "unat (q_size cap q) = length xs"
proof -
  have cap: "capacity_ok cap" "length xs < cap" using assms by (auto simp: ring_at_def)
  let ?w = "q_tail q - q_head q"
  have "unat (v + u) mod cap = (unat v + unat u) mod cap" for v u :: u64
    using capacity_dvd [OF cap(1)] by (simp add: unat_word_ariths mod_mod_cancel)
  from this [of ?w "q_head q"] have "(unat ?w + n) mod cap = (length xs + n) mod cap"
    using assms by (simp add: ring_at_def unat_slot mod_simps add.commute)
  from mod_add_cancel [OF this] have "unat ?w mod cap = length xs" using cap(2) by simp
  then show ?thesis using and_kMask [OF cap(1), of ?w] by (simp add: q_size_def)
qed

section \<open>Producer and consumer interleaved\<close>

text \<open>Where each thread is inside its member function, with the local variables read so far.\<close>

datatype 'a ProducerPc = PIdle | PTail 'a u64 | PRoom 'a u64 u64 | PWritten 'a u64

datatype 'a ConsumerPc = CIdle | CHead u64 | CReady u64 | CTaken u64 'a

text \<open>
  The shared ring, the two threads, the elements published and taken so far, and how much of the
  other thread's index each side has seen.
\<close>

record 'a SpscState =
  s_ring :: "'a SpscQueue"
  s_ppc :: "'a ProducerPc"
  s_cpc :: "'a ConsumerPc"
  s_published :: "'a list"
  s_taken :: "'a list"
  s_pseen :: nat
  s_cseen :: nat

datatype 'a SpscAct = Begin 'a | Full | Room | Write | Publish 'a | Fetch | Empty | Ready | Read | Take 'a

text \<open>
  One step is one atomic access.  The n-th value of an index is \<open>slot cap n\<close>; a load of the other
  side's index yields some \<open>n\<close> not before what was seen already and not after what was stored.
\<close>

inductive spsc_step :: "nat \<Rightarrow> 'a SpscState \<Rightarrow> 'a SpscAct \<Rightarrow> 'a SpscState \<Rightarrow> bool" for cap where
  enq_begin: "s_ppc s = PIdle \<Longrightarrow>
    spsc_step cap s (Begin x) (s\<lparr>s_ppc := PTail x (q_tail (s_ring s))\<rparr>)"
| enq_full: "s_ppc s = PTail x t \<Longrightarrow> s_pseen s \<le> n \<Longrightarrow> n \<le> length (s_taken s) \<Longrightarrow> q_advance cap t = slot cap n \<Longrightarrow>
    spsc_step cap s Full (s\<lparr>s_ppc := PIdle, s_pseen := n\<rparr>)"
| enq_room: "s_ppc s = PTail x t \<Longrightarrow> s_pseen s \<le> n \<Longrightarrow> n \<le> length (s_taken s) \<Longrightarrow> q_advance cap t \<noteq> slot cap n \<Longrightarrow>
    spsc_step cap s Room (s\<lparr>s_ppc := PRoom x t (q_advance cap t), s_pseen := n\<rparr>)"
| enq_write: "s_ppc s = PRoom x t next \<Longrightarrow> unat t < length (q_buffer (s_ring s)) \<Longrightarrow>
    spsc_step cap s Write
      (s\<lparr>s_ppc := PWritten x next, s_ring := (s_ring s)\<lparr>q_buffer := (q_buffer (s_ring s))[unat t := x]\<rparr>\<rparr>)"
| enq_publish: "s_ppc s = PWritten x next \<Longrightarrow>
    spsc_step cap s (Publish x)
      (s\<lparr>s_ppc := PIdle, s_ring := (s_ring s)\<lparr>q_tail := next\<rparr>, s_published := s_published s @ [x]\<rparr>)"
| deq_begin: "s_cpc s = CIdle \<Longrightarrow>
    spsc_step cap s Fetch (s\<lparr>s_cpc := CHead (q_head (s_ring s))\<rparr>)"
| deq_empty: "s_cpc s = CHead h \<Longrightarrow> s_cseen s \<le> n \<Longrightarrow> n \<le> length (s_published s) \<Longrightarrow> h = slot cap n \<Longrightarrow>
    spsc_step cap s Empty (s\<lparr>s_cpc := CIdle, s_cseen := n\<rparr>)"
| deq_ready: "s_cpc s = CHead h \<Longrightarrow> s_cseen s \<le> n \<Longrightarrow> n \<le> length (s_published s) \<Longrightarrow> h \<noteq> slot cap n \<Longrightarrow>
    spsc_step cap s Ready (s\<lparr>s_cpc := CReady h, s_cseen := n\<rparr>)"
| deq_read: "s_cpc s = CReady h \<Longrightarrow> unat h < length (q_buffer (s_ring s)) \<Longrightarrow>
    spsc_step cap s Read (s\<lparr>s_cpc := CTaken h (q_buffer (s_ring s) ! unat h)\<rparr>)"
| deq_take: "s_cpc s = CTaken h x \<Longrightarrow>
    spsc_step cap s (Take x)
      (s\<lparr>s_cpc := CIdle, s_ring := (s_ring s)\<lparr>q_head := q_advance cap h\<rparr>, s_taken := s_taken s @ [x]\<rparr>)"

definition spsc_init :: "nat \<Rightarrow> 'a \<Rightarrow> 'a SpscState" where
  "spsc_init cap d = \<lparr>s_ring = new_SpscQueue cap d, s_ppc = PIdle, s_cpc = CIdle,
     s_published = [], s_taken = [], s_pseen = 0, s_cseen = 0\<rparr>"

inductive spsc_reach :: "nat \<Rightarrow> 'a \<Rightarrow> 'a SpscState \<Rightarrow> bool" for cap d where
  reach_init: "spsc_reach cap d (spsc_init cap d)"
| reach_step: "spsc_reach cap d s \<Longrightarrow> spsc_step cap s a s' \<Longrightarrow> spsc_reach cap d s'"

subsection \<open>The invariant\<close>

definition ring_ok :: "nat \<Rightarrow> 'a SpscState \<Rightarrow> bool" where
  "ring_ok cap s \<longleftrightarrow>
     capacity_ok cap \<and> length (q_buffer (s_ring s)) = cap \<and>
     q_head (s_ring s) = slot cap (length (s_taken s)) \<and> q_tail (s_ring s) = slot cap (length (s_published s)) \<and>
     s_pseen s \<le> length (s_taken s) \<and> length (s_taken s) \<le> s_cseen s \<and> s_cseen s \<le> length (s_published s) \<and>
     length (s_published s) < s_pseen s + cap \<and>
     s_taken s = take (length (s_taken s)) (s_published s) \<and>
     (\<forall>i. length (s_taken s) \<le> i \<and> i < length (s_published s) \<longrightarrow>
        q_buffer (s_ring s) ! (i mod cap) = s_published s ! i)"

fun producer_ok :: "nat \<Rightarrow> 'a SpscState \<Rightarrow> 'a ProducerPc \<Rightarrow> bool" where
  "producer_ok cap s PIdle \<longleftrightarrow> True"
| "producer_ok cap s (PTail x t) \<longleftrightarrow> t = slot cap (length (s_published s))"
| "producer_ok cap s (PRoom x t next) \<longleftrightarrow>
     t = slot cap (length (s_published s)) \<and> next = slot cap (Suc (length (s_published s))) \<and>
     Suc (length (s_published s)) < s_pseen s + cap"
| "producer_ok cap s (PWritten x next) \<longleftrightarrow>
     next = slot cap (Suc (length (s_published s))) \<and> Suc (length (s_published s)) < s_pseen s + cap \<and>
     q_buffer (s_ring s) ! (length (s_published s) mod cap) = x"

fun consumer_ok :: "nat \<Rightarrow> 'a SpscState \<Rightarrow> 'a ConsumerPc \<Rightarrow> bool" where
  "consumer_ok cap s CIdle \<longleftrightarrow> True"
| "consumer_ok cap s (CHead h) \<longleftrightarrow> h = slot cap (length (s_taken s))"
| "consumer_ok cap s (CReady h) \<longleftrightarrow> h = slot cap (length (s_taken s)) \<and> length (s_taken s) < s_cseen s"
| "consumer_ok cap s (CTaken h x) \<longleftrightarrow>
     h = slot cap (length (s_taken s)) \<and> length (s_taken s) < s_cseen s \<and> x = s_published s ! length (s_taken s)"

definition spsc_inv :: "nat \<Rightarrow> 'a SpscState \<Rightarrow> bool" where
  "spsc_inv cap s \<longleftrightarrow> ring_ok cap s \<and> producer_ok cap s (s_ppc s) \<and> consumer_ok cap s (s_cpc s)"

lemma spsc_inv_init: "capacity_ok cap \<Longrightarrow> spsc_inv cap (spsc_init cap d)"
  by (simp add: spsc_inv_def ring_ok_def spsc_init_def new_SpscQueue_def slot_def capacity_pos)

text \<open>The room test is right even when the index it reads is stale.\<close>

lemma room_sound:
  assumes "capacity_ok cap" "n \<le> T" "T < n + cap" "slot cap (Suc T) \<noteq> slot cap n"
  shows "Suc T < n + cap"
proof (rule ccontr)
  assume "\<not> Suc T < n + cap"
  with assms(3) have "Suc T = n + cap" by simp
  with assms(1,4) show False by (simp add: slot_eq_iff)
qed

text \<open>The slot being written is not one of the slots in use.\<close>

lemma write_apart:
  assumes "ring_ok cap s" "length (s_taken s) \<le> i" "i < length (s_published s)"
  shows "length (s_published s) mod cap \<noteq> i mod cap"
  using mod_apart [of i "length (s_published s)" cap] assms by (auto simp: ring_ok_def)

lemma spsc_step_inv:
  assumes "spsc_step cap s a s'" "spsc_inv cap s"
  shows "spsc_inv cap s'"
  using assms
proof (cases rule: spsc_step.cases)
  case (enq_room x t n)
  then show ?thesis
    using assms(2) room_sound [of cap n "length (s_published s)"]
    by (cases "s_cpc s") (auto simp: spsc_inv_def ring_ok_def advance_slot)
next
  case (enq_write x t nx)
  then show ?thesis
    using assms(2) write_apart [of cap s] capacity_pos [of cap]
    by (cases "s_cpc s") (auto simp: spsc_inv_def ring_ok_def unat_slot nth_list_update)
next
  case (enq_publish x nx)
  then show ?thesis
    using assms(2) by (cases "s_cpc s") (auto simp: spsc_inv_def ring_ok_def nth_append less_Suc_eq)
next
  case (deq_ready h n)
  then show ?thesis
    using assms(2) by (cases "s_ppc s") (auto simp: spsc_inv_def ring_ok_def order.strict_iff_order)
next
  case (deq_read h)
  then show ?thesis
    using assms(2) by (cases "s_ppc s") (auto simp: spsc_inv_def ring_ok_def unat_slot)
next
  case (deq_take h x)
  then show ?thesis
    using assms(2) by (cases "s_ppc s") (auto simp: spsc_inv_def ring_ok_def advance_slot take_Suc_conv_app_nth)
qed (auto simp: spsc_inv_def ring_ok_def elim: producer_ok.elims consumer_ok.elims)

lemma spsc_reach_inv:
  assumes "spsc_reach cap d s" "capacity_ok cap"
  shows "spsc_inv cap s"
  using assms by (induction rule: spsc_reach.induct) (auto intro: spsc_inv_init spsc_step_inv)

section \<open>Properties\<close>

text \<open>
  C35. Used from one thread at a time, the ring is a bounded first-in-first-out queue: for every
  power-of-two capacity and every sequence of calls it returns, call by call, what a list of at
  most \<open>Capacity - 1\<close> elements returns, never touches a slot outside its buffer, and
  \<open>size\<close>, \<open>empty\<close> and \<open>full\<close> describe that list, indices wrapping round as often as they may.
\<close>

theorem ring_is_bounded_fifo:
  assumes "capacity_ok cap"
  shows "\<exists>q. queue_run (q_try_enqueue cap) (q_try_dequeue cap) ops (new_SpscQueue cap d)
      = Some (fst (fifo_run (cap - 1) ops []), q) \<and>
    unat (q_size cap q) = length (snd (fifo_run (cap - 1) ops [])) \<and>
    (q_empty q \<longleftrightarrow> snd (fifo_run (cap - 1) ops []) = []) \<and>
    (q_full cap q \<longleftrightarrow> length (snd (fifo_run (cap - 1) ops [])) = cap - 1)"
proof -
  have "ring_holds cap (new_SpscQueue cap d) []" using ring_new [OF assms, of d] by (auto simp: ring_holds_def)
  from ring.run_refines [OF this, of ops] obtain q n where
    q: "queue_run (q_try_enqueue cap) (q_try_dequeue cap) ops (new_SpscQueue cap d) = Some (fst (fifo_run (cap - 1) ops []), q)"
    "ring_at cap n q (snd (fifo_run (cap - 1) ops []))"
    by (auto simp: ring_holds_def q_capacity_def)
  with ring_size [OF q(2)] ring_empty [OF q(2)] ring_full [OF q(2)] show ?thesis
    by (auto simp: q_empty_def q_full_def)
qed

theorem ring_is_bounded_fifo_witness:
  "\<exists>q. queue_run (q_try_enqueue 2) (q_try_dequeue 2) [Enqueue (1::nat), Enqueue 2, Dequeue, Enqueue 3, Dequeue, Dequeue]
      (new_SpscQueue 2 0)
    = Some ([Enqueued True, Enqueued False, Dequeued (Some 1), Enqueued True, Dequeued (Some 3), Dequeued None], q)
    \<and> q_empty q"
proof -
  have "capacity_ok 2" unfolding capacity_ok_def by (rule exI [of _ 1]) simp
  from ring_is_bounded_fifo [OF this, of "[Enqueue (1::nat), Enqueue 2, Dequeue, Enqueue 3, Dequeue, Dequeue]" 0]
  show ?thesis by (auto simp del: queue_run.simps)
qed

text \<open>
  C36. With a producer and a consumer thread interleaved in any way, and each seeing the other's
  index as late as the memory model allows: the elements taken are a prefix of the elements
  published, in order, each once and unchanged; at most \<open>Capacity - 1\<close> are in flight; both indices
  stay inside the buffer; and the slot the producer writes is never the slot the consumer reads.
\<close>

theorem spsc_fifo_and_race_free:
  assumes "capacity_ok cap" "spsc_reach cap d s"
  shows "(\<exists>pending. s_published s = s_taken s @ pending \<and> length pending \<le> cap - 1) \<and>
    unat (q_tail (s_ring s)) < length (q_buffer (s_ring s)) \<and> unat (q_head (s_ring s)) < length (q_buffer (s_ring s)) \<and>
    (\<forall>x t next h. s_ppc s = PRoom x t next \<and> s_cpc s = CReady h \<longrightarrow> t \<noteq> h)"
proof -
  have inv: "spsc_inv cap s" using spsc_reach_inv [OF assms(2,1)] .
  then have ok: "ring_ok cap s" by (simp add: spsc_inv_def)
  have "s_published s = s_taken s @ drop (length (s_taken s)) (s_published s)"
    using ok by (metis append_take_drop_id ring_ok_def)
  moreover have "length (drop (length (s_taken s)) (s_published s)) \<le> cap - 1"
    using ok by (auto simp: ring_ok_def)
  moreover have "unat (q_tail (s_ring s)) < length (q_buffer (s_ring s))" "unat (q_head (s_ring s)) < length (q_buffer (s_ring s))"
    using ok capacity_pos [OF assms(1)] by (auto simp: ring_ok_def unat_slot)
  moreover have "t \<noteq> h" if "s_ppc s = PRoom x t nx" "s_cpc s = CReady h" for x t nx h
    using write_apart [OF ok, of "length (s_taken s)"] inv ok that assms(1)
    by (auto simp: spsc_inv_def ring_ok_def slot_eq_iff)
  ultimately show ?thesis by blast
qed

theorem spsc_fifo_and_race_free_witness:
  "\<exists>s. spsc_reach 4 (0::nat) s \<and> s_ppc s = PRoom 6 1 2 \<and> s_cpc s = CReady 0 \<and> s_published s = [5] \<and>
     (\<exists>pending. s_published s = s_taken s @ pending \<and> length pending \<le> 3)"
proof -
  have cap: "capacity_ok 4" unfolding capacity_ok_def by (rule exI [of _ 2]) simp
  have adv: "q_advance 4 0 = 1" "q_advance 4 1 = 2" by (simp_all add: q_advance_def q_kMask_def)
  have slots: "slot 4 0 = 0" "slot 4 (Suc 0) = 1" by (simp_all add: slot_def)
  note simps = adv slots spsc_init_def new_SpscQueue_def
  define s where "s = \<lparr>s_ring = \<lparr>q_buffer = [5, 0, 0, 0::nat], q_head = 0, q_tail = 1\<rparr>, s_ppc = PRoom 6 1 2, s_cpc = CReady 0,
    s_published = [5], s_taken = [], s_pseen = 0, s_cseen = 1\<rparr>"
  have "spsc_reach 4 (0::nat) (spsc_init 4 0)" by (rule reach_init)
  from reach_step [OF this enq_begin [where x = 5]] have "spsc_reach 4 (0::nat) ((spsc_init 4 0)\<lparr>s_ppc := PTail 5 0\<rparr>)"
    by (simp add: simps)
  from reach_step [OF this enq_room [where n = 0]] have "spsc_reach 4 (0::nat) ((spsc_init 4 0)\<lparr>s_ppc := PRoom 5 0 1\<rparr>)"
    by (simp add: simps)
  from reach_step [OF this enq_write] have "spsc_reach 4 (0::nat)
      ((spsc_init 4 0)\<lparr>s_ppc := PWritten 5 1, s_ring := \<lparr>q_buffer = [5, 0, 0, 0], q_head = 0, q_tail = 0\<rparr>\<rparr>)"
    by (simp add: simps numeral_eq_Suc)
  from reach_step [OF this enq_publish] have "spsc_reach 4 (0::nat)
      ((spsc_init 4 0)\<lparr>s_published := [5], s_ring := \<lparr>q_buffer = [5, 0, 0, 0], q_head = 0, q_tail = 1\<rparr>\<rparr>)"
    by (simp add: simps)
  from reach_step [OF this enq_begin [where x = 6]] have "spsc_reach 4 (0::nat)
      ((spsc_init 4 0)\<lparr>s_ppc := PTail 6 1, s_published := [5], s_ring := \<lparr>q_buffer = [5, 0, 0, 0], q_head = 0, q_tail = 1\<rparr>\<rparr>)"
    by (simp add: simps)
  from reach_step [OF this enq_room [where n = 0]] have "spsc_reach 4 (0::nat)
      ((spsc_init 4 0)\<lparr>s_ppc := PRoom 6 1 2, s_published := [5], s_ring := \<lparr>q_buffer = [5, 0, 0, 0], q_head = 0, q_tail = 1\<rparr>\<rparr>)"
    by (simp add: simps)
  from reach_step [OF this deq_begin] have "spsc_reach 4 (0::nat)
      ((spsc_init 4 0)\<lparr>s_ppc := PRoom 6 1 2, s_cpc := CHead 0, s_published := [5],
         s_ring := \<lparr>q_buffer = [5, 0, 0, 0], q_head = 0, q_tail = 1\<rparr>\<rparr>)"
    by (simp add: simps)
  from reach_step [OF this deq_ready [where n = 1]] have s: "spsc_reach 4 (0::nat) s"
    by (simp add: simps s_def)
  from spsc_fifo_and_race_free [OF cap s] have "\<exists>pending. s_published s = s_taken s @ pending \<and> length pending \<le> 3"
    by (auto simp: s_def)
  with s show ?thesis by (intro exI [of _ s]) (simp add: s_def)
qed

end
