(* ===== verification/Staged_Processor.thy ===== *)
theory Staged_Processor
  imports Spsc_Queue Demo_Session
begin

text \<open>
  \<open>StagedProcessor\<close> (\<open>include/titan/pipeline/staged_processor.hpp\<close>, \<open>pipeline_event.hpp\<close>,
  \<open>src/pipeline/staged_processor.cpp\<close>): a producer thread pushes events through the ring to a consumer
  thread that owns a registry.  The threads run as the interleaved steps of \<open>spsc_step\<close>; the
  clock readings are parameters of the steps that take them.  Starting, pinning and joining
  the thread has no model: \<open>pl_exited\<close> is the state \<open>join\<close> waits for.
\<close>

section \<open>Events\<close>

datatype PipelineEventKind = KSubmitOrder | KCancelOrder | KMatchOrder | KCancelReplace | KShutdown

record PipelineEvent =
  pe_kind :: PipelineEventKind
  pe_sequence :: u64
  pe_enqueueTimeNs :: u64
  pe_symbol :: Symbol
  pe_order :: Order
  pe_cancelId :: OrderId

definition default_PipelineEvent :: PipelineEvent where
  "default_PipelineEvent = \<lparr>pe_kind = KShutdown, pe_sequence = 0, pe_enqueueTimeNs = 0, pe_symbol = '''',
     pe_order = default_order, pe_cancelId = 0\<rparr>"

text \<open>The events the \<open>enqueue*\<close> functions and \<open>stop\<close> build; \<open>now\<close> is the clock.\<close>

definition enqueueSubmit_event :: "u64 \<Rightarrow> Symbol \<Rightarrow> Order \<Rightarrow> u64 \<Rightarrow> PipelineEvent" where
  "enqueueSubmit_event now symbol ord sequence = default_PipelineEvent
     \<lparr>pe_kind := KSubmitOrder, pe_sequence := sequence, pe_enqueueTimeNs := now, pe_symbol := symbol, pe_order := ord\<rparr>"

definition enqueueCancel_event :: "u64 \<Rightarrow> Symbol \<Rightarrow> OrderId \<Rightarrow> u64 \<Rightarrow> PipelineEvent" where
  "enqueueCancel_event now symbol i sequence = default_PipelineEvent
     \<lparr>pe_kind := KCancelOrder, pe_sequence := sequence, pe_enqueueTimeNs := now, pe_symbol := symbol, pe_cancelId := i\<rparr>"

definition enqueueMatch_event :: "u64 \<Rightarrow> Symbol \<Rightarrow> Order \<Rightarrow> u64 \<Rightarrow> PipelineEvent" where
  "enqueueMatch_event now symbol ord sequence = default_PipelineEvent
     \<lparr>pe_kind := KMatchOrder, pe_sequence := sequence, pe_enqueueTimeNs := now, pe_symbol := symbol, pe_order := ord\<rparr>"

definition enqueueCancelReplace_event :: "u64 \<Rightarrow> Symbol \<Rightarrow> OrderId \<Rightarrow> Order \<Rightarrow> u64 \<Rightarrow> PipelineEvent" where
  "enqueueCancelReplace_event now symbol oldId newOrder sequence = default_PipelineEvent
     \<lparr>pe_kind := KCancelReplace, pe_sequence := sequence, pe_enqueueTimeNs := now, pe_symbol := symbol,
      pe_cancelId := oldId, pe_order := newOrder\<rparr>"

definition stop_event :: PipelineEvent where
  "stop_event = default_PipelineEvent\<lparr>pe_kind := KShutdown\<rparr>"

section \<open>The consumer\<close>

text \<open>The registry, the applied sequence numbers, and the calls made to the apply callback.\<close>

record StagedConsumer =
  sc_registry :: InstrumentRegistry
  sc_appliedSequences :: "u64 list"
  sc_callbacks :: "(u64 \<times> Trade list \<times> u64) list"

text \<open>The body of the consumer loop for an event that is not the sentinel.\<close>

definition consumer_apply :: "u64 \<Rightarrow> PipelineEvent \<Rightarrow> StagedConsumer \<Rightarrow> StagedConsumer option" where
  "consumer_apply now e c = do {
     (trades, R) \<leftarrow> (case pe_kind e of
        KSubmitOrder \<Rightarrow> map_option (\<lambda>(r, R). ([], R)) (reg_submitOrder (sc_registry c) (pe_symbol e) (pe_order e))
      | KCancelOrder \<Rightarrow> map_option (\<lambda>(r, R). ([], R)) (reg_cancelOrder (sc_registry c) (pe_symbol e) (pe_cancelId e))
      | KMatchOrder \<Rightarrow> reg_matchOrder (sc_registry c) (pe_symbol e) (pe_order e)
      | KCancelReplace \<Rightarrow> map_option (\<lambda>(r, R). ([], R))
          (reg_cancelReplace (sc_registry c) (pe_symbol e) (pe_cancelId e) (pe_order e))
      | KShutdown \<Rightarrow> Some ([], sc_registry c));
     Some \<lparr>sc_registry = R, sc_appliedSequences = sc_appliedSequences c @ [pe_sequence e],
           sc_callbacks = sc_callbacks c @ [(pe_sequence e, trades, now - pe_enqueueTimeNs e)]\<rparr> }"

section \<open>The two threads\<close>

definition kPipelineQueueCapacity :: nat where "kPipelineQueueCapacity = 4096"

record Pipeline =
  pl_ring :: "PipelineEvent SpscState"
  pl_todo :: "PipelineEvent list"
  pl_exited :: bool
  pl_consumer :: StagedConsumer

text \<open>
  The producer enqueues its events in order, retrying on a full ring; the consumer polls,
  applies what it takes and leaves its loop at the sentinel.
\<close>

inductive pipeline_step :: "nat \<Rightarrow> Pipeline \<Rightarrow> Pipeline \<Rightarrow> bool" for cap where
  pl_begin: "spsc_step cap (pl_ring s) (Begin e) r \<Longrightarrow> pl_todo s = e # rest \<Longrightarrow>
    pipeline_step cap s (s\<lparr>pl_ring := r\<rparr>)"
| pl_producing: "spsc_step cap (pl_ring s) a r \<Longrightarrow> a \<in> {Full, Room, Write} \<Longrightarrow>
    pipeline_step cap s (s\<lparr>pl_ring := r\<rparr>)"
| pl_publish: "spsc_step cap (pl_ring s) (Publish e) r \<Longrightarrow>
    pipeline_step cap s (s\<lparr>pl_ring := r, pl_todo := tl (pl_todo s)\<rparr>)"
| pl_polling: "\<not> pl_exited s \<Longrightarrow> spsc_step cap (pl_ring s) a r \<Longrightarrow> a \<in> {Fetch, Empty, Ready, Read} \<Longrightarrow>
    pipeline_step cap s (s\<lparr>pl_ring := r\<rparr>)"
| pl_shutdown: "\<not> pl_exited s \<Longrightarrow> spsc_step cap (pl_ring s) (Take e) r \<Longrightarrow> pe_kind e = KShutdown \<Longrightarrow>
    pipeline_step cap s (s\<lparr>pl_ring := r, pl_exited := True\<rparr>)"
| pl_apply: "\<not> pl_exited s \<Longrightarrow> spsc_step cap (pl_ring s) (Take e) r \<Longrightarrow> pe_kind e \<noteq> KShutdown \<Longrightarrow>
    consumer_apply now e (pl_consumer s) = Some c \<Longrightarrow>
    pipeline_step cap s (s\<lparr>pl_ring := r, pl_consumer := c\<rparr>)"

definition pipeline_init :: "nat \<Rightarrow> PipelineEvent list \<Rightarrow> InstrumentRegistry \<Rightarrow> Pipeline" where
  "pipeline_init cap events R = \<lparr>pl_ring = spsc_init cap default_PipelineEvent, pl_todo = events @ [stop_event],
     pl_exited = False, pl_consumer = \<lparr>sc_registry = R, sc_appliedSequences = [], sc_callbacks = []\<rparr>\<rparr>"

abbreviation pipeline_reach :: "nat \<Rightarrow> PipelineEvent list \<Rightarrow> InstrumentRegistry \<Rightarrow> Pipeline \<Rightarrow> bool" where
  "pipeline_reach cap events R \<equiv> rtranclp (pipeline_step cap) (pipeline_init cap events R)"

section \<open>What the consumer has done\<close>

text \<open>An event as a direct call of the registry.\<close>

fun event_call :: "PipelineEvent \<Rightarrow> RegistryCall" where
  "event_call e = (case pe_kind e of
      KCancelOrder \<Rightarrow> CancelOrder (pe_symbol e) (pe_cancelId e)
    | KMatchOrder \<Rightarrow> MatchOrder (pe_symbol e) (pe_order e)
    | KCancelReplace \<Rightarrow> CancelReplace (pe_symbol e) (pe_cancelId e) (pe_order e)
    | _ \<Rightarrow> SubmitOrder (pe_symbol e) (pe_order e))"

fun reply_trades :: "Reply \<Rightarrow> Trade list" where
  "reply_trades (Traded ts) = ts"
| "reply_trades _ = []"

lemma consumer_apply_call:
  assumes "pe_kind e \<noteq> KShutdown"
  shows "consumer_apply now e c = map_option
    (\<lambda>(r, R). \<lparr>sc_registry = R, sc_appliedSequences = sc_appliedSequences c @ [pe_sequence e],
       sc_callbacks = sc_callbacks c @ [(pe_sequence e, reply_trades r, now - pe_enqueueTimeNs e)]\<rparr>)
    (reg_call (sc_registry c) (event_call e))"
  using assms by (cases "pe_kind e") (auto simp: consumer_apply_def option.map_comp comp_def split_beta
      split: bind_splits option.splits)

lemma reg_run_snoc:
  "reg_run R (cs @ [c]) = do { (rs, R1) \<leftarrow> reg_run R cs; (r, R2) \<leftarrow> reg_call R1 c; Some (rs @ [r], R2) }"
  by (induction cs arbitrary: R) (auto split: bind_splits)

text \<open>The consumer state is the one of direct calls for the events \<open>es\<close>.\<close>

definition consumed :: "InstrumentRegistry \<Rightarrow> PipelineEvent list \<Rightarrow> StagedConsumer \<Rightarrow> bool" where
  "consumed R es c \<longleftrightarrow> sc_appliedSequences c = map pe_sequence es \<and>
     (\<exists>rs. reg_run R (map event_call es) = Some (rs, sc_registry c) \<and>
        map (\<lambda>(q, ts, _). (q, ts)) (sc_callbacks c) = zip (map pe_sequence es) (map reply_trades rs))"

lemma consumed_Nil: "consumed R [] \<lparr>sc_registry = R, sc_appliedSequences = [], sc_callbacks = []\<rparr>"
  by (simp add: consumed_def)

lemma reg_run_length: "reg_run R cs = Some (rs, R') \<Longrightarrow> length rs = length cs"
  by (induction cs arbitrary: R rs) (auto split: bind_splits)

lemma consumed_snoc:
  assumes "consumed R es c" "pe_kind e \<noteq> KShutdown" "consumer_apply now e c = Some c'"
  shows "consumed R (es @ [e]) c'"
proof -
  obtain rs where rs: "reg_run R (map event_call es) = Some (rs, sc_registry c)"
    "map (\<lambda>(q, ts, _). (q, ts)) (sc_callbacks c) = zip (map pe_sequence es) (map reply_trades rs)"
    using assms(1) by (auto simp: consumed_def)
  obtain r R' where r: "reg_call (sc_registry c) (event_call e) = Some (r, R')"
    "c' = \<lparr>sc_registry = R', sc_appliedSequences = sc_appliedSequences c @ [pe_sequence e],
       sc_callbacks = sc_callbacks c @ [(pe_sequence e, reply_trades r, now - pe_enqueueTimeNs e)]\<rparr>"
    using assms(3) by (auto simp: consumer_apply_call [OF assms(2)] simp del: event_call.simps)
  have "length rs = length es" using reg_run_length [OF rs(1)] by simp
  then show ?thesis
    using assms(1) rs r by (auto simp: consumed_def reg_run_snoc simp del: event_call.simps)
qed

lemma consumer_apply_total:
  assumes "reg_inv (sc_registry c)" "pe_kind e \<noteq> KShutdown"
  shows "\<exists>c'. consumer_apply now e c = Some c'"
  using reg_call_refines [OF assms(1), of "event_call e"]
  by (auto simp: consumer_apply_call [OF assms(2)] simp del: event_call.simps)

lemma consumed_inv: "consumed R es c \<Longrightarrow> reg_inv R \<Longrightarrow> reg_inv (sc_registry c)"
  using reg_run_refines [of R "map event_call es"] by (auto simp: consumed_def simp del: event_call.simps)

section \<open>The invariant of the pipeline\<close>

primrec ppc_item :: "'a ProducerPc \<Rightarrow> 'a option" where
  "ppc_item PIdle = None"
| "ppc_item (PTail x t) = Some x"
| "ppc_item (PRoom x t n) = Some x"
| "ppc_item (PWritten x n) = Some x"

lemma step_effect:
  assumes "spsc_step cap r a r'"
  shows "s_published r' = (case a of Publish x \<Rightarrow> s_published r @ [x] | _ \<Rightarrow> s_published r)"
    "s_taken r' = (case a of Take x \<Rightarrow> s_taken r @ [x] | _ \<Rightarrow> s_taken r)"
    "ppc_item (s_ppc r') =
       (case a of Begin x \<Rightarrow> Some x | Full \<Rightarrow> None | Publish x \<Rightarrow> None | _ \<Rightarrow> ppc_item (s_ppc r))"
    "a = Publish x \<Longrightarrow> ppc_item (s_ppc r) = Some x"
  using assms by (cases rule: spsc_step.cases; simp)+

definition pipeline_inv :: "nat \<Rightarrow> PipelineEvent list \<Rightarrow> InstrumentRegistry \<Rightarrow> Pipeline \<Rightarrow> bool" where
  "pipeline_inv cap events R s \<longleftrightarrow>
     spsc_inv cap (pl_ring s) \<and> s_published (pl_ring s) @ pl_todo s = events @ [stop_event] \<and>
     (\<forall>x. ppc_item (s_ppc (pl_ring s)) = Some x \<longrightarrow> pl_todo s \<noteq> [] \<and> hd (pl_todo s) = x) \<and>
     (if pl_exited s then s_taken (pl_ring s) = events @ [stop_event] \<and> consumed R events (pl_consumer s)
      else consumed R (s_taken (pl_ring s)) (pl_consumer s) \<and> (\<forall>e\<in>set (s_taken (pl_ring s)). pe_kind e \<noteq> KShutdown))"

lemma pipeline_inv_init:
  assumes "capacity_ok cap"
  shows "pipeline_inv cap events R (pipeline_init cap events R)"
  using spsc_inv_init [OF assms, of default_PipelineEvent]
  by (simp add: pipeline_inv_def pipeline_init_def consumed_Nil) (simp add: spsc_init_def consumed_Nil)

text \<open>The sentinel is taken last.\<close>

lemma take_sentinel:
  assumes "taken @ [e] = take n (events @ [stop])" "pe_kind e = KShutdown" "\<forall>x\<in>set events. pe_kind x \<noteq> KShutdown"
  shows "taken = events \<and> e = stop"
proof (cases "n \<le> length events")
  case True
  then have "taken @ [e] = take n events" using assms(1) by simp
  then have "e \<in> set events" by (metis in_set_conv_decomp in_set_takeD)
  with assms show ?thesis by auto
next
  case False
  with assms(1) show ?thesis by simp
qed

lemma spsc_inv_prefix:
  assumes "spsc_inv cap r"
  shows "s_taken r = take (length (s_taken r)) (s_published r @ xs)"
proof -
  have "s_taken r = take (length (s_taken r)) (s_published r)" "length (s_taken r) \<le> length (s_published r)"
    using assms by (auto simp: spsc_inv_def ring_ok_def)
  then show ?thesis by simp
qed

lemma pipeline_step_inv:
  assumes "pipeline_step cap s s'" "pipeline_inv cap events R s" "\<forall>e\<in>set events. pe_kind e \<noteq> KShutdown"
  shows "pipeline_inv cap events R s'"
  using assms(1)
proof (cases rule: pipeline_step.cases)
  case (pl_begin e r rest)
  then show ?thesis
    using assms(2) spsc_step_inv [OF pl_begin(2)] step_effect(1-3) [OF pl_begin(2)]
    by (auto simp: pipeline_inv_def split: if_split_asm)
next
  case (pl_producing a r)
  then show ?thesis
    using assms(2) spsc_step_inv [OF pl_producing(2)] step_effect(1-3) [OF pl_producing(2)]
    by (auto simp: pipeline_inv_def split: if_split_asm)
next
  case (pl_publish e r)
  then show ?thesis
    using assms(2) spsc_step_inv [OF pl_publish(2)] step_effect [OF pl_publish(2)]
    by (cases "pl_todo s") (auto simp: pipeline_inv_def)
next
  case (pl_polling a r)
  then show ?thesis
    using assms(2) spsc_step_inv [OF pl_polling(3)] step_effect(1-3) [OF pl_polling(3)]
    by (auto simp: pipeline_inv_def split: if_split_asm)
next
  case (pl_shutdown e r)
  have inv: "spsc_inv cap r" using assms(2) spsc_step_inv [OF pl_shutdown(3)] by (simp add: pipeline_inv_def)
  note eff = step_effect [OF pl_shutdown(3)]
  have script: "s_published (pl_ring s) @ pl_todo s = events @ [stop_event]"
    using assms(2) by (simp add: pipeline_inv_def)
  have "s_taken r = take (length (s_taken r)) (events @ [stop_event])"
    using spsc_inv_prefix [OF inv, of "pl_todo s"] eff(1) by (simp only: script SpscAct.case)
  then have "s_taken (pl_ring s) = events \<and> e = stop_event"
    using pl_shutdown(4) assms(3) unfolding eff(2) SpscAct.case by (rule take_sentinel)
  then show ?thesis
    using assms(2) inv eff pl_shutdown by (auto simp: pipeline_inv_def)
next
  case (pl_apply e r now c)
  then show ?thesis
    using assms(2) spsc_step_inv [OF pl_apply(3)] step_effect [OF pl_apply(3)]
    by (auto simp: pipeline_inv_def intro: consumed_snoc)
qed

lemma pipeline_reach_inv:
  assumes "pipeline_reach cap events R s" "capacity_ok cap" "\<forall>e\<in>set events. pe_kind e \<noteq> KShutdown"
  shows "pipeline_inv cap events R s"
  using assms(1)
proof (induction rule: rtranclp_induct)
  case base
  show ?case using assms(2) by (rule pipeline_inv_init)
next
  case (step s t)
  show ?case using step(2,3) assms(3) by (rule pipeline_step_inv)
qed

section \<open>Progress\<close>

primrec producer_left :: "'a ProducerPc \<Rightarrow> nat" where
  "producer_left PIdle = 0"
| "producer_left (PTail x t) = 1"
| "producer_left (PRoom x t n) = 2"
| "producer_left (PWritten x n) = 3"

primrec consumer_left :: "'a ConsumerPc \<Rightarrow> nat" where
  "consumer_left CIdle = 0"
| "consumer_left (CHead h) = 1"
| "consumer_left (CReady h) = 2"
| "consumer_left (CTaken h x) = 3"

text \<open>The accesses still to be made when no attempt fails.\<close>

definition pipeline_work :: "PipelineEvent list \<Rightarrow> Pipeline \<Rightarrow> nat" where
  "pipeline_work events s =
     (4 * length (pl_todo s) - producer_left (s_ppc (pl_ring s))) +
     (4 * (Suc (length events) - length (s_taken (pl_ring s))) - consumer_left (s_cpc (pl_ring s)))"

text \<open>On an empty ring no attempt of the producer fails.\<close>

lemma producer_progress:
  fixes s :: Pipeline
  defines "r \<equiv> pl_ring s"
  assumes "spsc_inv cap r" "s_pseen r \<le> length (s_taken r)" "capacity_ok cap" "length (q_buffer (s_ring r)) = cap"
    and "pl_todo s = e # rest" "length (s_published r) = length (s_taken r)"
  shows "\<exists>s'. pipeline_step cap s s' \<and> s_cpc (pl_ring s') = s_cpc r \<and> s_taken (pl_ring s') = s_taken r \<and>
    4 * length (pl_todo s') - producer_left (s_ppc (pl_ring s')) < 4 * length (pl_todo s) - producer_left (s_ppc r)"
proof (cases "s_ppc r")
  case PIdle
  from pl_begin [OF enq_begin [OF PIdle [unfolded r_def]] assms(6)] show ?thesis
    using PIdle assms(6) by (intro exI conjI) (assumption | simp add: r_def)+
next
  case (PTail x t)
  have "q_advance cap t \<noteq> slot cap (length (s_taken r))"
    using assms(2,7) PTail mod_apart [of "length (s_published r)" "Suc (length (s_published r))" cap] capacity_pos [OF assms(4)]
    by (auto simp: spsc_inv_def advance_slot [OF assms(4)] slot_eq_iff [OF assms(4)])
  from pl_producing [OF enq_room [OF PTail [unfolded r_def] assms(3) [unfolded r_def] order_refl this [unfolded r_def]]]
  show ?thesis using PTail assms(6) by (intro exI conjI) (assumption | simp add: r_def)+
next
  case (PRoom x t n)
  then have "unat t < length (q_buffer (s_ring r))"
    using assms(2,5) capacity_pos [OF assms(4)] by (auto simp: spsc_inv_def unat_slot [OF assms(4)])
  from pl_producing [OF enq_write [OF PRoom [unfolded r_def] this [unfolded r_def]]]
  show ?thesis using PRoom assms(6) by (intro exI conjI) (assumption | simp add: r_def)+
next
  case (PWritten x n)
  from pl_publish [OF enq_publish [OF PWritten [unfolded r_def]]]
  show ?thesis using PWritten assms(6) by (intro exI conjI) (assumption | simp add: r_def)+
qed

text \<open>Between two polls the consumer moves on its own: it starts a poll, reads the slot, or applies what it took.\<close>

lemma consumer_progress:
  assumes "pipeline_inv cap events R s" "reg_inv R" "\<not> pl_exited s"
    and some: "length (s_taken (pl_ring s)) < Suc (length events)" and busy: "\<forall>h. s_cpc (pl_ring s) \<noteq> CHead h"
  shows "\<exists>s'. pipeline_step cap s s' \<and> pipeline_work events s' < pipeline_work events s"
proof (cases "s_cpc (pl_ring s)")
  case CIdle
  from pl_polling [OF assms(3) deq_begin [OF CIdle, of cap]] show ?thesis
    using CIdle some by (intro exI conjI) (assumption | simp add: pipeline_work_def)+
next
  case (CReady h)
  have "spsc_inv cap (pl_ring s)" "ring_ok cap (pl_ring s)" "capacity_ok cap"
    using assms(1) by (auto simp: pipeline_inv_def spsc_inv_def ring_ok_def)
  with CReady have "unat h < length (q_buffer (s_ring (pl_ring s)))"
    using capacity_pos [of cap] by (auto simp: spsc_inv_def ring_ok_def unat_slot)
  from pl_polling [OF assms(3) deq_read [OF CReady this, of cap]] show ?thesis
    using CReady some by (intro exI conjI) (assumption | simp add: pipeline_work_def)+
next
  case (CTaken h x)
  note take = deq_take [OF CTaken, of cap]
  show ?thesis
  proof (cases "pe_kind x = KShutdown")
    case True
    from pl_shutdown [OF assms(3) take True] show ?thesis
      using CTaken some by (intro exI conjI) (assumption | simp add: pipeline_work_def)+
  next
    case False
    have "reg_inv (sc_registry (pl_consumer s))"
      using assms by (auto simp: pipeline_inv_def intro: consumed_inv)
    from consumer_apply_total [OF this False] obtain c where "consumer_apply 0 x (pl_consumer s) = Some c" by blast
    from pl_apply [OF assms(3) take False this] show ?thesis
      using CTaken some by (intro exI conjI) (assumption | simp add: pipeline_work_def)+
  qed
qed (use busy in simp)

lemma pipeline_progress:
  assumes "pipeline_inv cap events R s" "reg_inv R" "\<not> pl_exited s"
  shows "\<exists>s'. pipeline_step cap s s' \<and> pipeline_work events s' < pipeline_work events s"
proof -
  let ?r = "pl_ring s"
  let ?T = "length (s_published ?r)" and ?H = "length (s_taken ?r)"
  have inv: "spsc_inv cap ?r" and ok: "ring_ok cap ?r" and cap: "capacity_ok cap"
    using assms(1) by (auto simp: pipeline_inv_def spsc_inv_def ring_ok_def)
  have seen: "s_pseen ?r \<le> ?H" "?H \<le> ?T" "s_cseen ?r \<le> ?T" "?T < ?H + cap" "length (q_buffer (s_ring ?r)) = cap"
    using ok by (auto simp: ring_ok_def)
  have script: "?T + length (pl_todo s) = Suc (length events)"
    using assms(1) by (auto simp: pipeline_inv_def dest: arg_cong [of _ _ length])
  have some: "?H < Suc (length events)"
  proof (rule ccontr)
    assume "\<not> ?H < Suc (length events)"
    moreover have "s_taken ?r = take ?H (events @ [stop_event])"
      using spsc_inv_prefix [OF inv, of "pl_todo s"] assms(1) by (simp only: pipeline_inv_def)
    ultimately have "s_taken ?r = events @ [stop_event]" by simp
    with assms(1,3) show False by (simp add: pipeline_inv_def stop_event_def)
  qed
  show ?thesis
  proof (cases "\<exists>h. s_cpc ?r = CHead h")
    case False
    with consumer_progress [OF assms some] show ?thesis by blast
  next
    case True
    then obtain h where CHead: "s_cpc ?r = CHead h" by blast
    show ?thesis
    proof (cases "?H < ?T")
      case True
      then have "h \<noteq> slot cap ?T"
        using inv CHead seen(4) mod_apart [of ?H ?T cap] by (auto simp: spsc_inv_def slot_eq_iff [OF cap])
      from pl_polling [OF assms(3) deq_ready [OF CHead seen(3) order_refl this]] show ?thesis
        using CHead some by (intro exI conjI) (assumption | simp add: pipeline_work_def)+
    next
      case False
      then have eq: "?T = ?H" using seen(2) by simp
      with script some have "0 < length (pl_todo s)" by linarith
      then obtain e rest where todo: "pl_todo s = e # rest" by (cases "pl_todo s") auto
      have "\<exists>s'. pipeline_step cap s s' \<and> s_cpc (pl_ring s') = s_cpc ?r \<and> s_taken (pl_ring s') = s_taken ?r \<and>
        4 * length (pl_todo s') - producer_left (s_ppc (pl_ring s')) < 4 * length (pl_todo s) - producer_left (s_ppc ?r)"
        by (rule producer_progress) (use inv seen cap todo eq in simp_all)
      then show ?thesis by (auto simp: pipeline_work_def)
    qed
  qed
qed

lemma pipeline_can_drain:
  assumes "pipeline_inv cap events R s" "reg_inv R" "\<forall>e\<in>set events. pe_kind e \<noteq> KShutdown"
  shows "\<exists>s'. rtranclp (pipeline_step cap) s s' \<and> pl_exited s'"
  using assms(1)
proof (induction "pipeline_work events s" arbitrary: s rule: less_induct)
  case less
  show ?case
  proof (cases "pl_exited s")
    case False
    then obtain s' where s': "pipeline_step cap s s'" "pipeline_work events s' < pipeline_work events s"
      using pipeline_progress [OF less.prems assms(2)] by blast
    from less.hyps [OF s'(2) pipeline_step_inv [OF s'(1) less.prems assms(3)]] s'(1) show ?thesis
      by (meson converse_rtranclp_into_rtranclp)
  qed blast
qed

lemma kPipelineQueueCapacity_ok: "capacity_ok kPipelineQueueCapacity"
  unfolding capacity_ok_def kPipelineQueueCapacity_def by (rule exI [of _ 12]) simp

section \<open>Properties\<close>

text \<open>
  C37. Pipelining changes nothing but the thread: in every interleaving of producer and consumer,
  with a ring of any legal capacity, the consumer has at every moment applied exactly the first \<open>n\<close> events in the
  order they were enqueued, its registry is what calling the registry directly with them
  gives, and the apply callback was told their sequence numbers and trades; once the consumer
  has left its loop all events enqueued before \<open>stop\<close> have been applied.
\<close>

theorem pipeline_equals_direct_calls:
  assumes "capacity_ok cap" "\<forall>e\<in>set events. pe_kind e \<noteq> KShutdown" "pipeline_reach cap events R s"
  shows "\<exists>n rs. sc_appliedSequences (pl_consumer s) = map pe_sequence (take n events) \<and>
    reg_run R (map event_call (take n events)) = Some (rs, sc_registry (pl_consumer s)) \<and>
    map (\<lambda>(q, ts, _). (q, ts)) (sc_callbacks (pl_consumer s)) = zip (map pe_sequence (take n events)) (map reply_trades rs) \<and>
    (pl_exited s \<longrightarrow> n = length events)"
proof -
  have inv: "pipeline_inv cap events R s" using pipeline_reach_inv assms by blast
  show ?thesis
  proof (cases "pl_exited s")
    case True
    with inv have "consumed R events (pl_consumer s)" by (simp add: pipeline_inv_def)
    then show ?thesis by (auto simp: consumed_def simp del: event_call.simps intro!: exI [of _ "length events"])
  next
    case False
    let ?H = "length (s_taken (pl_ring s))"
    have "s_taken (pl_ring s) = take ?H (events @ [stop_event])"
      using spsc_inv_prefix [of cap "pl_ring s" "pl_todo s"] inv by (simp only: pipeline_inv_def)
    moreover have "?H \<le> length events"
    proof (rule ccontr)
      assume "\<not> ?H \<le> length events"
      with calculation have "stop_event \<in> set (s_taken (pl_ring s))" by simp
      with inv False show False by (auto simp: pipeline_inv_def stop_event_def)
    qed
    ultimately have "s_taken (pl_ring s) = take ?H events" by simp
    moreover have "consumed R (s_taken (pl_ring s)) (pl_consumer s)" using inv False by (simp add: pipeline_inv_def)
    ultimately have "consumed R (take ?H events) (pl_consumer s)" by simp
    with False show ?thesis unfolding consumed_def by blast
  qed
qed

theorem pipeline_equals_direct_calls_witness:
  "\<exists>s. pipeline_reach kPipelineQueueCapacity
       [enqueueSubmit_event 10 ''AAPL'' (limit_order 5 Buy 90 1) 1, enqueueMatch_event 11 ''AAPL'' demo_order 2] demo s \<and>
     pl_exited s \<and> sc_appliedSequences (pl_consumer s) = [1, 2]"
proof -
  let ?es = "[enqueueSubmit_event 10 ''AAPL'' (limit_order 5 Buy 90 1) 1, enqueueMatch_event 11 ''AAPL'' demo_order 2]"
  have k: "\<forall>e\<in>set ?es. pe_kind e \<noteq> KShutdown" by (simp add: enqueueSubmit_event_def enqueueMatch_event_def)
  have "reg_inv demo" using session(1) [OF demo_run] .
  with pipeline_can_drain [OF pipeline_inv_init [OF kPipelineQueueCapacity_ok] _ k] obtain s where
    s: "pipeline_reach kPipelineQueueCapacity ?es demo s" "pl_exited s" by blast
  with pipeline_equals_direct_calls [OF kPipelineQueueCapacity_ok k s(1)] show ?thesis
    by (intro exI [of _ s]) (auto simp: enqueueSubmit_event_def enqueueMatch_event_def)
qed

text \<open>
  C38. The pipeline never gets stuck: from every state that producer and consumer can reach, however often
  they found the ring full or empty, there are steps after which every event has been taken,
  the sentinel included, and the consumer has left its loop.
\<close>

theorem pipeline_drains:
  assumes "capacity_ok cap" "\<forall>e\<in>set events. pe_kind e \<noteq> KShutdown"
    and "reg_run (new_InstrumentRegistry backend) cs = Some (rs, R)" "pipeline_reach cap events R s"
  shows "\<exists>s'. rtranclp (pipeline_step cap) s s' \<and> pl_exited s' \<and> pl_todo s' = [] \<and>
    s_taken (pl_ring s') = events @ [stop_event]"
proof -
  have inv: "pipeline_inv cap events R s" using pipeline_reach_inv assms(1,2,4) by blast
  then obtain s' where s': "rtranclp (pipeline_step cap) s s'" "pl_exited s'"
    using pipeline_can_drain session(1) [OF assms(3)] assms(2) by blast
  have "pipeline_reach cap events R s'" using assms(4) s'(1) by simp
  then have inv': "pipeline_inv cap events R s'" using pipeline_reach_inv assms(1,2) by blast
  then have t: "s_taken (pl_ring s') = events @ [stop_event]" using s'(2) by (simp add: pipeline_inv_def)
  have "length (s_taken (pl_ring s')) \<le> length (s_published (pl_ring s'))"
    using inv' by (auto simp: pipeline_inv_def spsc_inv_def ring_ok_def)
  moreover have "length (s_published (pl_ring s')) + length (pl_todo s') = length (events @ [stop_event])"
    using inv' unfolding pipeline_inv_def by (metis length_append)
  ultimately have "pl_todo s' = []" using t by (cases "pl_todo s'") simp_all
  with s' t show ?thesis by blast
qed

theorem pipeline_drains_witness:
  "\<exists>s. rtranclp (pipeline_step kPipelineQueueCapacity)
       (pipeline_init kPipelineQueueCapacity [enqueueCancel_event 10 ''AAPL'' 2 1] demo) s \<and>
     pl_exited s \<and> s_taken (pl_ring s) = [enqueueCancel_event 10 ''AAPL'' 2 1, stop_event]"
proof -
  have k: "\<forall>e\<in>set [enqueueCancel_event 10 ''AAPL'' 2 1]. pe_kind e \<noteq> KShutdown" by (simp add: enqueueCancel_event_def)
  from pipeline_drains [OF kPipelineQueueCapacity_ok k demo_run rtranclp.rtrancl_refl] show ?thesis by auto
qed

end
