(* ===== verification/Text_Numbers.thy ===== *)
theory Text_Numbers
  imports Titan_Prelude
begin

text \<open>
  Numbers as text: the conversions of the C and C++ libraries the program calls.  \<open>std::to_string\<close> and
  the stream output of an unsigned integer are \<open>decimal\<close>; \<open>std::atoi\<close>, \<open>std::stoul\<close> and
  \<open>std::stoull\<close> skip white space, take a sign and as many digits as there are, and ignore the rest.
  \<open>atoi\<close> has no result when the value does not fit an \<open>int\<close>; the others throw.
\<close>

section \<open>Printing\<close>

fun decimal :: "nat \<Rightarrow> string" where
  "decimal n = (if n < 10 then [char_of (48 + n)] else decimal (n div 10) @ [char_of (48 + n mod 10)])"

declare decimal.simps [simp del]

abbreviation to_string :: "u64 \<Rightarrow> string" where
  "to_string w \<equiv> decimal (unat w)"

section \<open>Reading\<close>

definition is_digit :: "char \<Rightarrow> bool" where
  "is_digit c \<longleftrightarrow> 48 \<le> (of_char c :: nat) \<and> (of_char c :: nat) \<le> 57"

definition digit_val :: "char \<Rightarrow> nat" where
  "digit_val c = of_char c - 48"

definition is_space :: "char \<Rightarrow> bool" where
  "is_space c \<longleftrightarrow> (of_char c :: nat) = 32 \<or> 9 \<le> (of_char c :: nat) \<and> (of_char c :: nat) \<le> 13"

text \<open>The digits at the front of a text: how many, their value, and what follows.\<close>

fun scan_digits :: "nat \<Rightarrow> nat \<Rightarrow> string \<Rightarrow> nat \<times> nat \<times> string" where
  "scan_digits n v [] = (n, v, [])"
| "scan_digits n v (c # cs) = (if is_digit c then scan_digits (Suc n) (10 * v + digit_val c) cs else (n, v, c # cs))"

text \<open>An optional sign: whether it is a minus, and what follows.\<close>

fun scan_sign :: "string \<Rightarrow> bool \<times> string" where
  "scan_sign [] = (False, [])"
| "scan_sign (c # cs) = (if c = CHR ''-'' then (True, cs) else if c = CHR ''+'' then (False, cs) else (False, c # cs))"

definition atoi :: "string \<Rightarrow> int option" where
  "atoi s =
     (let (negative, t) = scan_sign (dropWhile is_space s);
          (n, v, rest) = scan_digits 0 0 t;
          value = (if negative then - int v else int v)
      in if - (2 ^ 31) \<le> value \<and> value < 2 ^ 31 then Some value else None)"

datatype StdError = InvalidArgument | OutOfRange | RuntimeError string

text \<open>A minus sign negates modulo \<open>2\<^sup>6\<^sup>4\<close>; \<open>unsigned long\<close> has 64 bits, so \<open>stoul\<close> and \<open>stoull\<close> agree.\<close>

definition stoull :: "string \<Rightarrow> StdError + u64" where
  "stoull s =
     (let (negative, t) = scan_sign (dropWhile is_space s);
          (n, v, rest) = scan_digits 0 0 t
      in if n = 0 then Inl InvalidArgument
         else if 2 ^ 64 \<le> v then Inl OutOfRange
         else Inr (if negative then - of_nat v else of_nat v))"

section \<open>Round trips\<close>

lemma of_char_digit: "d < 10 \<Longrightarrow> (of_char (char_of (48 + d)) :: nat) = 48 + d"
  by (simp add: of_char_of)

lemma digit_char [simp]:
  assumes "d < 10"
  shows "is_digit (char_of (48 + d))" "digit_val (char_of (48 + d)) = d"
  using of_char_digit [OF assms] assms by (simp_all add: is_digit_def digit_val_def)

lemma digit_not [simp]:
  "is_digit c \<Longrightarrow> \<not> is_space c" "is_digit c \<Longrightarrow> c \<noteq> CHR ''-''" "is_digit c \<Longrightarrow> c \<noteq> CHR ''+''"
  by (auto simp: is_digit_def is_space_def)

lemma decimal_digits: "set (decimal n) \<subseteq> Collect is_digit" "decimal n \<noteq> []"
proof (induction n rule: decimal.induct)
  case (1 n)
  show "set (decimal n) \<subseteq> Collect is_digit" using 1 by (subst decimal.simps) auto
  show "decimal n \<noteq> []" by (subst decimal.simps) auto
qed

lemma scan_digits_append:
  assumes "set ds \<subseteq> Collect is_digit"
  shows "scan_digits n v (ds @ cs) = (let (n', v', _) = scan_digits n v ds in scan_digits n' v' cs)"
  using assms by (induction n v ds rule: scan_digits.induct) auto

lemma scan_digits_rest:
  assumes "set ds \<subseteq> Collect is_digit"
  shows "scan_digits n v ds = (n + length ds, fst (snd (scan_digits n v ds)), [])"
  using assms by (induction n v ds rule: scan_digits.induct) auto

lemma scan_decimal:
  "scan_digits 0 0 (decimal n) = (length (decimal n), n, [])"
proof (induction n rule: decimal.induct)
  case (1 n)
  show ?case
  proof (cases "n < 10")
    case True
    then show ?thesis by (simp add: decimal.simps [of n])
  next
    case False
    then have "scan_digits 0 0 (decimal n) = (Suc (length (decimal (n div 10))), 10 * (n div 10) + n mod 10, [])"
      using 1 decimal_digits(1) [of "n div 10"] by (simp add: decimal.simps [of n] scan_digits_append)
    with False show ?thesis by (simp add: decimal.simps [of n])
  qed
qed

lemma scan_decimal_rest:
  assumes "cs = [] \<or> \<not> is_digit (hd cs)"
  shows "scan_digits 0 0 (decimal n @ cs) = (length (decimal n), n, cs)"
proof -
  have "scan_digits k v cs = (k, v, cs)" for k v using assms by (cases cs) auto
  then show ?thesis by (simp add: scan_digits_append decimal_digits(1) scan_decimal)
qed

lemma decimal_front:
  "dropWhile is_space (decimal n @ cs) = decimal n @ cs" "scan_sign (decimal n @ cs) = (False, decimal n @ cs)"
proof -
  obtain c ds where "decimal n = c # ds" "is_digit c"
    using decimal_digits [of n] by (cases "decimal n") auto
  then show "dropWhile is_space (decimal n @ cs) = decimal n @ cs" "scan_sign (decimal n @ cs) = (False, decimal n @ cs)"
    by simp_all
qed

lemma stoull_decimal: "n < 2 ^ 64 \<Longrightarrow> stoull (decimal n) = Inr (of_nat n)"
  using decimal_front [of n "[]"] scan_decimal [of n] decimal_digits(2) [of n] by (simp add: stoull_def)

lemma atoi_decimal: "n < 2 ^ 31 \<Longrightarrow> atoi (decimal n) = Some (int n)"
  using decimal_front [of n "[]"] scan_decimal [of n] by (simp add: atoi_def)

lemma decimal_inj: "decimal m = decimal n \<longleftrightarrow> m = n"
  using scan_decimal [of m] scan_decimal [of n] by (metis prod.inject)

end
