(* ===== verification/Book_Invariants.thy ===== *)
theory Book_Invariants
  imports Instrument_Registry Text_Numbers "HOL-Library.Multiset"
begin

text \<open>
  The run-time checker of the book (\<open>include/titan/book/invariants.hpp\<close>,
  \<open>src/book/invariants.cpp\<close>): it walks the levels and the order table of a reference matcher
  and the bookkeeping of an order manager and lists what is wrong.  The iteration orders of
  the two unordered containers, the order table and the active ids, are arguments; reading
  through an iterator whose list node is gone has no result.

  A reachable instrument never gets a complaint, and a matcher that gets none has the
  structure the checker's comment lists.
\<close>

section \<open>The checker\<close>

record InvariantViolation =
  iv_name :: string
  iv_detail :: string

definition violation :: "bool \<Rightarrow> string \<Rightarrow> string \<Rightarrow> InvariantViolation list" where
  "violation bad nm detail = (if bad then [\<lparr>iv_name = nm, iv_detail = detail\<rparr>] else [])"

text \<open>The body of the loop over the orders of one level.\<close>

definition inv_checkOrder :: "string \<Rightarrow> Price \<Rightarrow> Order \<Rightarrow> InvariantViolation list" where
  "inv_checkOrder sideName price ord =
     violation (order_quantity ord = 0) ''NoZeroQuantityRestingOrders''
       (sideName @ '' order '' @ to_string (order_id ord) @ '' has zero quantity while resting'') @
     violation (order_price ord \<noteq> price) ''OrderPriceMatchesLevel''
       (sideName @ '' order '' @ to_string (order_id ord) @ '' resting at level '' @ to_string price @
        '' but order.price='' @ to_string (order_price ord))"

text \<open>
  The lambda \<open>walkLevels\<close>, with its locals \<open>first\<close> and \<open>previous\<close>: the orders it counted and
  the violations it pushed.
\<close>

fun inv_walkLevels :: "PriceLevels \<Rightarrow> string \<Rightarrow> bool \<Rightarrow> Price \<Rightarrow> nat \<times> InvariantViolation list" where
  "inv_walkLevels [] sideName first previous = (0, [])"
| "inv_walkLevels ((price, orders) # levels) sideName first previous =
     (let (count, violations) = inv_walkLevels levels sideName False price in
      (length orders + count,
       violation (\<not> first \<and> price \<le> previous) ''PriceLevelsOrdered''
         (sideName @ '' price levels not strictly ordered at '' @ to_string price) @
       concat (map (\<lambda>x. inv_checkOrder sideName price (snd x)) orders) @ violations))"

text \<open>The node an \<open>OrderList::iterator\<close> of a location refers to.\<close>

definition loc_deref :: "ReferenceMatcher \<Rightarrow> OrderLocation \<Rightarrow> Order option" where
  "loc_deref matcher location = map_of (concat (map snd (ref_levels matcher (loc_side location)))) (loc_it location)"

text \<open>The loop over \<open>orderTable\<close>; an id of the walk that is no key of the table has no result.\<close>

fun inv_checkTable :: "ReferenceMatcher \<Rightarrow> OrderId list \<Rightarrow> InvariantViolation list option" where
  "inv_checkTable matcher [] = Some []"
| "inv_checkTable matcher (i # ids) = do {
     location \<leftarrow> ref_orderTable matcher i;
     ord \<leftarrow> loc_deref matcher location;
     violations \<leftarrow> inv_checkTable matcher ids;
     Some (violation (order_id ord \<noteq> i) ''OrderTableLocationsAccurate''
       (''orderTable['' @ to_string i @ ''] points at order id '' @ to_string (order_id ord)) @ violations) }"

definition checkReferenceMatcherInvariants ::
  "OrderId list \<Rightarrow> ReferenceMatcher \<Rightarrow> InvariantViolation list option" where
  "checkReferenceMatcherInvariants tableIds matcher = do {
     let bids = ref_bids matcher;
     let asks = ref_asks matcher;
     let (bidCount, bidViolations) = inv_walkLevels bids ''bid'' True 0;
     let (askCount, askViolations) = inv_walkLevels asks ''ask'' True 0;
     let restingCount = bidCount + askCount;
     let size = length tableIds;
     tableViolations \<leftarrow> inv_checkTable matcher tableIds;
     let bid = ref_bestBid matcher;
     let ask = ref_bestAsk matcher;
     Some (bidViolations @ askViolations @
       violation (restingCount \<noteq> size) ''OrderTableSizeMatchesRestingCount''
         (''orderTable size='' @ decimal size @ '' but walked resting-order count='' @ decimal restingCount) @
       tableViolations @
       violation (bids \<noteq> [] \<and> asks \<noteq> [] \<and> \<not> bid < ask) ''NoCrossedBookAtRest''
         (''bestBid='' @ to_string bid @ '' bestAsk='' @ to_string ask)) }"

text \<open>The \<open>dynamic_cast\<close> succeeds on a reference matcher only.\<close>

primrec as_reference :: "AnyMatcher \<Rightarrow> ReferenceMatcher option" where
  "as_reference (IsReference m) = Some m"
| "as_reference (IsOptimized m) = None"

definition checkInvariants :: "OrderId list \<Rightarrow> AnyMatcher \<Rightarrow> InvariantViolation list option" where
  "checkInvariants tableIds matcher =
     (case as_reference matcher of
        Some reference \<Rightarrow> checkReferenceMatcherInvariants tableIds reference
      | None \<Rightarrow> Some [])"

text \<open>The body of the loop over the active ids.\<close>

definition inv_checkActive ::
  "'m OrderManager \<Rightarrow> ReferenceMatcher option \<Rightarrow> OrderId \<Rightarrow> InvariantViolation list" where
  "inv_checkActive manager reference i =
     (let status = om_statusOf manager i in
      violation (status = None \<or> (status \<noteq> Some New \<and> status \<noteq> Some PartiallyFilled)) ''StatusConsistentWithActive''
        (''active order '' @ to_string i @ '' has a non-resting status'') @
      (case reference of
         None \<Rightarrow> []
       | Some m \<Rightarrow> violation (ref_orderTable m i = None) ''ActiveIdsSubsetOfOrderTable''
           (''active order '' @ to_string i @ '' missing from matcher orderTable'')))"

text \<open>The lambda \<open>checkShadow\<close>.\<close>

definition inv_checkShadow :: "ShadowLevels \<Rightarrow> PriceLevels \<Rightarrow> string \<Rightarrow> InvariantViolation list" where
  "inv_checkShadow shadow real sideName =
     concat (map (\<lambda>(price, shadowIds).
       let realIds = (case map_of real price of
             Some orders \<Rightarrow> map (\<lambda>x. order_id (snd x)) orders
           | None \<Rightarrow> []) in
       violation (realIds \<noteq> shadowIds) ''ShadowQueueMatchesMatcherFifo''
         (sideName @ '' price '' @ to_string price @ '' shadow/matcher FIFO order mismatch'')) shadow)"

definition checkOrderManagerInvariants ::
  "OrderId list \<Rightarrow> OrderId list \<Rightarrow> 'm OrderManager \<Rightarrow> AnyMatcher \<Rightarrow> InvariantViolation list option" where
  "checkOrderManagerInvariants tableIds activeIds manager matcher = do {
     violations \<leftarrow> checkInvariants tableIds matcher;
     let reference = as_reference matcher;
     let activeViolations = concat (map (inv_checkActive manager reference) activeIds);
     let shadowViolations = (case reference of
           None \<Rightarrow> []
         | Some m \<Rightarrow> inv_checkShadow (om_restingBidsAt manager) (ref_bids m) ''bid'' @
                     inv_checkShadow (om_restingAsksAt manager) (ref_asks m) ''ask'');
     Some (violations @ activeViolations @ shadowViolations) }"

section \<open>What silence means\<close>

lemma violation_Nil [simp]: "violation bad nm detail = [] \<longleftrightarrow> \<not> bad"
  by (simp add: violation_def)

lemma inv_checkOrder_Nil [simp]:
  "inv_checkOrder sideName price ord = [] \<longleftrightarrow> order_quantity ord \<noteq> 0 \<and> order_price ord = price"
  by (auto simp: inv_checkOrder_def)

lemma inv_walkLevels_count [simp]: "fst (inv_walkLevels levels nm first previous) = length (concat (map snd levels))"
  by (induction levels nm first previous rule: inv_walkLevels.induct) (auto simp: split_beta Let_def)

lemma inv_walkLevels_Nil:
  "snd (inv_walkLevels levels nm first previous) = [] \<longleftrightarrow>
     sorted_wrt (<) (map fst levels) \<and> (first \<or> (\<forall>p\<in>fst ` set levels. previous < p)) \<and>
     (\<forall>(price, orders)\<in>set levels. \<forall>x\<in>set orders. order_quantity (snd x) \<noteq> 0 \<and> order_price (snd x) = price)"
proof (induction levels nm first previous rule: inv_walkLevels.induct)
  case (2 price orders levels nm first previous)
  from 2 show ?case
    by (auto simp: split_beta Let_def not_le intro: less_trans)
qed simp

lemma inv_checkTable_Nil:
  "inv_checkTable m ids = Some [] \<longleftrightarrow>
     (\<forall>i\<in>set ids. \<exists>l ord. ref_orderTable m i = Some l \<and> loc_deref m l = Some ord \<and> order_id ord = i)"
  by (induction ids) (auto simp: bind_eq_Some_conv)

lemma inv_checkActive_Nil:
  "inv_checkActive manager reference i = [] \<longleftrightarrow>
     (\<exists>ord. om_orders manager i = Some ord \<and> resting_status (order_status ord)) \<and>
     (\<forall>m. reference = Some m \<longrightarrow> ref_orderTable m i \<noteq> None)"
  by (auto simp: inv_checkActive_def Let_def om_statusOf_def resting_status_def split: option.splits)

lemma inv_checkShadow_Nil:
  "inv_checkShadow shadow real nm = [] \<longleftrightarrow>
     (\<forall>(price, ids)\<in>set shadow. map (\<lambda>x. order_id (snd x)) (omap_at [] price real) = ids)"
  by (auto simp: inv_checkShadow_def Let_def omap_at_def split: option.splits)

section \<open>Well-formed states get no complaint\<close>

lemma mset_flat: "mset (map snd (flat s m)) = mset (concat (map snd m))"
  by (cases s) (simp_all add: flat_def level_items_def map_concat mset_concat o_def flip: rev_map)

lemma loc_deref_entry:
  assumes "ref_struct m" "(p, n, ord) \<in> set (ref_flat m s)"
  shows "loc_deref m \<lparr>loc_side = s, loc_price = p, loc_it = n\<rparr> = Some ord"
proof -
  have "mset (map fst (concat (map snd (ref_levels m s)))) = mset (map (\<lambda>e. fst (snd e)) (ref_flat m s))"
    using arg_cong [OF mset_flat [of s "ref_levels m s"], of "image_mset fst"]
    by (simp add: image_mset.compositionality o_def)
  then have "distinct (map fst (concat (map snd (ref_levels m s))))"
    using ref_structD(3) [OF assms(1), of s] by (metis mset_eq_imp_distinct_iff)
  moreover have "(n, ord) \<in> set (concat (map snd (ref_levels m s)))"
    using assms(2) by (force simp: in_flat_iff)
  ultimately show ?thesis by (simp add: loc_deref_def)
qed

lemma ref_table_dom:
  assumes "ref_struct m"
  shows "dom (ref_orderTable m) = book_ids (ref_book m)"
proof (intro set_eqI iffI)
  note table = ref_structD(7) [OF assms, unfolded ref_table_ok_def, rule_format]
  fix i
  { assume "i \<in> dom (ref_orderTable m)"
    then show "i \<in> book_ids (ref_book m)"
      using table by (fastforce simp: book_ids_def ref_book_entry)
  next
    assume "i \<in> book_ids (ref_book m)"
    then obtain s ord p n where "(p, n, ord) \<in> set (ref_flat m s)" "order_id ord = i"
      by (auto simp: book_ids_def ref_book_entry)
    then have "ref_orderTable m i = Some \<lparr>loc_side = s, loc_price = p, loc_it = n\<rparr>"
      by (subst table) auto
    then show "i \<in> dom (ref_orderTable m)" by auto }
qed

lemma ref_table_size:
  assumes "ref_struct m" "distinct ids" "set ids = dom (ref_orderTable m)"
  shows "length ids = length (concat (map snd (ref_bids m))) + length (concat (map snd (ref_asks m)))"
proof -
  have len: "length (ref_book m s) = length (concat (map snd (ref_levels m s)))" for s
    using arg_cong [OF mset_flat [of s "ref_levels m s"], of size] by (simp add: ref_book_def)
  have "length ids = card (book_ids (ref_book m))"
    using distinct_card [OF assms(2)] ref_table_dom [OF assms(1)] assms(3) by simp
  also have "\<dots> = card (set (map order_id (ref_book m Buy))) + card (set (map order_id (ref_book m Sell)))"
    using assms(1) by (simp add: book_ids_two ref_struct_def card_Un_disjoint)
  also have "\<dots> = length (ref_book m Buy) + length (ref_book m Sell)"
    using ref_structD(4) [OF assms(1)] distinct_card by (metis length_map)
  finally show ?thesis by (simp add: len)
qed

lemma ref_walk_clean:
  assumes "ref_inv m"
  shows "snd (inv_walkLevels (ref_levels m s) nm True 0) = []"
proof -
  have st: "ref_struct m" and bk: "queue_ok s (ref_book m s)"
    using assms book_ok_queue by (auto simp: ref_inv_def)
  have "order_quantity (snd x) \<noteq> 0 \<and> order_price (snd x) = p"
    if h: "(p, xs) \<in> set (ref_levels m s)" "x \<in> set xs" for p xs x
  proof -
    have e: "(p, fst x, snd x) \<in> set (ref_flat m s)" using h by (auto simp: in_flat_iff)
    then have "snd x \<in> set (ref_book m s)" unfolding ref_book_entry by blast
    with bk ref_structD(5) [OF st e] show ?thesis by (auto simp: queue_ok_def)
  qed
  with ref_structD(1) [OF st, of s] show ?thesis unfolding inv_walkLevels_Nil by blast
qed

lemma ref_table_clean:
  assumes "ref_struct m" "set ids = dom (ref_orderTable m)"
  shows "inv_checkTable m ids = Some []"
  unfolding inv_checkTable_Nil
proof
  fix i assume "i \<in> set ids"
  then obtain l where l: "ref_orderTable m i = Some l" using assms(2) by auto
  then obtain ord where "(loc_price l, loc_it l, ord) \<in> set (ref_flat m (loc_side l))" "order_id ord = i"
    using ref_structD(7) [OF assms(1)] by (auto simp: ref_table_ok_def)
  with l loc_deref_entry [OF assms(1)]
  show "\<exists>l ord. ref_orderTable m i = Some l \<and> loc_deref m l = Some ord \<and> order_id ord = i"
    by (metis OrderLocation.surjective old.unit.exhaust)
qed

lemma ref_best_uncrossed:
  assumes "ref_inv m" "ref_bids m \<noteq> []" "ref_asks m \<noteq> []"
  shows "ref_bestBid m < ref_bestAsk m"
proof -
  have st: "ref_struct m" using assms by (simp add: ref_inv_def)
  have rep: "\<exists>ord\<in>set (ref_book m s). order_price ord = fst e" if e: "e \<in> set (ref_levels m s)" for s e
  proof -
    obtain x where x: "x \<in> set (snd e)"
      using e ref_structD(2) [OF st, of s] by (cases "snd e") (auto simp: no_empty_level_def)
    then have f: "(fst e, fst x, snd x) \<in> set (ref_flat m s)" using e by (cases e) (auto simp: in_flat_iff)
    then have "snd x \<in> set (ref_book m s)" unfolding ref_book_entry by blast
    then show ?thesis using ref_structD(5) [OF st f] by auto
  qed
  obtain x y where "x \<in> set (ref_book m Buy)" "order_price x = fst (last (ref_bids m))"
    "y \<in> set (ref_book m Sell)" "order_price y = fst (hd (ref_asks m))"
    using rep [of "last (ref_bids m)" Buy] rep [of "hd (ref_asks m)" Sell] assms(2,3) by auto
  moreover have "uncrossed (ref_book m)" using assms(1) by (simp add: ref_inv_def book_ok_def)
  ultimately show ?thesis using assms(2,3) by (metis uncrossed_def ref_bestBid_def ref_bestAsk_def)
qed

lemma ref_check_clean:
  assumes "ref_inv m" "distinct ids" "set ids = dom (ref_orderTable m)"
  shows "checkReferenceMatcherInvariants ids m = Some []"
proof -
  have st: "ref_struct m" using assms by (simp add: ref_inv_def)
  show ?thesis
    using ref_walk_clean [OF assms(1), of Buy] ref_walk_clean [OF assms(1), of Sell]
      ref_table_clean [OF st assms(3)] ref_table_size [OF st assms(2,3)] ref_best_uncrossed [OF assms(1)]
    by (simp add: checkReferenceMatcherInvariants_def Let_def split_beta) (auto simp: violation_def)
qed

text \<open>
  Two maps of levels that flatten to the same queue of ids are the same map, level by level:
  a level is what the queue holds at its price.
\<close>

lemma flat_level:
  assumes "omap_ok m"
  shows "map snd (filter (\<lambda>e. fst e = p) (flat s m)) = omap_at [] p m"
proof (cases "map_of m p")
  case None
  then have "filter (\<lambda>e. fst e = p) (flat s m) = []"
    by (force simp: filter_empty_conv in_flat_iff map_of_eq_None_iff)
  with None show ?thesis by (simp add: omap_at_def)
next
  case (Some xs)
  obtain m1 m2 where m: "m = m1 @ (p, xs) # m2" "\<forall>e\<in>set m1. fst e < p" "\<forall>e\<in>set m2. p < fst e"
    using omap_split_found [OF assms Some] .
  have none: "filter (\<lambda>e. fst e = p) (concat (map level_items l)) = []" if "\<forall>e\<in>set l. fst e \<noteq> p" for l
    using that by (auto simp: filter_empty_conv)
  have "\<forall>e\<in>set m1. fst e \<noteq> p" "\<forall>e\<in>set m2. fst e \<noteq> p" using m(2,3) by auto
  then have "filter (\<lambda>e. fst e = p) (flat s m) = map (Pair p) xs"
    by (cases s) (simp_all add: m(1) flat_def none)
  with Some show ?thesis by (simp add: omap_at_def o_def)
qed

lemma shadow_clean:
  assumes "ref_struct m" "shadow_ok shadow s (ref_book m s)"
  shows "inv_checkShadow shadow (ref_levels m s) nm = []"
proof -
  have "flat s shadow = map (\<lambda>e. (fst e, order_id (snd (snd e)))) (ref_flat m s)"
    using assms ref_structD(5) [OF assms(1)] by (simp add: shadow_ok_def ref_book_def)
  then have "omap_at [] p shadow = map (\<lambda>x. order_id (snd x)) (omap_at [] p (ref_levels m s))" for p
    using flat_level [of shadow p s] flat_level [of "ref_levels m s" p s] assms ref_structD(1) [OF assms(1), of s]
    by (simp add: shadow_ok_def filter_map o_def) (metis (no_types, lifting) list.map_comp o_def map_eq_conv)
  moreover have "omap_at [] p shadow = ids" if "(p, ids) \<in> set shadow" for p ids
    using that assms(2) omap_ok_distinct [of shadow] by (auto simp: shadow_ok_def omap_at_def)
  ultimately show ?thesis unfolding inv_checkShadow_Nil by auto
qed

lemma manager_check_clean:
  assumes inv: "om_inv any_inv any_book manager"
    and table: "\<And>m. om_matcher manager = IsReference m \<Longrightarrow> distinct tableIds \<and> set tableIds = dom (ref_orderTable m)"
    and active: "set activeIds = om_activeOrderIds manager"
  shows "checkOrderManagerInvariants tableIds activeIds manager (om_matcher manager) = Some []"
proof -
  define b where "b = any_book (om_matcher manager)"
  have link: "om_link b manager" and any: "any_inv (om_matcher manager)" and dom: "dom (om_orders manager) = om_allKnownOrderIds manager"
    using inv by (auto simp: om_inv_def b_def)
  have act: "om_activeOrderIds manager = book_ids b" using om_linkD(2) [OF link] .
  have status: "\<exists>ord. om_orders manager i = Some ord \<and> resting_status (order_status ord)" if "i \<in> set activeIds" for i
    using that active act om_linkD(4,6) [OF link] by (fastforce simp: book_ids_def)
  show ?thesis
  proof (cases "om_matcher manager")
    case (IsReference m)
    then have st: "ref_struct m" and inv: "ref_inv m" and b: "b = ref_book m"
      using any by (auto simp: ref_inv_def b_def)
    have "inv_checkActive manager (Some m) i = []" if "i \<in> set activeIds" for i
      using status [OF that] that active act ref_table_dom [OF st] by (auto simp: inv_checkActive_Nil b)
    moreover have "inv_checkShadow (om_levels manager s) (ref_levels m s) nm = []" for s nm
      using shadow_clean [OF st] om_linkD(1) [OF link] by (simp add: b)
    from this [of Buy] this [of Sell]
    have "inv_checkShadow (om_restingBidsAt manager) (ref_bids m) nm = []"
      "inv_checkShadow (om_restingAsksAt manager) (ref_asks m) nm = []" for nm by auto
    ultimately show ?thesis
      using ref_check_clean [OF inv, of tableIds] table [OF IsReference]
      by (simp add: checkOrderManagerInvariants_def checkInvariants_def IsReference Let_def)
  next
    case (IsOptimized m)
    with status show ?thesis
      by (auto simp: checkOrderManagerInvariants_def checkInvariants_def Let_def inv_checkActive_Nil)
  qed
qed

text \<open>
  Conversely, a reference matcher on which the structural part reports nothing has all the
  checker looks for.
\<close>

lemma ref_check_complete:
  assumes "checkReferenceMatcherInvariants ids m = Some []"
  shows "omap_ok (ref_levels m s)"
    "(price, orders) \<in> set (ref_levels m s) \<Longrightarrow> x \<in> set orders \<Longrightarrow> order_quantity (snd x) \<noteq> 0 \<and> order_price (snd x) = price"
    "length ids = length (concat (map snd (ref_bids m))) + length (concat (map snd (ref_asks m)))"
    "i \<in> set ids \<Longrightarrow> \<exists>l ord. ref_orderTable m i = Some l \<and> loc_deref m l = Some ord \<and> order_id ord = i"
    "ref_bids m \<noteq> [] \<Longrightarrow> ref_asks m \<noteq> [] \<Longrightarrow> ref_bestBid m < ref_bestAsk m"
proof -
  have walk: "snd (inv_walkLevels (ref_levels m s) (case s of Buy \<Rightarrow> ''bid'' | Sell \<Rightarrow> ''ask'') True 0) = []" for s
    using assms by (cases s) (auto simp: checkReferenceMatcherInvariants_def Let_def split_beta bind_eq_Some_conv)
  then show "omap_ok (ref_levels m s)" unfolding inv_walkLevels_Nil by blast
  show "order_quantity (snd x) \<noteq> 0 \<and> order_price (snd x) = price"
    if "(price, orders) \<in> set (ref_levels m s)" "x \<in> set orders"
    using walk [of s] that unfolding inv_walkLevels_Nil by blast
  have "inv_checkTable m ids = Some []"
    using assms by (auto simp: checkReferenceMatcherInvariants_def Let_def split_beta bind_eq_Some_conv)
  then show "\<exists>l ord. ref_orderTable m i = Some l \<and> loc_deref m l = Some ord \<and> order_id ord = i" if "i \<in> set ids"
    using that unfolding inv_checkTable_Nil by blast
  show "length ids = length (concat (map snd (ref_bids m))) + length (concat (map snd (ref_asks m)))"
    "ref_bids m \<noteq> [] \<Longrightarrow> ref_asks m \<noteq> [] \<Longrightarrow> ref_bestBid m < ref_bestAsk m"
    using assms by (auto simp: checkReferenceMatcherInvariants_def Let_def split_beta bind_eq_Some_conv)
qed

section \<open>Properties\<close>

text \<open>
  C40. The run-time checker never reports a violation: after any session, for every instrument
  and every order in which its containers are walked, \<open>checkOrderManagerInvariants\<close> reads only
  live nodes and returns the empty list.
\<close>

theorem invariant_checker_silent:
  assumes "reg_run (new_InstrumentRegistry backend) cs = Some (rs, R)" "reg_instruments R symbol = Some inst"
    and "\<And>m. om_matcher (inst_manager inst) = IsReference m \<Longrightarrow>
      distinct tableIds \<and> set tableIds = dom (ref_orderTable m)"
    and "set activeIds = om_activeOrderIds (inst_manager inst)"
  shows "checkOrderManagerInvariants tableIds activeIds (inst_manager inst) (om_matcher (inst_manager inst)) = Some []"
  using manager_check_clean [OF reg_instD(1) [OF session(1) [OF assms(1)] assms(2)]] assms(3,4) by blast

theorem invariant_checker_silent_witness:
  "map_option (\<lambda>(rs, R). map_option (\<lambda>inst. checkOrderManagerInvariants [7] [7] (inst_manager inst) (om_matcher (inst_manager inst)))
      (reg_instruments R ''A''))
     (reg_run (new_InstrumentRegistry Reference)
        [CreateInstrument ''A'', MatchOrder ''A'' (limit_order 7 Buy 100 5), MatchOrder ''A'' (limit_order 8 Sell 90 2)]) =
   Some (Some (Some []))"
proof -
  define cs where "cs = [CreateInstrument ''A'', MatchOrder ''A'' (limit_order 7 Buy 100 5), MatchOrder ''A'' (limit_order 8 Sell 90 2)]"
  obtain rs R where run: "reg_run (new_InstrumentRegistry Reference) cs = Some (rs, R)"
    using reg_run_refines [of "new_InstrumentRegistry Reference" cs] by auto
  have "map_option (\<lambda>(rs, R). map_option (\<lambda>inst. (om_activeOrderIds (inst_manager inst),
        case om_matcher (inst_manager inst) of IsReference m \<Rightarrow> map_option loc_it (ref_orderTable m 7) | _ \<Rightarrow> None)) (reg_instruments R ''A''))
      (reg_run (new_InstrumentRegistry Reference) cs) = Some (Some ({7}, Some 0))"
    unfolding cs_def by code_simp
  with run obtain inst where inst: "reg_instruments R ''A'' = Some inst" "om_activeOrderIds (inst_manager inst) = {7}"
    by (auto simp: split: option.splits)
  have link: "om_inv any_inv any_book (inst_manager inst)" using reg_instD(1) [OF session(1) [OF run] inst(1)] .
  have "dom (ref_orderTable m) = {7}" if h: "om_matcher (inst_manager inst) = IsReference m" for m
    using link inst(2) om_linkD(2) [of "ref_book m" "inst_manager inst"] ref_table_dom [of m]
    by (simp add: om_inv_def h ref_inv_def)
  then have "checkOrderManagerInvariants [7] [7] (inst_manager inst) (om_matcher (inst_manager inst)) = Some []"
    using invariant_checker_silent [OF run inst(1), of "[7]" "[7]"] inst(2) by simp
  with run inst(1) show ?thesis by (simp add: cs_def)
qed

end
