(* ===== verification/Itch_Messages.thy ===== *)
theory Itch_Messages
  imports Titan_Types
begin

text \<open>
  The decoded messages of the ITCH feed (\<open>include/titan/feed/itch/messages.hpp\<close>): one record
  per struct, the variant as a datatype.  A \<open>std::array\<close> of chars is a string; \<open>itch_wf\<close>
  carries what the array types and the 6-byte wire field of the timestamps say, namely the
  lengths and the 48-bit range.
\<close>

definition kItchSystemEvent :: char where "kItchSystemEvent = CHR ''S''"
definition kItchStockDirectory :: char where "kItchStockDirectory = CHR ''R''"
definition kItchAddOrder :: char where "kItchAddOrder = CHR ''A''"
definition kItchAddOrderMpid :: char where "kItchAddOrderMpid = CHR ''F''"
definition kItchOrderExecuted :: char where "kItchOrderExecuted = CHR ''E''"
definition kItchOrderExecutedWithPrice :: char where "kItchOrderExecutedWithPrice = CHR ''C''"
definition kItchOrderCancel :: char where "kItchOrderCancel = CHR ''X''"
definition kItchOrderDelete :: char where "kItchOrderDelete = CHR ''D''"
definition kItchOrderReplace :: char where "kItchOrderReplace = CHR ''U''"
definition kItchTimestampSeconds :: char where "kItchTimestampSeconds = CHR ''T''"

lemmas itch_type_defs = kItchSystemEvent_def kItchStockDirectory_def kItchAddOrder_def
  kItchAddOrderMpid_def kItchOrderExecuted_def kItchOrderExecutedWithPrice_def kItchOrderCancel_def
  kItchOrderDelete_def kItchOrderReplace_def kItchTimestampSeconds_def

type_synonym StockLocate = u16
type_synonym TrackingNumber = u16
type_synonym ItchTimestampNs = u64
type_synonym OrderRefNumber = u64
type_synonym MatchNumber = u64

record SystemEventMessage =
  se_stockLocate :: StockLocate
  se_trackingNumber :: TrackingNumber
  se_timestamp :: ItchTimestampNs
  se_eventCode :: char

record StockDirectoryMessage =
  sd_stockLocate :: StockLocate
  sd_trackingNumber :: TrackingNumber
  sd_timestamp :: ItchTimestampNs
  sd_stock :: string
  sd_marketCategory :: char
  sd_financialStatus :: char
  sd_roundLotSize :: u32
  sd_roundLotsOnly :: char
  sd_issueClassification :: char
  sd_issueSubType :: string
  sd_authenticity :: char
  sd_shortSaleThreshold :: char
  sd_ipoFlag :: char
  sd_luldRefPriceTier :: char
  sd_etpFlag :: char
  sd_etpLeverageFactor :: u32
  sd_inverseIndicator :: char

record AddOrderMessage =
  ao_stockLocate :: StockLocate
  ao_trackingNumber :: TrackingNumber
  ao_timestamp :: ItchTimestampNs
  ao_orderReferenceNumber :: OrderRefNumber
  ao_buySellIndicator :: char
  ao_shares :: u32
  ao_stock :: string
  ao_price :: u32

record AddOrderMpidMessage =
  am_base :: AddOrderMessage
  am_attribution :: string

record OrderExecutedMessage =
  oe_stockLocate :: StockLocate
  oe_trackingNumber :: TrackingNumber
  oe_timestamp :: ItchTimestampNs
  oe_orderReferenceNumber :: OrderRefNumber
  oe_executedShares :: u32
  oe_matchNumber :: MatchNumber

record OrderExecutedWithPriceMessage =
  oc_base :: OrderExecutedMessage
  oc_printable :: char
  oc_executionPrice :: u32

record OrderCancelMessage =
  ox_stockLocate :: StockLocate
  ox_trackingNumber :: TrackingNumber
  ox_timestamp :: ItchTimestampNs
  ox_orderReferenceNumber :: OrderRefNumber
  ox_cancelledShares :: u32

record OrderDeleteMessage =
  od_stockLocate :: StockLocate
  od_trackingNumber :: TrackingNumber
  od_timestamp :: ItchTimestampNs
  od_orderReferenceNumber :: OrderRefNumber

record OrderReplaceMessage =
  ou_stockLocate :: StockLocate
  ou_trackingNumber :: TrackingNumber
  ou_timestamp :: ItchTimestampNs
  ou_originalOrderReferenceNumber :: OrderRefNumber
  ou_newOrderReferenceNumber :: OrderRefNumber
  ou_shares :: u32
  ou_price :: u32

record TimestampSecondsMessage =
  ts_seconds :: u32

datatype ItchMessage =
    SystemEvent SystemEventMessage
  | StockDirectory StockDirectoryMessage
  | AddOrder (un_AddOrder: AddOrderMessage)
  | AddOrderMpid AddOrderMpidMessage
  | OrderExecuted (un_OrderExecuted: OrderExecutedMessage)
  | OrderExecutedWithPrice OrderExecutedWithPriceMessage
  | OrderCancel OrderCancelMessage
  | OrderDelete OrderDeleteMessage
  | OrderReplace OrderReplaceMessage
  | TimestampSeconds TimestampSecondsMessage

text \<open>The value types: array lengths and the range of a 6-byte timestamp.\<close>

definition timestamp_ok :: "ItchTimestampNs \<Rightarrow> bool" where
  "timestamp_ok t \<longleftrightarrow> unat t < 2 ^ 48"

fun itch_wf :: "ItchMessage \<Rightarrow> bool" where
  "itch_wf (SystemEvent m) \<longleftrightarrow> timestamp_ok (se_timestamp m)"
| "itch_wf (StockDirectory m) \<longleftrightarrow>
     timestamp_ok (sd_timestamp m) \<and> length (sd_stock m) = 8 \<and> length (sd_issueSubType m) = 2"
| "itch_wf (AddOrder m) \<longleftrightarrow> timestamp_ok (ao_timestamp m) \<and> length (ao_stock m) = 8"
| "itch_wf (AddOrderMpid m) \<longleftrightarrow> timestamp_ok (ao_timestamp (am_base m))
     \<and> length (ao_stock (am_base m)) = 8 \<and> length (am_attribution m) = 4"
| "itch_wf (OrderExecuted m) \<longleftrightarrow> timestamp_ok (oe_timestamp m)"
| "itch_wf (OrderExecutedWithPrice m) \<longleftrightarrow> timestamp_ok (oe_timestamp (oc_base m))"
| "itch_wf (OrderCancel m) \<longleftrightarrow> timestamp_ok (ox_timestamp m)"
| "itch_wf (OrderDelete m) \<longleftrightarrow> timestamp_ok (od_timestamp m)"
| "itch_wf (OrderReplace m) \<longleftrightarrow> timestamp_ok (ou_timestamp m)"
| "itch_wf (TimestampSeconds m) \<longleftrightarrow> True"

end
