(* ===== verification/Wire_Fields.thy ===== *)
theory Wire_Fields
  imports Titan_Prelude
begin

text \<open>
  Fixed-width big-endian fields of the ITCH wire format.  The readers are those of the
  anonymous namespace of \<open>src/feed/itch/decoder.cpp\<close>; every byte access is checked, so that a
  read past the end of the payload has no result.  The locale \<open>wire_field\<close> is the contract a
  field offers to a message layout: a reader and its inverse writer of a fixed width.
\<close>

unbundle bit_operations_syntax

section \<open>Readers\<close>

text \<open>\<open>p[i]\<close>; reading past the end is undefined behaviour.\<close>

definition byte_at :: "u8 list \<Rightarrow> nat \<Rightarrow> u8 option" where
  "byte_at p i = (if i < length p then Some (p ! i) else None)"

definition readU16BE :: "u8 list \<Rightarrow> nat \<Rightarrow> u16 option" where
  "readU16BE p off = do {
     b0 \<leftarrow> byte_at p off; b1 \<leftarrow> byte_at p (off + 1);
     Some (push_bit 8 (ucast b0) OR ucast b1) }"

definition readU32BE :: "u8 list \<Rightarrow> nat \<Rightarrow> u32 option" where
  "readU32BE p off = do {
     b0 \<leftarrow> byte_at p off; b1 \<leftarrow> byte_at p (off + 1);
     b2 \<leftarrow> byte_at p (off + 2); b3 \<leftarrow> byte_at p (off + 3);
     Some (push_bit 24 (ucast b0) OR push_bit 16 (ucast b1) OR push_bit 8 (ucast b2) OR ucast b3) }"

text \<open>The loop \<open>v = (v << 8) | p[i]\<close> over \<open>n\<close> bytes.\<close>

fun readBE_loop :: "u8 list \<Rightarrow> nat \<Rightarrow> nat \<Rightarrow> u64 \<Rightarrow> u64 option" where
  "readBE_loop p off 0 v = Some v"
| "readBE_loop p off (Suc n) v = do {
     b \<leftarrow> byte_at p off;
     readBE_loop p (off + 1) n (push_bit 8 v OR ucast b) }"

definition readU48BE :: "u8 list \<Rightarrow> nat \<Rightarrow> u64 option" where
  "readU48BE p off = readBE_loop p off 6 0"

definition readU64BE :: "u8 list \<Rightarrow> nat \<Rightarrow> u64 option" where
  "readU64BE p off = readBE_loop p off 8 0"

text \<open>\<open>static_cast<char>(p[i])\<close> and \<open>std::copy(p + a, p + b, array.begin())\<close>.\<close>

definition readChar :: "u8 list \<Rightarrow> nat \<Rightarrow> char option" where
  "readChar p off = map_option (\<lambda>b. char_of (unat b)) (byte_at p off)"

definition copyChars :: "u8 list \<Rightarrow> nat \<Rightarrow> nat \<Rightarrow> string option" where
  "copyChars p a b = (if b \<le> length p then Some (map (\<lambda>b. char_of (unat b)) (take (b - a) (drop a p))) else None)"

section \<open>The contract of a field\<close>

locale wire_field =
  fixes width :: nat
    and valid :: "'a \<Rightarrow> bool"
    and put :: "'a \<Rightarrow> u8 list"
    and get :: "u8 list \<Rightarrow> nat \<Rightarrow> 'a option"
  assumes length_put: "valid v \<Longrightarrow> length (put v) = width"
    and get_put: "valid v \<Longrightarrow> drop off p = put v @ ys \<Longrightarrow> get p off = Some v"
    and put_get: "get p off = Some v \<Longrightarrow> valid v \<and> take width (drop off p) = put v"
    and get_total: "off + width \<le> length p \<Longrightarrow> \<exists>v. get p off = Some v"
begin

text \<open>A field read at \<open>off\<close> splits the payload there.\<close>

lemma get_split:
  assumes "get p off = Some v"
  shows "drop off p = put v @ drop (off + width) p"
proof -
  have "take width (drop off p) @ drop width (drop off p) = drop off p" by (rule append_take_drop_id)
  then show ?thesis unfolding conjunct2 [OF put_get [OF assms]] by (simp add: add.commute)
qed

lemma get_Some_iff: "get p off = Some v \<longleftrightarrow> valid v \<and> (\<exists>ys. drop off p = put v @ ys)"
  using get_put get_split put_get by blast

text \<open>A reader looks only at the bytes from its offset on.\<close>

lemma get_drop: "get p off = get (drop off p) 0"
proof -
  have "get p off = Some v \<longleftrightarrow> get (drop off p) 0 = Some v" for v
    by (simp add: get_Some_iff)
  then show ?thesis by (metis option.exhaust)
qed

lemma get_front: "valid v \<Longrightarrow> get (put v @ ys) 0 = Some v" "valid v \<Longrightarrow> get (put v) 0 = Some v"
  using get_put [of v 0 "put v @ ys" ys] get_put [of v 0 "put v" "[]"] by simp_all

lemma put_inject:
  assumes "valid v" "valid w" "put v = put w"
  shows "v = w"
proof -
  have "get (put v) 0 = Some v" "get (put w) 0 = Some w" using assms(1,2) by (auto intro: get_front)
  then have "Some v = Some w" unfolding assms(3) by (rule subst)
  then show ?thesis by simp
qed

end

section \<open>The fields of the format\<close>

text \<open>Big-endian writers, the most significant byte first.\<close>

primrec putBE :: "nat \<Rightarrow> 'a::len word \<Rightarrow> u8 list" where
  "putBE 0 w = []"
| "putBE (Suc n) w = ucast (drop_bit (8 * n) w) # putBE n w"

definition putChars :: "string \<Rightarrow> u8 list" where
  "putChars s = map of_char s"

lemma length_putBE [simp]: "length (putBE n w) = n"
  by (induction n) auto

lemma length_putChars [simp]: "length (putChars s) = length s"
  by (simp add: putChars_def)

lemma putBE_two: "putBE 2 w = [ucast (drop_bit 8 w), ucast w]"
  by (simp add: numeral_2_eq_2)

lemma putBE_four: "putBE 4 w = [ucast (drop_bit 24 w), ucast (drop_bit 16 w), ucast (drop_bit 8 w), ucast w]"
  by (simp add: numeral_eq_Suc)

text \<open>A reader looks only at the bytes from its offset on.\<close>

lemma byte_at_add: "byte_at p (off + k) = byte_at (drop off p) k"
  by (auto simp: byte_at_def)

lemma byte_at_Cons [simp]: "byte_at (b # p) 0 = Some b" "byte_at (b # p) (Suc k) = byte_at p k" "byte_at [] k = None"
  by (auto simp: byte_at_def)

lemma readU16BE_drop: "readU16BE p off = readU16BE (drop off p) 0"
  using byte_at_add [of p off 0] byte_at_add [of p off 1] by (simp add: readU16BE_def)

lemma readU32BE_drop: "readU32BE p off = readU32BE (drop off p) 0"
  using byte_at_add [of p off 0] byte_at_add [of p off 1] byte_at_add [of p off 2] byte_at_add [of p off 3]
  by (simp add: readU32BE_def numeral_2_eq_2)

lemma readBE_loop_drop: "readBE_loop p off n v = readBE_loop (drop off p) 0 n v"
proof (induction n arbitrary: p off v)
  case (Suc n)
  show ?case
    using byte_at_add [of p off 0] Suc [of p "Suc off"] Suc [of "drop off p" 1] by (simp add: drop_drop)
qed simp

lemma readBE_loop_Cons: "readBE_loop (b # p) 0 (Suc n) v = readBE_loop p 0 n (push_bit 8 v OR ucast b)"
  using readBE_loop_drop [of "b # p" 1] by simp

lemma readU16BE_cases:
  "readU16BE p off = (case drop off p of b0 # b1 # ys \<Rightarrow> Some (push_bit 8 (ucast b0) OR ucast b1) | _ \<Rightarrow> None)"
  by (subst readU16BE_drop) (auto simp: readU16BE_def split: list.splits)

lemma readU32BE_cases:
  "readU32BE p off = (case drop off p of b0 # b1 # b2 # b3 # ys \<Rightarrow>
     Some (push_bit 24 (ucast b0) OR push_bit 16 (ucast b1) OR push_bit 8 (ucast b2) OR ucast b3) | _ \<Rightarrow> None)"
  by (subst readU32BE_drop) (auto simp: readU32BE_def eval_nat_numeral split: list.splits)

interpretation u16f: wire_field 2 "\<lambda>_. True" "putBE 2" readU16BE
proof unfold_locales
  show "readU16BE p off = Some v" if "drop off p = putBE 2 v @ ys" for v off p ys
  proof -
    have "push_bit 8 (ucast (ucast (drop_bit 8 v) :: u8)) OR ucast (ucast v :: u8) = v"
      by (rule bit_word_eqI) (auto simp: bit_simps)
    with that show ?thesis
      by (simp add: readU16BE_cases putBE_two)
  qed
  show "True \<and> take 2 (drop off p) = putBE 2 v" if get: "readU16BE p off = Some v" for p off v
  proof -
    obtain b0 b1 ys where d: "drop off p = b0 # b1 # ys" and v: "v = push_bit 8 (ucast b0) OR ucast b1"
      using get unfolding readU16BE_cases by (auto split: list.splits)
    have "ucast (drop_bit 8 v) = b0" "ucast v = b1"
      unfolding v by (rule bit_word_eqI; auto simp: bit_simps dest: bit_imp_le_length)+
    with d show ?thesis by (simp add: putBE_two)
  qed
  show "\<exists>v. readU16BE p off = Some v" if "off + 2 \<le> length p" for off p
    using that by (simp add: readU16BE_def byte_at_def)
qed simp

interpretation u32f: wire_field 4 "\<lambda>_. True" "putBE 4" readU32BE
proof unfold_locales
  show "readU32BE p off = Some v" if "drop off p = putBE 4 v @ ys" for v off p ys
  proof -
    have "push_bit 24 (ucast (ucast (drop_bit 24 v) :: u8)) OR push_bit 16 (ucast (ucast (drop_bit 16 v) :: u8))
        OR push_bit 8 (ucast (ucast (drop_bit 8 v) :: u8)) OR ucast (ucast v :: u8) = v" (is "?w = v")
    proof (rule bit_word_eqI)
      show "bit ?w n = bit v n" if "n < LENGTH(32)" for n
        by (cases "n < 8"; cases "n < 16"; cases "n < 24") (use that in \<open>auto simp: bit_simps\<close>)
    qed
    with that show ?thesis
      by (simp add: readU32BE_cases putBE_four)
  qed
  show "True \<and> take 4 (drop off p) = putBE 4 v" if get: "readU32BE p off = Some v" for p off v
  proof -
    obtain b0 b1 b2 b3 ys where d: "drop off p = b0 # b1 # b2 # b3 # ys"
      and v: "v = push_bit 24 (ucast b0) OR push_bit 16 (ucast b1) OR push_bit 8 (ucast b2) OR ucast b3"
      using get unfolding readU32BE_cases by (auto split: list.splits)
    have "ucast (drop_bit 24 v) = b0" "ucast (drop_bit 16 v) = b1" "ucast (drop_bit 8 v) = b2" "ucast v = b3"
      unfolding v by (rule bit_word_eqI; auto simp: bit_simps dest: bit_imp_le_length)+
    with d show ?thesis by (simp add: putBE_four)
  qed
  show "\<exists>v. readU32BE p off = Some v" if "off + 4 \<le> length p" for off p
    using that by (simp add: readU32BE_def byte_at_def)
qed simp

text \<open>The 6- and 8-byte loops compute the value of the low bytes.\<close>

lemma shift_in_byte:
  fixes v w :: u64
  shows "push_bit k (push_bit 8 v OR ucast (ucast (drop_bit k w) :: u8)) OR take_bit k w
    = push_bit (8 + k) v OR take_bit (8 + k) w"
proof (rule bit_word_eqI)
  show "bit (push_bit k (push_bit 8 v OR ucast (ucast (drop_bit k w) :: u8)) OR take_bit k w) n
      = bit (push_bit (8 + k) v OR take_bit (8 + k) w) n" if "n < LENGTH(64)" for n
    using that by (cases "n < k"; cases "n < 8 + k") (auto simp: bit_simps add.commute)
qed

lemma readBE_loop_putBE:
  "readBE_loop (putBE n w @ ys) 0 n v = Some (push_bit (8 * n) v OR take_bit (8 * n) w)"
proof (induction n arbitrary: v)
  case (Suc n)
  show ?case
    using shift_in_byte [of "8 * n" v w] by (simp add: readBE_loop_Cons Suc.IH del: readBE_loop.simps)
qed simp

lemma putBE_cong: "take_bit (8 * n) w = take_bit (8 * n) w' \<Longrightarrow> putBE n w = putBE n w'"
proof (induction n)
  case (Suc n)
  have bits: "bit w i = bit w' i" if "i < 8 * Suc n" for i
    using arg_cong [OF Suc.prems, of "\<lambda>x. bit x i"] that by (simp add: bit_simps)
  then have "ucast (drop_bit (8 * n) w) = (ucast (drop_bit (8 * n) w') :: u8)"
    by (intro bit_word_eqI) (auto simp: bit_simps dest: bit_imp_le_length)
  moreover have "take_bit (8 * n) w = take_bit (8 * n) w'"
    using bits by (intro bit_word_eqI) (auto simp: bit_simps)
  ultimately show ?case using Suc.IH by simp
qed simp

lemma bytes_are_putBE:
  "length bs = n \<Longrightarrow> n \<le> 8 \<Longrightarrow> \<exists>w::u64. take_bit (8 * n) w = w \<and> bs = putBE n w"
proof (induction n arbitrary: bs)
  case (Suc n)
  then obtain b bs' where bs: "bs = b # bs'" "length bs' = n" by (auto simp: length_Suc_conv)
  with Suc obtain w' :: u64 where w': "take_bit (8 * n) w' = w'" "bs' = putBE n w'" by auto
  define w where "w = push_bit (8 * n) (ucast b) OR w'"
  have hi: "\<not> bit w' i" if "8 * n \<le> i" for i
    using arg_cong [OF w'(1), of "\<lambda>x. bit x i"] that by (simp add: bit_simps)
  have "ucast (drop_bit (8 * n) w) = b"
    using Suc.prems(2) hi by (intro bit_word_eqI) (auto simp: w_def bit_simps)
  moreover have "putBE n w = putBE n w'"
    by (rule putBE_cong, rule bit_word_eqI) (auto simp: w_def bit_simps)
  moreover have "take_bit (8 * Suc n) w = w"
    using hi by (intro bit_word_eqI) (fastforce simp: w_def bit_simps dest: bit_imp_le_length)
  ultimately show ?case using bs w'(2) by (intro exI [of _ w]) simp
qed (auto intro: exI [of _ 0])

lemma readBE_loop_bytes:
  assumes "off + n \<le> length p" "n \<le> 8"
  shows "\<exists>w. readBE_loop p off n 0 = Some w \<and> take_bit (8 * n) w = w \<and> take n (drop off p) = putBE n w"
proof -
  obtain w :: u64 where w: "take_bit (8 * n) w = w" "take n (drop off p) = putBE n w"
    using bytes_are_putBE [of "take n (drop off p)" n] assms by auto
  then have "drop off p = putBE n w @ drop n (drop off p)" by (metis append_take_drop_id)
  then have "readBE_loop p off n 0 = Some w"
    using readBE_loop_putBE [of n w "drop n (drop off p)" 0] w(1)
    by (subst readBE_loop_drop) simp
  with w show ?thesis by blast
qed

lemma readBE_loop_short: "readBE_loop p off n v = Some w \<Longrightarrow> n = 0 \<or> off + n \<le> length p"
proof (induction n arbitrary: off v)
  case (Suc n)
  from Suc.prems obtain v' where "off < length p" "readBE_loop p (Suc off) n v' = Some w"
    by (auto simp: byte_at_def bind_eq_Some_conv split: if_splits)
  with Suc.IH [of "Suc off" v'] show ?case by auto
qed simp

lemma loop_field:
  assumes "0 < n" "n \<le> 8"
  shows "wire_field n (\<lambda>w::u64. take_bit (8 * n) w = w) (putBE n) (\<lambda>p off. readBE_loop p off n 0)"
proof unfold_locales
  show "readBE_loop p off n 0 = Some v" if "take_bit (8 * n) v = v" "drop off p = putBE n v @ ys" for v off p ys
    using readBE_loop_putBE [of n v ys 0] that by (subst readBE_loop_drop) simp
  show "take_bit (8 * n) v = v \<and> take n (drop off p) = putBE n v" if "readBE_loop p off n 0 = Some v" for p off v
  proof -
    have "off + n \<le> length p" using readBE_loop_short [OF that] assms(1) by simp
    with readBE_loop_bytes [OF this assms(2)] that show ?thesis by auto
  qed
  show "\<exists>v. readBE_loop p off n 0 = Some v" if "off + n \<le> length p" for off p
    using readBE_loop_bytes [OF that assms(2)] by blast
qed simp

lemma take_bit_48: "take_bit 48 (w::u64) = w \<longleftrightarrow> unat w < 2 ^ 48"
proof -
  have "take_bit 48 w = w \<longleftrightarrow> unat (take_bit 48 w) = unat w" by (simp add: word_unat_eq_iff)
  also have "\<dots> \<longleftrightarrow> unat w < 2 ^ 48"
    by (simp add: unsigned_take_bit_eq take_bit_nat_eq_self_iff)
  finally show ?thesis .
qed

lemma take_bit_64: "take_bit 64 (w::u64) = w"
  using take_bit_length_eq [of w] by simp

interpretation u48f: wire_field 6 "\<lambda>w. unat w < 2 ^ 48" "putBE 6" readU48BE
  using loop_field [of 6] by (simp add: take_bit_48 readU48BE_def [abs_def])

interpretation u64f: wire_field 8 "\<lambda>_. True" "putBE 8" readU64BE
  using loop_field [of 8] by (simp add: take_bit_64 readU64BE_def [abs_def])

lemma of_char_byte: "(of_char c :: u8) = of_nat (of_char c)"
  by (simp add: of_nat_of_char)

lemma char_of_byte_of_char [simp]: "char_of (unat (of_char c :: u8)) = c"
proof -
  have "unat (of_char c :: u8) = of_char c mod 256"
    by (simp add: of_char_byte unat_of_nat take_bit_eq_mod del: of_char_mod_256)
  then show ?thesis by simp
qed

lemma of_char_of_byte [simp]: "of_char (char_of (unat b)) = (b :: u8)"
proof -
  have "unat b < 256" using unsigned_less [of b, where 'a = nat] by simp
  then show ?thesis by (simp add: of_char_byte)
qed

interpretation charf: wire_field 1 "\<lambda>_. True" "\<lambda>c. [of_char c]" readChar
proof unfold_locales
  show "readChar p off = Some v" if "drop off p = [of_char v] @ ys" for v off p ys
    using that byte_at_add [of p off 0] by (simp add: readChar_def)
  show "True \<and> take 1 (drop off p) = [of_char v]" if "readChar p off = Some v" for p off v
    using that by (auto simp: readChar_def byte_at_def take_Suc_conv_app_nth hd_drop_conv_nth take_Suc split: if_splits)
  show "\<exists>v. readChar p off = Some v" if "off + 1 \<le> length p" for off p
    using that by (simp add: readChar_def byte_at_def)
qed simp

lemma array_field:
  assumes "0 < n"
  shows "wire_field n (\<lambda>s. length s = n) putChars (\<lambda>p off. copyChars p off (off + n))"
proof unfold_locales
  show "copyChars p off (off + n) = Some v" if "length v = n" "drop off p = putChars v @ ys" for v off p ys
  proof -
    have "off + n \<le> length p" using arg_cong [OF that(2), of length] that(1) assms by simp
    with that show ?thesis by (simp add: copyChars_def putChars_def comp_def)
  qed
qed (auto simp: copyChars_def putChars_def comp_def split: if_splits)

interpretation array2: wire_field 2 "\<lambda>s. length s = 2" putChars "\<lambda>p off. copyChars p off (off + 2)"
  by (rule array_field) simp

interpretation array4: wire_field 4 "\<lambda>s. length s = 4" putChars "\<lambda>p off. copyChars p off (off + 4)"
  by (rule array_field) simp

interpretation array8: wire_field 8 "\<lambda>s. length s = 8" putChars "\<lambda>p off. copyChars p off (off + 8)"
  by (rule array_field) simp

end
