(* ===== verification/Itch_Decoder.thy ===== *)
theory Itch_Decoder
  imports Itch_Messages Wire_Fields
begin

text \<open>
  \<open>decodeMessage\<close> (\<open>src/feed/itch/decoder.cpp\<close>).  The result is \<open>None\<close> when a byte past the end of
  the payload would be read, \<open>Some None\<close> when the function returns \<open>false\<close> (and leaves
  \<open>out\<close> untouched), and \<open>Some (Some m)\<close> when it returns \<open>true\<close> with \<open>out = m\<close>.  The
  decoder is compared with the layout of the messages on the wire: \<open>itch_payload\<close> writes one.
\<close>

section \<open>The decoder\<close>

definition decodeAddOrder :: "u8 list \<Rightarrow> ItchMessage option option" where
  "decodeAddOrder p =
     (if length p \<noteq> 35 then Some None
      else do {
        stockLocate \<leftarrow> readU16BE p 0; trackingNumber \<leftarrow> readU16BE p 2; timestamp \<leftarrow> readU48BE p 4;
        ref \<leftarrow> readU64BE p 10; buySell \<leftarrow> readChar p 18; shares \<leftarrow> readU32BE p 19;
        stock \<leftarrow> copyChars p 23 31; price \<leftarrow> readU32BE p 31;
        Some (Some (AddOrder
          \<lparr>ao_stockLocate = stockLocate, ao_trackingNumber = trackingNumber, ao_timestamp = timestamp,
           ao_orderReferenceNumber = ref, ao_buySellIndicator = buySell, ao_shares = shares,
           ao_stock = stock, ao_price = price\<rparr>)) })"

definition decodeOrderExecuted :: "u8 list \<Rightarrow> ItchMessage option option" where
  "decodeOrderExecuted p =
     (if length p \<noteq> 30 then Some None
      else do {
        stockLocate \<leftarrow> readU16BE p 0; trackingNumber \<leftarrow> readU16BE p 2; timestamp \<leftarrow> readU48BE p 4;
        ref \<leftarrow> readU64BE p 10; executedShares \<leftarrow> readU32BE p 18; matchNumber \<leftarrow> readU64BE p 22;
        Some (Some (OrderExecuted
          \<lparr>oe_stockLocate = stockLocate, oe_trackingNumber = trackingNumber, oe_timestamp = timestamp,
           oe_orderReferenceNumber = ref, oe_executedShares = executedShares,
           oe_matchNumber = matchNumber\<rparr>)) })"

text \<open>
  The two extended messages decode their base through a recursive call on a sub-span and then
  take the alternative out of the variant; \<open>std::get\<close> on another alternative would throw.
\<close>

definition decodeMessage :: "u8 \<Rightarrow> u8 list \<Rightarrow> ItchMessage option option" where
  "decodeMessage type p =
     (if type = of_char kItchSystemEvent then
        if length p \<noteq> 11 then Some None
        else do {
          stockLocate \<leftarrow> readU16BE p 0; trackingNumber \<leftarrow> readU16BE p 2; timestamp \<leftarrow> readU48BE p 4;
          eventCode \<leftarrow> readChar p 10;
          Some (Some (SystemEvent
            \<lparr>se_stockLocate = stockLocate, se_trackingNumber = trackingNumber,
             se_timestamp = timestamp, se_eventCode = eventCode\<rparr>)) }
      else if type = of_char kItchStockDirectory then
        if length p \<noteq> 38 then Some None
        else do {
          stockLocate \<leftarrow> readU16BE p 0; trackingNumber \<leftarrow> readU16BE p 2; timestamp \<leftarrow> readU48BE p 4;
          stock \<leftarrow> copyChars p 10 18;
          marketCategory \<leftarrow> readChar p 18; financialStatus \<leftarrow> readChar p 19;
          roundLotSize \<leftarrow> readU32BE p 20; roundLotsOnly \<leftarrow> readChar p 24;
          issueClassification \<leftarrow> readChar p 25; issueSubType \<leftarrow> copyChars p 26 28;
          authenticity \<leftarrow> readChar p 28; shortSaleThreshold \<leftarrow> readChar p 29; ipoFlag \<leftarrow> readChar p 30;
          luldRefPriceTier \<leftarrow> readChar p 31; etpFlag \<leftarrow> readChar p 32;
          etpLeverageFactor \<leftarrow> readU32BE p 33; inverseIndicator \<leftarrow> readChar p 37;
          Some (Some (StockDirectory
            \<lparr>sd_stockLocate = stockLocate, sd_trackingNumber = trackingNumber, sd_timestamp = timestamp,
             sd_stock = stock, sd_marketCategory = marketCategory, sd_financialStatus = financialStatus,
             sd_roundLotSize = roundLotSize, sd_roundLotsOnly = roundLotsOnly,
             sd_issueClassification = issueClassification, sd_issueSubType = issueSubType,
             sd_authenticity = authenticity, sd_shortSaleThreshold = shortSaleThreshold,
             sd_ipoFlag = ipoFlag, sd_luldRefPriceTier = luldRefPriceTier, sd_etpFlag = etpFlag,
             sd_etpLeverageFactor = etpLeverageFactor, sd_inverseIndicator = inverseIndicator\<rparr>)) }
      else if type = of_char kItchAddOrder then decodeAddOrder p
      else if type = of_char kItchAddOrderMpid then
        if length p \<noteq> 39 then Some None
        else do {
          r \<leftarrow> decodeAddOrder (take 35 p);
          (case r of
             None \<Rightarrow> Some None
           | Some (AddOrder base) \<Rightarrow> do {
               attribution \<leftarrow> copyChars p 35 39;
               Some (Some (AddOrderMpid \<lparr>am_base = base, am_attribution = attribution\<rparr>)) }
           | Some _ \<Rightarrow> None) }
      else if type = of_char kItchOrderExecuted then decodeOrderExecuted p
      else if type = of_char kItchOrderExecutedWithPrice then
        if length p \<noteq> 35 then Some None
        else do {
          r \<leftarrow> decodeOrderExecuted (take 30 p);
          (case r of
             None \<Rightarrow> Some None
           | Some (OrderExecuted base) \<Rightarrow> do {
               printable \<leftarrow> readChar p 30; executionPrice \<leftarrow> readU32BE p 31;
               Some (Some (OrderExecutedWithPrice
                 \<lparr>oc_base = base, oc_printable = printable, oc_executionPrice = executionPrice\<rparr>)) }
           | Some _ \<Rightarrow> None) }
      else if type = of_char kItchOrderCancel then
        if length p \<noteq> 22 then Some None
        else do {
          stockLocate \<leftarrow> readU16BE p 0; trackingNumber \<leftarrow> readU16BE p 2; timestamp \<leftarrow> readU48BE p 4;
          ref \<leftarrow> readU64BE p 10; cancelledShares \<leftarrow> readU32BE p 18;
          Some (Some (OrderCancel
            \<lparr>ox_stockLocate = stockLocate, ox_trackingNumber = trackingNumber, ox_timestamp = timestamp,
             ox_orderReferenceNumber = ref, ox_cancelledShares = cancelledShares\<rparr>)) }
      else if type = of_char kItchOrderDelete then
        if length p \<noteq> 18 then Some None
        else do {
          stockLocate \<leftarrow> readU16BE p 0; trackingNumber \<leftarrow> readU16BE p 2; timestamp \<leftarrow> readU48BE p 4;
          ref \<leftarrow> readU64BE p 10;
          Some (Some (OrderDelete
            \<lparr>od_stockLocate = stockLocate, od_trackingNumber = trackingNumber, od_timestamp = timestamp,
             od_orderReferenceNumber = ref\<rparr>)) }
      else if type = of_char kItchOrderReplace then
        if length p \<noteq> 34 then Some None
        else do {
          stockLocate \<leftarrow> readU16BE p 0; trackingNumber \<leftarrow> readU16BE p 2; timestamp \<leftarrow> readU48BE p 4;
          original \<leftarrow> readU64BE p 10; new \<leftarrow> readU64BE p 18; shares \<leftarrow> readU32BE p 26; price \<leftarrow> readU32BE p 30;
          Some (Some (OrderReplace
            \<lparr>ou_stockLocate = stockLocate, ou_trackingNumber = trackingNumber, ou_timestamp = timestamp,
             ou_originalOrderReferenceNumber = original, ou_newOrderReferenceNumber = new,
             ou_shares = shares, ou_price = price\<rparr>)) }
      else if type = of_char kItchTimestampSeconds then
        if length p \<noteq> 4 then Some None
        else do {
          seconds \<leftarrow> readU32BE p 0;
          Some (Some (TimestampSeconds \<lparr>ts_seconds = seconds\<rparr>)) }
      else Some None)"

section \<open>The wire layout\<close>

fun itch_type :: "ItchMessage \<Rightarrow> char" where
  "itch_type (SystemEvent m) = kItchSystemEvent"
| "itch_type (StockDirectory m) = kItchStockDirectory"
| "itch_type (AddOrder m) = kItchAddOrder"
| "itch_type (AddOrderMpid m) = kItchAddOrderMpid"
| "itch_type (OrderExecuted m) = kItchOrderExecuted"
| "itch_type (OrderExecutedWithPrice m) = kItchOrderExecutedWithPrice"
| "itch_type (OrderCancel m) = kItchOrderCancel"
| "itch_type (OrderDelete m) = kItchOrderDelete"
| "itch_type (OrderReplace m) = kItchOrderReplace"
| "itch_type (TimestampSeconds m) = kItchTimestampSeconds"

definition header_bytes :: "StockLocate \<Rightarrow> TrackingNumber \<Rightarrow> ItchTimestampNs \<Rightarrow> u8 list" where
  "header_bytes l t ns = putBE 2 l @ putBE 2 t @ putBE 6 ns"

definition add_order_bytes :: "AddOrderMessage \<Rightarrow> u8 list" where
  "add_order_bytes m = header_bytes (ao_stockLocate m) (ao_trackingNumber m) (ao_timestamp m)
     @ putBE 8 (ao_orderReferenceNumber m) @ [of_char (ao_buySellIndicator m)] @ putBE 4 (ao_shares m)
     @ putChars (ao_stock m) @ putBE 4 (ao_price m)"

definition order_executed_bytes :: "OrderExecutedMessage \<Rightarrow> u8 list" where
  "order_executed_bytes m = header_bytes (oe_stockLocate m) (oe_trackingNumber m) (oe_timestamp m)
     @ putBE 8 (oe_orderReferenceNumber m) @ putBE 4 (oe_executedShares m) @ putBE 8 (oe_matchNumber m)"

fun itch_payload :: "ItchMessage \<Rightarrow> u8 list" where
  "itch_payload (SystemEvent m) =
     header_bytes (se_stockLocate m) (se_trackingNumber m) (se_timestamp m) @ [of_char (se_eventCode m)]"
| "itch_payload (StockDirectory m) =
     header_bytes (sd_stockLocate m) (sd_trackingNumber m) (sd_timestamp m)
     @ putChars (sd_stock m) @ [of_char (sd_marketCategory m)] @ [of_char (sd_financialStatus m)]
     @ putBE 4 (sd_roundLotSize m) @ [of_char (sd_roundLotsOnly m)] @ [of_char (sd_issueClassification m)]
     @ putChars (sd_issueSubType m) @ [of_char (sd_authenticity m)] @ [of_char (sd_shortSaleThreshold m)]
     @ [of_char (sd_ipoFlag m)] @ [of_char (sd_luldRefPriceTier m)] @ [of_char (sd_etpFlag m)]
     @ putBE 4 (sd_etpLeverageFactor m) @ [of_char (sd_inverseIndicator m)]"
| "itch_payload (AddOrder m) = add_order_bytes m"
| "itch_payload (AddOrderMpid m) = add_order_bytes (am_base m) @ putChars (am_attribution m)"
| "itch_payload (OrderExecuted m) = order_executed_bytes m"
| "itch_payload (OrderExecutedWithPrice m) =
     order_executed_bytes (oc_base m) @ [of_char (oc_printable m)] @ putBE 4 (oc_executionPrice m)"
| "itch_payload (OrderCancel m) =
     header_bytes (ox_stockLocate m) (ox_trackingNumber m) (ox_timestamp m)
     @ putBE 8 (ox_orderReferenceNumber m) @ putBE 4 (ox_cancelledShares m)"
| "itch_payload (OrderDelete m) =
     header_bytes (od_stockLocate m) (od_trackingNumber m) (od_timestamp m)
     @ putBE 8 (od_orderReferenceNumber m)"
| "itch_payload (OrderReplace m) =
     header_bytes (ou_stockLocate m) (ou_trackingNumber m) (ou_timestamp m)
     @ putBE 8 (ou_originalOrderReferenceNumber m) @ putBE 8 (ou_newOrderReferenceNumber m)
     @ putBE 4 (ou_shares m) @ putBE 4 (ou_price m)"
| "itch_payload (TimestampSeconds m) = putBE 4 (ts_seconds m)"

text \<open>The payload size of each type; \<open>None\<close> for a type the feed does not know.\<close>

definition itch_size :: "u8 \<Rightarrow> nat option" where
  "itch_size type = map_of
     [(of_char kItchSystemEvent, 11), (of_char kItchStockDirectory, 38), (of_char kItchAddOrder, 35),
      (of_char kItchAddOrderMpid, 39), (of_char kItchOrderExecuted, 30),
      (of_char kItchOrderExecutedWithPrice, 35), (of_char kItchOrderCancel, 22),
      (of_char kItchOrderDelete, 18), (of_char kItchOrderReplace, 34),
      (of_char kItchTimestampSeconds, 4)] type"

section \<open>Decoding and layout agree\<close>

lemmas copyChars_iff = array8.get_Some_iff [where off = 10, simplified]
  array2.get_Some_iff [where off = 26, simplified] array8.get_Some_iff [where off = 23, simplified]
  array4.get_Some_iff [where off = 35, simplified]

lemmas field_iff = u16f.get_Some_iff u32f.get_Some_iff u48f.get_Some_iff u64f.get_Some_iff
  charf.get_Some_iff copyChars_iff

lemmas layout_simps = header_bytes_def add_order_bytes_def order_executed_bytes_def

lemmas copyChars_drop = array8.get_drop [where off = 10, simplified]
  array2.get_drop [where off = 26, simplified] array8.get_drop [where off = 23, simplified]
  array4.get_drop [where off = 35, simplified]

lemmas field_read = u16f.get_drop [where off = "numeral k"] u32f.get_drop [where off = "numeral k"]
  u48f.get_drop [where off = "numeral k"] u64f.get_drop [where off = "numeral k"]
  charf.get_drop [where off = "numeral k"] copyChars_drop
  u16f.get_front u32f.get_front u48f.get_front u64f.get_front charf.get_front [simplified]
  array2.get_front [simplified] array4.get_front [simplified] array8.get_front [simplified] for k

lemma decodeAddOrder_iff:
  "decodeAddOrder p = Some (Some m) \<longleftrightarrow> (\<exists>x. m = AddOrder x \<and> itch_wf m \<and> p = add_order_bytes x)"
proof
  assume "decodeAddOrder p = Some (Some m)"
  then show "\<exists>x. m = AddOrder x \<and> itch_wf m \<and> p = add_order_bytes x"
    by (auto simp: decodeAddOrder_def bind_eq_Some_conv field_iff layout_simps timestamp_ok_def split: if_splits)
next
  assume "\<exists>x. m = AddOrder x \<and> itch_wf m \<and> p = add_order_bytes x"
  then show "decodeAddOrder p = Some (Some m)"
    by (auto simp: decodeAddOrder_def layout_simps timestamp_ok_def field_read)
qed

lemma decodeOrderExecuted_iff:
  "decodeOrderExecuted p = Some (Some m) \<longleftrightarrow> (\<exists>x. m = OrderExecuted x \<and> itch_wf m \<and> p = order_executed_bytes x)"
proof
  assume "decodeOrderExecuted p = Some (Some m)"
  then show "\<exists>x. m = OrderExecuted x \<and> itch_wf m \<and> p = order_executed_bytes x"
    by (auto simp: decodeOrderExecuted_def bind_eq_Some_conv field_iff layout_simps timestamp_ok_def split: if_splits)
next
  assume "\<exists>x. m = OrderExecuted x \<and> itch_wf m \<and> p = order_executed_bytes x"
  then show "decodeOrderExecuted p = Some (Some m)"
    by (auto simp: decodeOrderExecuted_def layout_simps timestamp_ok_def field_read)
qed

lemma of_char_byte_inject [simp]: "(of_char c :: u8) = of_char d \<longleftrightarrow> c = d"
  by (metis char_of_byte_of_char)

lemma length_header_bytes [simp]: "length (header_bytes l t ns) = 10"
  by (simp add: header_bytes_def)

lemma length_add_order_bytes [simp]: "length (ao_stock m) = 8 \<Longrightarrow> length (add_order_bytes m) = 35"
  by (simp add: add_order_bytes_def)

lemma length_order_executed_bytes [simp]: "length (order_executed_bytes m) = 30"
  by (simp add: order_executed_bytes_def)

lemma decodeMessage_payload:
  assumes "itch_wf m"
  shows "decodeMessage (of_char (itch_type m)) (itch_payload m) = Some (Some m)"
proof (cases m)
  case (AddOrderMpid x)
  with assms have "decodeAddOrder (add_order_bytes (am_base x)) = Some (Some (AddOrder (am_base x)))"
    by (simp add: decodeAddOrder_iff)
  with assms AddOrderMpid show ?thesis
    by (simp add: decodeMessage_def itch_type_defs field_read)
next
  case (OrderExecutedWithPrice x)
  with assms have "decodeOrderExecuted (order_executed_bytes (oc_base x)) = Some (Some (OrderExecuted (oc_base x)))"
    by (simp add: decodeOrderExecuted_iff)
  with assms OrderExecutedWithPrice show ?thesis
    by (simp add: decodeMessage_def itch_type_defs field_read)
next
  case (AddOrder x)
  with assms show ?thesis by (simp add: decodeMessage_def itch_type_defs decodeAddOrder_iff)
next
  case (OrderExecuted x)
  with assms show ?thesis by (simp add: decodeMessage_def itch_type_defs decodeOrderExecuted_iff)
qed (use assms in \<open>simp_all add: decodeMessage_def itch_type_defs header_bytes_def timestamp_ok_def field_read\<close>)

lemma decode_extended:
  "decodeMessage (of_char kItchAddOrderMpid) p =
     (if length p \<noteq> 39 then Some None
      else do {
        r \<leftarrow> decodeAddOrder (take 35 p);
        (case r of
           None \<Rightarrow> Some None
         | Some m \<Rightarrow> do {
             attribution \<leftarrow> copyChars p 35 39;
             Some (Some (AddOrderMpid \<lparr>am_base = un_AddOrder m, am_attribution = attribution\<rparr>)) }) })" (is ?mpid)
  "decodeMessage (of_char kItchOrderExecutedWithPrice) p =
     (if length p \<noteq> 35 then Some None
      else do {
        r \<leftarrow> decodeOrderExecuted (take 30 p);
        (case r of
           None \<Rightarrow> Some None
         | Some m \<Rightarrow> do {
             printable \<leftarrow> readChar p 30; executionPrice \<leftarrow> readU32BE p 31;
             Some (Some (OrderExecutedWithPrice
               \<lparr>oc_base = un_OrderExecuted m, oc_printable = printable, oc_executionPrice = executionPrice\<rparr>)) }) })" (is ?priced)
proof -
  have r: "r = None \<or> (\<exists>b. r = Some (AddOrder b))" if "decodeAddOrder q = Some r" for r q
    using that by (cases r) (auto simp: decodeAddOrder_iff)
  show ?mpid
    by (cases "decodeAddOrder (take 35 p)") (auto simp: decodeMessage_def itch_type_defs dest!: r)
  have r: "r = None \<or> (\<exists>b. r = Some (OrderExecuted b))" if "decodeOrderExecuted q = Some r" for r q
    using that by (cases r) (auto simp: decodeOrderExecuted_iff)
  show ?priced
    by (cases "decodeOrderExecuted (take 30 p)") (auto simp: decodeMessage_def itch_type_defs dest!: r)
qed

lemma itch_size_None:
  "itch_size type = None \<longleftrightarrow>
     type \<noteq> of_char kItchSystemEvent \<and> type \<noteq> of_char kItchStockDirectory \<and> type \<noteq> of_char kItchAddOrder \<and>
     type \<noteq> of_char kItchAddOrderMpid \<and> type \<noteq> of_char kItchOrderExecuted \<and>
     type \<noteq> of_char kItchOrderExecutedWithPrice \<and> type \<noteq> of_char kItchOrderCancel \<and>
     type \<noteq> of_char kItchOrderDelete \<and> type \<noteq> of_char kItchOrderReplace \<and> type \<noteq> of_char kItchTimestampSeconds"
  unfolding itch_size_def map_of_eq_None_iff by simp

lemma itch_size_known:
  "itch_size (of_char kItchAddOrderMpid) = Some 39" "itch_size (of_char kItchOrderExecutedWithPrice) = Some 35"
  by (simp_all add: itch_size_def itch_type_defs)

lemma itch_type_cases:
  obtains "type = of_char kItchSystemEvent" | "type = of_char kItchStockDirectory" | "type = of_char kItchAddOrder"
    | "type = of_char kItchAddOrderMpid" | "type = of_char kItchOrderExecuted"
    | "type = of_char kItchOrderExecutedWithPrice" | "type = of_char kItchOrderCancel"
    | "type = of_char kItchOrderDelete" | "type = of_char kItchOrderReplace" | "type = of_char kItchTimestampSeconds"
    | "itch_size type = None"
  by (auto simp: itch_size_None)

lemma decodeMessage_unknown: "itch_size type = None \<Longrightarrow> decodeMessage type p = Some None"
  by (simp add: itch_size_None decodeMessage_def)

lemma decodeMessage_exact:
  assumes "decodeMessage type p = Some (Some m)"
  shows "itch_wf m \<and> type = of_char (itch_type m) \<and> p = itch_payload m"
proof -
  show ?thesis
  proof (cases rule: itch_type_cases [of type])
    case 1
    with assms show ?thesis
      by (auto simp: decodeMessage_def itch_type_defs bind_eq_Some_conv field_iff header_bytes_def timestamp_ok_def
          split: if_splits)
  next
    case 2
    with assms show ?thesis
      by (auto simp: decodeMessage_def itch_type_defs bind_eq_Some_conv field_iff header_bytes_def timestamp_ok_def
          split: if_splits)
  next
    case 3
    with assms show ?thesis
      by (auto simp: decodeMessage_def itch_type_defs decodeAddOrder_iff)
  next
    case 4
    with assms obtain b s where b: "length p = 39" "decodeAddOrder (take 35 p) = Some (Some (AddOrder b))"
      and s: "copyChars p 35 39 = Some s" and m: "m = AddOrderMpid \<lparr>am_base = b, am_attribution = s\<rparr>"
      by (auto simp: decode_extended bind_eq_Some_conv decodeAddOrder_iff split: if_splits option.splits)
    have "take 35 p @ take 4 (drop 35 p) = p" using b(1) by simp
    moreover have "take 35 p = add_order_bytes b" using b(2) by (simp add: decodeAddOrder_iff)
    moreover have "take 4 (drop 35 p) = putChars s" "length s = 4" using array4.put_get [of p 35 s] s by simp_all
    ultimately show ?thesis using 4 b(2) m by (simp add: decodeAddOrder_iff)
  next
    case 5
    with assms show ?thesis
      by (auto simp: decodeMessage_def itch_type_defs decodeOrderExecuted_iff)
  next
    case 6
    with assms obtain b c x where b: "length p = 35" "decodeOrderExecuted (take 30 p) = Some (Some (OrderExecuted b))"
      and c: "readChar p 30 = Some c" "readU32BE p 31 = Some x"
      and m: "m = OrderExecutedWithPrice \<lparr>oc_base = b, oc_printable = c, oc_executionPrice = x\<rparr>"
      by (auto simp: decode_extended bind_eq_Some_conv decodeOrderExecuted_iff split: if_splits option.splits)
    have "take 30 p @ [of_char c] @ putBE 4 x = p"
      using charf.get_split [OF c(1)] u32f.get_split [OF c(2)] append_take_drop_id [of 30 p] b(1) by simp
    moreover have "take 30 p = order_executed_bytes b" using b(2) by (simp add: decodeOrderExecuted_iff)
    ultimately show ?thesis using 6 b(2) m by (simp add: decodeOrderExecuted_iff)
  next
    case 11
    with assms show ?thesis by (simp add: decodeMessage_unknown)
  qed (use assms in \<open>auto simp: decodeMessage_def itch_type_defs bind_eq_Some_conv field_iff header_bytes_def
      timestamp_ok_def split: if_splits\<close>)
qed

text \<open>Every read of a payload of the right size is in range.\<close>

lemma field_total [simp]:
  "off + 2 \<le> length p \<Longrightarrow> readU16BE p off \<noteq> None" "off + 4 \<le> length p \<Longrightarrow> readU32BE p off \<noteq> None"
  "off + 6 \<le> length p \<Longrightarrow> readU48BE p off \<noteq> None" "off + 8 \<le> length p \<Longrightarrow> readU64BE p off \<noteq> None"
  "off + 1 \<le> length p \<Longrightarrow> readChar p off \<noteq> None" "n \<le> length p \<Longrightarrow> copyChars p off n \<noteq> None"
  using u16f.get_total u32f.get_total u48f.get_total u64f.get_total charf.get_total
  by (simp_all add: copyChars_def)

lemma decodeAddOrder_fails:
  "decodeAddOrder p \<noteq> None" "decodeAddOrder p = Some None \<longleftrightarrow> length p \<noteq> 35"
  by (simp add: decodeAddOrder_def Option.bind_eq_None_conv del: not_None_eq)
    (auto simp: decodeAddOrder_def bind_eq_Some_conv)

lemma decodeOrderExecuted_fails:
  "decodeOrderExecuted p \<noteq> None" "decodeOrderExecuted p = Some None \<longleftrightarrow> length p \<noteq> 30"
  by (simp add: decodeOrderExecuted_def Option.bind_eq_None_conv del: not_None_eq)
    (auto simp: decodeOrderExecuted_def bind_eq_Some_conv)

lemma decodeMessage_total: "decodeMessage type p \<noteq> None"
proof (cases rule: itch_type_cases [of type])
  case 4
  then show ?thesis
    using decodeAddOrder_fails(1) [of "take 35 p"]
    by (simp add: decode_extended Option.bind_eq_None_conv split: option.splits del: not_None_eq)
next
  case 6
  then show ?thesis
    using decodeOrderExecuted_fails(1) [of "take 30 p"]
    by (simp add: decode_extended Option.bind_eq_None_conv split: option.splits del: not_None_eq)
next
  case 11
  then show ?thesis by (simp add: decodeMessage_unknown)
qed (simp_all add: decodeMessage_def itch_type_defs decodeAddOrder_fails decodeOrderExecuted_fails
    Option.bind_eq_None_conv del: not_None_eq)

lemma decodeMessage_false: "decodeMessage type p = Some None \<longleftrightarrow> itch_size type \<noteq> Some (length p)"
proof (cases rule: itch_type_cases [of type])
  case 4
  then show ?thesis
    using decodeAddOrder_fails [of "take 35 p"]
    by (auto simp: decode_extended itch_size_known bind_eq_Some_conv split: option.splits)
next
  case 6
  then show ?thesis
    using decodeOrderExecuted_fails [of "take 30 p"]
    by (auto simp: decode_extended itch_size_known bind_eq_Some_conv split: option.splits)
next
  case 11
  then show ?thesis by (simp add: decodeMessage_unknown)
qed (simp_all add: decodeMessage_def itch_size_def itch_type_defs decodeAddOrder_fails decodeOrderExecuted_fails bind_eq_Some_conv)

section \<open>Properties\<close>

text \<open>
  C26. Round trip: a message written in the wire layout of its type decodes to itself, for every
  one of the ten message types and all field values their C++ types and the 6-byte timestamp allow.
\<close>

theorem decode_round_trip:
  assumes "itch_wf m"
  shows "decodeMessage (of_char (itch_type m)) (itch_payload m) = Some (Some m)"
  using assms by (rule decodeMessage_payload)

theorem decode_round_trip_witness:
  "\<exists>m. itch_payload m = [0, 7, 0, 1, 0, 0, 0, 0, 1, 2, 0, 0, 0, 0, 0, 0, 0, 42] \<and>
     decodeMessage 68 (itch_payload m) = Some (Some m) \<and> itch_type m = CHR ''D''"
proof -
  let ?m = "OrderDelete \<lparr>od_stockLocate = 7, od_trackingNumber = 1, od_timestamp = 258, od_orderReferenceNumber = 42\<rparr>"
  have "itch_payload ?m = [0, 7, 0, 1, 0, 0, 0, 0, 1, 2, 0, 0, 0, 0, 0, 0, 0, 42]" by code_simp
  moreover have "decodeMessage 68 (itch_payload ?m) = Some (Some ?m)"
    using decode_round_trip [of ?m] by (simp add: timestamp_ok_def itch_type_defs del: itch_payload.simps)
  moreover have "itch_type ?m = CHR ''D''" by (simp add: itch_type_defs)
  ultimately show ?thesis by blast
qed

text \<open>
  C27. Typing of the decoder: whatever it accepts is a well-formed message of the announced
  type, with arrays of the right length and a timestamp below 2^48, and it is the only message with
  that payload: no byte is ignored and no two payloads give the same message.
\<close>

theorem decode_well_typed:
  assumes "decodeMessage type p = Some (Some m)"
  shows "itch_wf m \<and> type = of_char (itch_type m) \<and> p = itch_payload m"
  using assms by (rule decodeMessage_exact)

theorem decode_well_typed_witness:
  "\<exists>m. decodeMessage 84 [0, 0, 1, 0] = Some (Some m) \<and> itch_wf m \<and> itch_payload m = [0, 0, 1, 0]"
proof -
  have d: "decodeMessage 84 [0, 0, 1, 0] = Some (Some (TimestampSeconds \<lparr>ts_seconds = 256\<rparr>))"
    by (simp add: decodeMessage_def itch_type_defs readU32BE_def byte_at_def)
  from decode_well_typed [OF d] d show ?thesis by metis
qed

text \<open>
  C28. Bounds and errors of the decoder: on any type and any bytes it returns without reading
  past the end of the payload, and it rejects exactly the unknown types and the payloads that do
  not have the size of their type.
\<close>

theorem decode_in_bounds:
  "decodeMessage type p \<noteq> None \<and>
   (decodeMessage type p = Some None \<longleftrightarrow> itch_size type \<noteq> Some (length p))"
  by (simp add: decodeMessage_total decodeMessage_false del: not_None_eq)

end
