(* ===== verification/Itch_Parser.thy ===== *)
theory Itch_Parser
  imports Itch_Decoder
begin

text \<open>
  \<open>ItchParser\<close> (\<open>include/titan/feed/itch/parser.hpp\<close>, \<open>src/feed/itch/parser.cpp\<close>): incremental framing of
  a byte stream.  \<open>feed_loop\<close> is the loop of \<open>feed\<close> with its offset into the buffer; it is
  refined against \<open>frames\<close>, which cuts a byte string into frames without offsets or state.
\<close>

section \<open>State and operations\<close>

record ItchParseResult =
  pr_ok :: bool
  pr_rawType :: u8
  pr_message :: ItchMessage

text \<open>\<open>ItchParseResult result{}\<close> leaves the first alternative of the variant, all zero.\<close>

definition default_message :: ItchMessage where
  "default_message = SystemEvent
     \<lparr>se_stockLocate = 0, se_trackingNumber = 0, se_timestamp = 0, se_eventCode = CHR 0x00\<rparr>"

record ItchParser =
  ip_buffer :: "u8 list"
  ip_messagesDecoded :: nat
  ip_messagesSkipped :: nat

definition new_ItchParser :: ItchParser where
  "new_ItchParser = \<lparr>ip_buffer = [], ip_messagesDecoded = 0, ip_messagesSkipped = 0\<rparr>"

definition kMaxMessageSize :: nat where "kMaxMessageSize = 8192"

definition frame_length :: "u8 \<Rightarrow> u8 \<Rightarrow> u16" where
  "frame_length b0 b1 = or (push_bit 8 (ucast b0)) (ucast b1)"

text \<open>
  The loop of \<open>feed\<close>: \<open>off\<close> is the offset into the buffer, the other arguments are the
  results pushed so far and the two counters.
\<close>

function feed_loop ::
  "u8 list \<Rightarrow> nat \<Rightarrow> ItchParseResult list \<Rightarrow> nat \<Rightarrow> nat \<Rightarrow> (ItchParseResult list \<times> nat \<times> nat \<times> nat) option" where
  "feed_loop buf off results decoded skipped =
     (if length buf - off \<ge> 2 then
        let len = frame_length (buf ! off) (buf ! (off + 1)) in
        if len = 0 \<or> unat len > kMaxMessageSize then feed_loop buf (off + 2) results decoded (skipped + 1)
        else
          let totalSize = 2 + unat len in
          if length buf - off < totalSize then Some (results, off, decoded, skipped)
          else
            let type = buf ! (off + 2); payload = take (unat len - 1) (drop (off + 3) buf) in
            case decodeMessage type payload of
              None \<Rightarrow> None
            | Some None \<Rightarrow>
                feed_loop buf (off + totalSize)
                  (results @ [\<lparr>pr_ok = False, pr_rawType = type, pr_message = default_message\<rparr>])
                  decoded (skipped + 1)
            | Some (Some m) \<Rightarrow>
                feed_loop buf (off + totalSize)
                  (results @ [\<lparr>pr_ok = True, pr_rawType = type, pr_message = m\<rparr>])
                  (decoded + 1) skipped
      else Some (results, off, decoded, skipped))"
  by pat_completeness auto
termination
  by (relation "measure (\<lambda>(buf, off, _). length buf - off)") auto

declare feed_loop.simps [simp del]

definition parser_feed :: "ItchParser \<Rightarrow> u8 list \<Rightarrow> (ItchParseResult list \<times> ItchParser) option" where
  "parser_feed P data = do {
     (results, off, decoded, skipped) \<leftarrow>
       feed_loop (ip_buffer P @ data) 0 [] (ip_messagesDecoded P) (ip_messagesSkipped P);
     Some (results, \<lparr>ip_buffer = drop off (ip_buffer P @ data),
                     ip_messagesDecoded = decoded, ip_messagesSkipped = skipped\<rparr>) }"

definition parser_reset :: "ItchParser \<Rightarrow> ItchParser" where
  "parser_reset P = \<lparr>ip_buffer = [], ip_messagesDecoded = 0, ip_messagesSkipped = 0\<rparr>"

text \<open>A stream arriving in chunks: one call of \<open>feed\<close> per chunk.\<close>

fun feed_chunks :: "ItchParser \<Rightarrow> u8 list list \<Rightarrow> (ItchParseResult list \<times> ItchParser) option" where
  "feed_chunks P [] = Some ([], P)"
| "feed_chunks P (c # cs) = do {
     (results, P1) \<leftarrow> parser_feed P c;
     (results', P2) \<leftarrow> feed_chunks P1 cs;
     Some (results @ results', P2) }"

section \<open>Frames\<close>

datatype frame = BadLength | Frame u8 "u8 list"

function frames :: "u8 list \<Rightarrow> frame list \<times> u8 list" where
  "frames (b0 # b1 # rest) =
     (let n = unat (frame_length b0 b1) in
      if n = 0 \<or> n > kMaxMessageSize then map_prod ((#) BadLength) id (frames rest)
      else if length rest < n then ([], b0 # b1 # rest)
      else map_prod ((#) (Frame (hd rest) (take (n - 1) (tl rest)))) id (frames (drop n rest)))"
| "frames [] = ([], [])"
| "frames [b] = ([], [b])"
  by pat_completeness auto
termination
  by (relation "measure length") auto

text \<open>The result of a frame, if it has one, and whether it counts as decoded.\<close>

primrec frame_result :: "frame \<Rightarrow> ItchParseResult list" where
  "frame_result BadLength = []"
| "frame_result (Frame type payload) =
     [case decodeMessage type payload of
        Some (Some m) \<Rightarrow> \<lparr>pr_ok = True, pr_rawType = type, pr_message = m\<rparr>
      | _ \<Rightarrow> \<lparr>pr_ok = False, pr_rawType = type, pr_message = default_message\<rparr>]"

definition frame_ok :: "frame \<Rightarrow> bool" where
  "frame_ok f \<longleftrightarrow> (\<exists>r. frame_result f = [r] \<and> pr_ok r)"

abbreviation frames_results :: "frame list \<Rightarrow> ItchParseResult list" where
  "frames_results fs \<equiv> concat (map frame_result fs)"

lemma frame_ok_simps [simp]: "\<not> frame_ok BadLength"
  "frame_ok (Frame type payload) \<longleftrightarrow> (\<exists>m. decodeMessage type payload = Some (Some m))"
  by (auto simp: frame_ok_def split: option.splits)

lemma frames_rest_le: "length (snd (frames bs)) \<le> length bs"
  by (induction bs rule: frames.induct) (auto simp: Let_def)

lemma two_left:
  assumes "length buf - off \<ge> 2"
  shows "drop off buf = buf ! off # buf ! (off + 1) # drop (off + 2) buf"
  using assms by (simp add: Cons_nth_drop_Suc)

lemma frames_step:
  assumes "length buf - off \<ge> 2" and "n = unat (frame_length (buf ! off) (buf ! (off + 1)))"
  shows "frames (drop off buf) =
    (if n = 0 \<or> n > kMaxMessageSize then map_prod ((#) BadLength) id (frames (drop (off + 2) buf))
     else if length buf - off < 2 + n then ([], drop off buf)
     else map_prod ((#) (Frame (buf ! (off + 2)) (take (n - 1) (drop (off + 3) buf)))) id
            (frames (drop (off + (2 + n)) buf)))"
proof -
  have drops: "length (drop (off + 2) buf) < n \<longleftrightarrow> length buf - off < 2 + n"
    "drop n (drop (off + 2) buf) = drop (off + (2 + n)) buf" "tl (drop (off + 2) buf) = drop (off + 3) buf"
    using assms(1) by (auto simp: add_ac tl_drop drop_Suc [symmetric] numeral_3_eq_3)
  moreover have "hd (drop (off + 2) buf) = buf ! (off + 2)" if "n \<noteq> 0" "\<not> length buf - off < 2 + n"
    using that by (intro hd_drop_conv_nth) simp
  ultimately show ?thesis
    unfolding two_left [OF assms(1)] frames.simps Let_def assms(2) by simp
qed

lemma feed_loop_frames:
  assumes "off \<le> length buf"
  shows "feed_loop buf off results decoded skipped = Some
     (results @ frames_results (fst (frames (drop off buf))),
      length buf - length (snd (frames (drop off buf))),
      decoded + length (filter frame_ok (fst (frames (drop off buf)))),
      skipped + length (filter (\<lambda>f. \<not> frame_ok f) (fst (frames (drop off buf)))))"
  using assms
proof (induction "length buf - off" arbitrary: off results decoded skipped rule: less_induct)
  case less
  define len where "len = frame_length (buf ! off) (buf ! (off + 1))"
  note unfold = feed_loop.simps [of buf off] Let_def len_def [symmetric, simplified]
  consider "length buf - off < 2"
    | "length buf - off \<ge> 2" "len = 0 \<or> unat len > kMaxMessageSize"
    | "length buf - off \<ge> 2" "\<not> (len = 0 \<or> unat len > kMaxMessageSize)" "length buf - off < 2 + unat len"
    | "length buf - off \<ge> 2" "\<not> (len = 0 \<or> unat len > kMaxMessageSize)" "length buf - off \<ge> 2 + unat len"
    by linarith
  then show ?case
  proof cases
    case 1
    then have "frames (drop off buf) = ([], drop off buf)"
      by (cases "drop off buf" rule: frames.cases) (auto dest: arg_cong [of _ _ length])
    with 1 less.prems show ?thesis by (simp add: unfold)
  next
    case 2
    then have "frames (drop off buf) = map_prod ((#) BadLength) id (frames (drop (off + 2) buf))"
      using frames_step [OF 2(1), of "unat len"] by (simp add: len_def unat_eq_0)
    with 2 show ?thesis
      by (simp add: unfold less.hyps)
  next
    case 3
    then have "frames (drop off buf) = ([], drop off buf)"
      using frames_step [OF 3(1), of "unat len"] by (simp add: len_def unat_eq_0)
    with 3 less.prems show ?thesis by (simp add: unfold)
  next
    case 4
    define type payload where "type = buf ! (off + 2)" and "payload = take (unat len - 1) (drop (off + 3) buf)"
    from 4 have "frames (drop off buf) = map_prod ((#) (Frame type payload)) id (frames (drop (off + (2 + unat len)) buf))"
      using frames_step [OF 4(1), of "unat len"] by (simp add: len_def type_def payload_def unat_eq_0)
    moreover obtain r where "decodeMessage type payload = Some r" using decodeMessage_total by blast
    ultimately show ?thesis
      using 4
      by (cases r) (simp_all add: unfold less.hyps type_def [symmetric, simplified] payload_def [symmetric, simplified])
  qed
qed

lemma frames_append:
  "frames (xs @ ys) =
     (fst (frames xs) @ fst (frames (snd (frames xs) @ ys)), snd (frames (snd (frames xs) @ ys)))"
proof (induction xs rule: frames.induct)
  case (1 b0 b1 rest)
  define n where "n = unat (frame_length b0 b1)"
  show ?case
  proof (cases "n = 0 \<or> n > kMaxMessageSize")
    case True
    with 1(1) [OF n_def] show ?thesis by (simp add: n_def [symmetric] Let_def map_prod_def split_beta)
  next
    case good: False
    show ?thesis
    proof (cases "length rest < n")
      case True
      with good show ?thesis by (simp add: n_def [symmetric] Let_def map_prod_def split_beta)
    next
      case False
      let ?f = "Frame (hd rest) (take (n - 1) (tl rest))"
      have "rest \<noteq> []" "n \<le> length rest" using good False by auto
      then have "hd (rest @ ys) = hd rest" "take (n - 1) (tl (rest @ ys)) = take (n - 1) (tl rest)"
        "drop n (rest @ ys) = drop n rest @ ys"
        by simp_all
      then have "frames ((b0 # b1 # rest) @ ys) = map_prod ((#) ?f) id (frames (drop n rest @ ys))"
        using good False by (simp add: n_def [symmetric] Let_def del: drop_append)
      moreover have "frames (b0 # b1 # rest) = map_prod ((#) ?f) id (frames (drop n rest))"
        using good False by (simp add: n_def [symmetric] Let_def)
      ultimately show ?thesis
        unfolding 1(2) [OF n_def good False] by (simp add: map_prod_def split_beta)
    qed
  qed
qed simp_all

lemma frames_rest: "frames (snd (frames bs)) = ([], snd (frames bs))"
  by (induction bs rule: frames.induct) (auto simp: Let_def)

lemma frames_rest_bound: "length (snd (frames bs)) \<le> kMaxMessageSize + 1"
  by (induction bs rule: frames.induct) (auto simp: Let_def kMaxMessageSize_def)

lemma frames_rest_suffix: "\<exists>ps. bs = ps @ snd (frames bs)"
proof (induction bs rule: frames.induct)
  case (1 b0 b1 rest)
  define n where "n = unat (frame_length b0 b1)"
  consider "n = 0 \<or> n > kMaxMessageSize" | "\<not> (n = 0 \<or> n > kMaxMessageSize)" "length rest < n"
    | "\<not> (n = 0 \<or> n > kMaxMessageSize)" "\<not> length rest < n" by blast
  then show ?case
  proof cases
    case 1
    with "1.IH"(1) [OF n_def] obtain ps where "rest = ps @ snd (frames rest)" by blast
    with 1 show ?thesis by (intro exI [of _ "b0 # b1 # ps"]) (simp add: n_def [symmetric] Let_def)
  next
    case 3
    with "1.IH"(2) [OF n_def] obtain ps where "drop n rest = ps @ snd (frames (drop n rest))" by blast
    then have "rest = (take n rest @ ps) @ snd (frames (drop n rest))" by (metis append.assoc append_take_drop_id)
    with 3 show ?thesis
      by (intro exI [of _ "b0 # b1 # take n rest @ ps"]) (simp add: n_def [symmetric] Let_def)
  qed (simp add: n_def [symmetric] Let_def)
qed simp_all

text \<open>\<open>feed\<close> cuts the buffered and the new bytes into frames and keeps what is left.\<close>

lemma parser_feed_frames:
  "parser_feed P data =
     (let (fs, rest) = frames (ip_buffer P @ data) in
      Some (frames_results fs,
        \<lparr>ip_buffer = rest, ip_messagesDecoded = ip_messagesDecoded P + length (filter frame_ok fs),
         ip_messagesSkipped = ip_messagesSkipped P + length (filter (\<lambda>f. \<not> frame_ok f) fs)\<rparr>))"
proof -
  let ?bs = "ip_buffer P @ data"
  obtain ps where ps: "?bs = ps @ snd (frames ?bs)" using frames_rest_suffix by blast
  have "drop (length ?bs - length (snd (frames ?bs))) ?bs = snd (frames ?bs)"
    using ps by (metis add_diff_cancel_right' append_eq_conv_conj length_append)
  then show ?thesis
    by (simp add: parser_feed_def feed_loop_frames split_beta Let_def)
qed

definition parser_drained :: "ItchParser \<Rightarrow> bool" where
  "parser_drained P \<longleftrightarrow> frames (ip_buffer P) = ([], ip_buffer P)"

lemma feed_chunks_concat:
  assumes "parser_drained P"
  shows "feed_chunks P cs = parser_feed P (concat cs)"
  using assms
proof (induction cs arbitrary: P)
  case Nil
  then show ?case by (simp add: parser_feed_frames parser_drained_def)
next
  case (Cons c cs)
  let ?fr = "frames (ip_buffer P @ c)"
  obtain P1 where P1: "parser_feed P c = Some (frames_results (fst ?fr), P1)"
    and "P1 = \<lparr>ip_buffer = snd ?fr, ip_messagesDecoded = ip_messagesDecoded P + length (filter frame_ok (fst ?fr)),
      ip_messagesSkipped = ip_messagesSkipped P + length (filter (\<lambda>f. \<not> frame_ok f) (fst ?fr))\<rparr>"
    by (simp add: parser_feed_frames split_beta Let_def)
  moreover from this have "feed_chunks P1 cs = parser_feed P1 (concat cs)"
    by (intro Cons.IH) (simp add: parser_drained_def frames_rest)
  ultimately show ?case
    using frames_append [of "ip_buffer P @ c" "concat cs"]
    by (simp add: parser_feed_frames split_beta Let_def)
qed

lemma parser_drained_new: "parser_drained new_ItchParser"
  by (simp add: parser_drained_def new_ItchParser_def)

lemma feed_chunks_new:
  "feed_chunks new_ItchParser cs =
     (let (fs, rest) = frames (concat cs) in
      Some (frames_results fs,
        \<lparr>ip_buffer = rest, ip_messagesDecoded = length (filter frame_ok fs),
         ip_messagesSkipped = length (filter (\<lambda>f. \<not> frame_ok f) fs)\<rparr>))"
  unfolding feed_chunks_concat [OF parser_drained_new] parser_feed_frames by (simp add: new_ItchParser_def)

section \<open>Frames written by a feed handler\<close>

definition wire_frame :: "u8 \<Rightarrow> u8 list \<Rightarrow> u8 list" where
  "wire_frame type payload = putBE 2 (of_nat (1 + length payload) :: u16) @ type # payload"

lemma frame_length_putBE:
  "frame_length (ucast (drop_bit 8 w)) (ucast w) = w"
  unfolding frame_length_def by (rule bit_word_eqI) (auto simp: bit_simps)

lemma frames_wire_frame:
  assumes "length payload < kMaxMessageSize"
  shows "frames (wire_frame type payload @ bs) = map_prod ((#) (Frame type payload)) id (frames bs)"
proof -
  have "unat (of_nat (1 + length payload) :: u16) = 1 + length payload"
    unfolding unat_of_nat using assms by (simp add: take_bit_eq_mod kMaxMessageSize_def)
  then show ?thesis
    using assms by (simp add: wire_frame_def putBE_two Let_def frame_length_putBE)
qed

lemma frames_wire_frames:
  assumes "\<forall>(type, payload)\<in>set fs. length payload < kMaxMessageSize"
  shows "frames (concat (map (\<lambda>(type, payload). wire_frame type payload) fs)) = (map (\<lambda>(t, p). Frame t p) fs, [])"
  using assms by (induction fs) (auto simp: frames_wire_frame)

definition itch_frame :: "ItchMessage \<Rightarrow> u8 list" where
  "itch_frame m = wire_frame (of_char (itch_type m)) (itch_payload m)"

lemma length_itch_payload: "itch_wf m \<Longrightarrow> length (itch_payload m) \<le> 39"
  by (cases m) auto

text \<open>What \<open>feed\<close> reports for a frame.\<close>

definition parse_result :: "u8 \<times> u8 list \<Rightarrow> ItchParseResult" where
  "parse_result f = hd (frame_result (Frame (fst f) (snd f)))"

lemma frames_results_map: "frames_results (map (\<lambda>(t, p). Frame t p) fs) = map parse_result fs"
  by (induction fs) (auto simp: parse_result_def split: option.splits)

lemma frame_ok_parse_result: "frame_ok (Frame (fst f) (snd f)) \<longleftrightarrow> pr_ok (parse_result f)"
  by (auto simp: parse_result_def split: option.splits)

lemma feed_wire_frames:
  assumes "\<forall>(type, payload)\<in>set fs. length payload < kMaxMessageSize"
    and "concat cs = concat (map (\<lambda>(type, payload). wire_frame type payload) fs)"
  shows "feed_chunks new_ItchParser cs = Some (map parse_result fs,
    \<lparr>ip_buffer = [], ip_messagesDecoded = length (filter pr_ok (map parse_result fs)),
     ip_messagesSkipped = length (filter (\<lambda>r. \<not> pr_ok r) (map parse_result fs))\<rparr>)"
proof -
  have "length (filter frame_ok (map (\<lambda>(t, p). Frame t p) fs)) = length (filter pr_ok (map parse_result fs))"
    "length (filter (\<lambda>f. \<not> frame_ok f) (map (\<lambda>(t, p). Frame t p) fs))
       = length (filter (\<lambda>r. \<not> pr_ok r) (map parse_result fs))"
    by (simp_all add: filter_map comp_def split_beta frame_ok_parse_result del: frame_ok_simps)
  with frames_wire_frames [OF assms(1)] show ?thesis
    by (simp add: feed_chunks_new assms(2) frames_results_map [simplified])
qed

lemma frames_counts:
  "length (filter frame_ok fs) = length (filter pr_ok (frames_results fs))"
  "length (filter (\<lambda>r. \<not> pr_ok r) (frames_results fs)) \<le> length (filter (\<lambda>f. \<not> frame_ok f) fs)"
proof (induction fs)
  case (Cons f fs)
  case 1
  with Cons show ?case by (cases f) (auto split: option.splits)
  case 2
  with Cons show ?case by (cases f) (auto split: option.splits)
qed simp_all

lemma parser_counters:
  assumes "parser_feed P data = Some (results, P')"
  shows "ip_messagesDecoded P' = ip_messagesDecoded P + length (filter pr_ok results)"
  using assms by (auto simp: parser_feed_frames split_beta Let_def frames_counts(1))

section \<open>Properties\<close>

text \<open>
  C29. The chunks a stream arrives in do not matter: feeding it piece by piece, however it is cut,
  gives the same results in the same order, the same bytes kept back and the same counters as
  feeding it in one call.
\<close>

theorem chunking_irrelevant:
  "feed_chunks new_ItchParser cs = parser_feed new_ItchParser (concat cs)"
  by (rule feed_chunks_concat) (rule parser_drained_new)

text \<open>
  Round trip of a stream: the frames of any messages, arriving in any chunks, are parsed to
  exactly these messages in order, with nothing skipped and nothing left in the buffer.
\<close>

theorem stream_round_trip:
  assumes "\<forall>m\<in>set ms. itch_wf m" "concat cs = concat (map itch_frame ms)"
  shows "feed_chunks new_ItchParser cs = Some
    (map (\<lambda>m. \<lparr>pr_ok = True, pr_rawType = of_char (itch_type m), pr_message = m\<rparr>) ms,
     \<lparr>ip_buffer = [], ip_messagesDecoded = length ms, ip_messagesSkipped = 0\<rparr>)"
proof -
  let ?fs = "map (\<lambda>m. (of_char (itch_type m), itch_payload m)) ms"
  have "parse_result (of_char (itch_type m), itch_payload m)
      = \<lparr>pr_ok = True, pr_rawType = of_char (itch_type m), pr_message = m\<rparr>" if "m \<in> set ms" for m
    using assms(1) that by (simp add: parse_result_def decodeMessage_payload)
  then have r: "map parse_result ?fs = map (\<lambda>m. \<lparr>pr_ok = True, pr_rawType = of_char (itch_type m), pr_message = m\<rparr>) ms"
    by simp
  have "\<forall>(type, payload)\<in>set ?fs. length payload < kMaxMessageSize"
    using assms(1) length_itch_payload by (fastforce simp: kMaxMessageSize_def)
  moreover have "concat cs = concat (map (\<lambda>(type, payload). wire_frame type payload) ?fs)"
    by (simp add: assms(2) itch_frame_def [abs_def] comp_def)
  ultimately show ?thesis
    using feed_wire_frames [of ?fs cs] unfolding r by (simp add: filter_map comp_def)
qed

theorem stream_round_trip_witness:
  "\<exists>m n. feed_chunks new_ItchParser [[0], [5, 84, 0, 0], [1, 0, 0, 5, 84], [0, 0, 0, 9]] = Some
    ([\<lparr>pr_ok = True, pr_rawType = 84, pr_message = TimestampSeconds m\<rparr>,
      \<lparr>pr_ok = True, pr_rawType = 84, pr_message = TimestampSeconds n\<rparr>],
     \<lparr>ip_buffer = [], ip_messagesDecoded = 2, ip_messagesSkipped = 0\<rparr>) \<and> ts_seconds m = 256 \<and> ts_seconds n = 9"
  using stream_round_trip [of "[TimestampSeconds \<lparr>ts_seconds = 256\<rparr>, TimestampSeconds \<lparr>ts_seconds = 9\<rparr>]"
      "[[0], [5, 84, 0, 0], [1, 0, 0, 5, 84], [0, 0, 0, 9]]"]
  by (intro exI [of _ "\<lparr>ts_seconds = 256\<rparr>"] exI [of _ "\<lparr>ts_seconds = 9\<rparr>"])
    (simp add: itch_frame_def wire_frame_def itch_type_defs putBE_two putBE_four del: feed_chunks.simps)

text \<open>
  C31. Bounds of the parser: on any bytes in any chunks every call returns, at most 8193 bytes stay
  buffered, the messages counted as decoded are exactly the results reported as ok, and every
  other result was counted as skipped.
\<close>

theorem parser_bounded:
  "\<exists>results P. feed_chunks new_ItchParser cs = Some (results, P) \<and> length (ip_buffer P) \<le> 8193 \<and>
     ip_messagesDecoded P = length (filter pr_ok results) \<and>
     length (filter (\<lambda>r. \<not> pr_ok r) results) \<le> ip_messagesSkipped P"
proof -
  have "length (snd (frames (concat cs))) \<le> 8193"
    using frames_rest_bound [of "concat cs"] by (simp add: kMaxMessageSize_def)
  then show ?thesis
    by (simp add: feed_chunks_new split_beta Let_def frames_counts)
qed

text \<open>
  C32. Bad frames are isolated: when a stream holds frames of unknown types or of the wrong size
  among good ones, every frame still gets its own result in order, and it is ok exactly when the
  type is known and the size is the one of the type.
\<close>

theorem bad_frames_isolated:
  assumes "\<forall>f\<in>set fs. length (snd f) < 8192"
    and "concat cs = concat (map (\<lambda>f. wire_frame (fst f) (snd f)) fs)"
  shows "\<exists>results P. feed_chunks new_ItchParser cs = Some (results, P) \<and> ip_buffer P = [] \<and>
    map pr_rawType results = map fst fs \<and>
    map pr_ok results = map (\<lambda>f. itch_size (fst f) = Some (length (snd f))) fs"
proof -
  have ok: "pr_ok (parse_result f) \<longleftrightarrow> itch_size (fst f) = Some (length (snd f))"
    "pr_rawType (parse_result f) = fst f" for f
    using decodeMessage_total [of "fst f" "snd f"] decodeMessage_false [of "fst f" "snd f"]
    by (auto simp: parse_result_def split: option.splits)
  have "feed_chunks new_ItchParser cs = Some (map parse_result fs,
    \<lparr>ip_buffer = [], ip_messagesDecoded = length (filter pr_ok (map parse_result fs)),
     ip_messagesSkipped = length (filter (\<lambda>r. \<not> pr_ok r) (map parse_result fs))\<rparr>)"
    using assms by (intro feed_wire_frames) (auto simp: kMaxMessageSize_def case_prod_beta')
  then show ?thesis by (simp add: ok)
qed

theorem bad_frames_isolated_witness:
  "\<exists>results P. feed_chunks new_ItchParser [[0, 2, 63, 1, 0, 5], [84, 0, 0, 0, 9, 0, 1, 84]] = Some (results, P) \<and>
     ip_buffer P = [] \<and> map pr_rawType results = [63, 84, 84] \<and> map pr_ok results = [False, True, False]"
  using bad_frames_isolated [of "[(63, [1]), (84, [0, 0, 0, 9]), (84, [])]"
      "[[0, 2, 63, 1, 0, 5], [84, 0, 0, 0, 9, 0, 1, 84]]"]
  by (simp add: wire_frame_def putBE_two itch_size_def itch_type_defs del: feed_chunks.simps)

end
