(* ===== verification/Itch_Book_Builder.thy ===== *)
theory Itch_Book_Builder
  imports Itch_Messages
begin

text \<open>
  \<open>ItchBookBuilder\<close> (\<open>include/titan/feed/itch/book_builder.hpp\<close>, \<open>src/feed/itch/book_builder.cpp\<close>): one resting-order
  book per stock locate, with aggregated price levels kept beside the orders.  The two
  \<open>std::map\<close>s of levels and the \<open>unordered_map\<close> of orders are finite maps with sorted keys
  (nothing depends on the order of the orders); the books are looked up by locate only.
\<close>

section \<open>State\<close>

record RestingOrder =
  ro_side :: Side
  ro_price :: Price
  ro_remainingShares :: Quantity

record SymbolBook =
  sb_symbol :: string
  sb_orders :: "(OrderRefNumber, RestingOrder) omap"
  sb_bidLevels :: "(Price, Quantity) omap"
  sb_askLevels :: "(Price, Quantity) omap"
  sb_nextSnapshotSequenceNumber :: u64

definition new_SymbolBook :: SymbolBook where
  "new_SymbolBook = \<lparr>sb_symbol = '''', sb_orders = [], sb_bidLevels = [], sb_askLevels = [],
     sb_nextSnapshotSequenceNumber = 0\<rparr>"

type_synonym ItchBookBuilder = "StockLocate \<rightharpoonup> SymbolBook"

primrec sb_levels :: "Side \<Rightarrow> SymbolBook \<Rightarrow> (Price, Quantity) omap" where
  "sb_levels Buy b = sb_bidLevels b"
| "sb_levels Sell b = sb_askLevels b"

primrec set_levels :: "Side \<Rightarrow> (Price, Quantity) omap \<Rightarrow> SymbolBook \<Rightarrow> SymbolBook" where
  "set_levels Buy L b = b\<lparr>sb_bidLevels := L\<rparr>"
| "set_levels Sell L b = b\<lparr>sb_askLevels := L\<rparr>"

section \<open>Operations\<close>

definition trimTrailingSpaces :: "string \<Rightarrow> string" where
  "trimTrailingSpaces stock = rev (dropWhile (\<lambda>c. c = CHR '' '') (rev stock))"

definition ibb_addLevel :: "SymbolBook \<Rightarrow> Side \<Rightarrow> Price \<Rightarrow> Quantity \<Rightarrow> SymbolBook" where
  "ibb_addLevel b side price qty =
     set_levels side (omap_set price (omap_at 0 price (sb_levels side b) + qty) (sb_levels side b)) b"

definition ibb_removeLevel :: "SymbolBook \<Rightarrow> Side \<Rightarrow> Price \<Rightarrow> Quantity \<Rightarrow> SymbolBook" where
  "ibb_removeLevel b side price qty =
     (case map_of (sb_levels side b) price of
        None \<Rightarrow> b
      | Some level \<Rightarrow>
          if qty \<ge> level then set_levels side (omap_erase price (sb_levels side b)) b
          else set_levels side (omap_set price (level - qty) (sb_levels side b)) b)"

definition ibb_addOrder :: "SymbolBook \<Rightarrow> OrderRefNumber \<Rightarrow> Side \<Rightarrow> Quantity \<Rightarrow> Price \<Rightarrow> SymbolBook" where
  "ibb_addOrder b ref side shares price =
     ibb_addLevel
       (b\<lparr>sb_orders := omap_set ref \<lparr>ro_side = side, ro_price = price, ro_remainingShares = shares\<rparr> (sb_orders b)\<rparr>)
       side price shares"

definition ibb_reduceOrder :: "SymbolBook \<Rightarrow> OrderRefNumber \<Rightarrow> Quantity \<Rightarrow> SymbolBook" where
  "ibb_reduceOrder b ref shares =
     (case map_of (sb_orders b) ref of
        None \<Rightarrow> b
      | Some order \<Rightarrow>
          let reduceBy = min shares (ro_remainingShares order);
              b1 = ibb_removeLevel b (ro_side order) (ro_price order) reduceBy in
          if reduceBy \<ge> ro_remainingShares order then b1\<lparr>sb_orders := omap_erase ref (sb_orders b1)\<rparr>
          else b1\<lparr>sb_orders := omap_set ref
                 (order\<lparr>ro_remainingShares := ro_remainingShares order - reduceBy\<rparr>) (sb_orders b1)\<rparr>)"

definition ibb_deleteOrder :: "SymbolBook \<Rightarrow> OrderRefNumber \<Rightarrow> SymbolBook" where
  "ibb_deleteOrder b ref =
     (case map_of (sb_orders b) ref of
        None \<Rightarrow> b
      | Some order \<Rightarrow>
          let b1 = ibb_removeLevel b (ro_side order) (ro_price order) (ro_remainingShares order) in
          b1\<lparr>sb_orders := omap_erase ref (sb_orders b1)\<rparr>)"

definition ibb_reset :: "ItchBookBuilder \<Rightarrow> ItchBookBuilder" where
  "ibb_reset B = Map.empty"

text \<open>\<open>findBook\<close> and the early return on a locate without a book.\<close>

definition on_book :: "StockLocate \<Rightarrow> (SymbolBook \<Rightarrow> SymbolBook) \<Rightarrow> ItchBookBuilder \<Rightarrow> ItchBookBuilder" where
  "on_book locate f B = (case B locate of None \<Rightarrow> B | Some b \<Rightarrow> B(locate \<mapsto> f b))"

definition ibb_handleSystemEvent :: "SystemEventMessage \<Rightarrow> ItchBookBuilder \<Rightarrow> ItchBookBuilder" where
  "ibb_handleSystemEvent m B = (if se_eventCode m = CHR ''C'' then ibb_reset B else B)"

definition ibb_handleStockDirectory :: "StockDirectoryMessage \<Rightarrow> ItchBookBuilder \<Rightarrow> ItchBookBuilder" where
  "ibb_handleStockDirectory m B =
     (let b = (case B (sd_stockLocate m) of None \<Rightarrow> new_SymbolBook | Some b \<Rightarrow> b) in
      B(sd_stockLocate m \<mapsto> b\<lparr>sb_symbol := trimTrailingSpaces (sd_stock m)\<rparr>))"

definition ibb_handleAddOrder :: "AddOrderMessage \<Rightarrow> ItchBookBuilder \<Rightarrow> ItchBookBuilder" where
  "ibb_handleAddOrder m = on_book (ao_stockLocate m) (\<lambda>b.
     let side = (if ao_buySellIndicator m = CHR ''B'' then Buy else Sell) in
     ibb_addOrder b (ao_orderReferenceNumber m) side (ucast (ao_shares m)) (ucast (ao_price m)))"

definition ibb_handleOrderExecuted :: "OrderExecutedMessage \<Rightarrow> ItchBookBuilder \<Rightarrow> ItchBookBuilder" where
  "ibb_handleOrderExecuted m = on_book (oe_stockLocate m) (\<lambda>b.
     ibb_reduceOrder b (oe_orderReferenceNumber m) (ucast (oe_executedShares m)))"

definition ibb_handleOrderCancel :: "OrderCancelMessage \<Rightarrow> ItchBookBuilder \<Rightarrow> ItchBookBuilder" where
  "ibb_handleOrderCancel m = on_book (ox_stockLocate m) (\<lambda>b.
     ibb_reduceOrder b (ox_orderReferenceNumber m) (ucast (ox_cancelledShares m)))"

definition ibb_handleOrderDelete :: "OrderDeleteMessage \<Rightarrow> ItchBookBuilder \<Rightarrow> ItchBookBuilder" where
  "ibb_handleOrderDelete m = on_book (od_stockLocate m) (\<lambda>b. ibb_deleteOrder b (od_orderReferenceNumber m))"

definition ibb_handleOrderReplace :: "OrderReplaceMessage \<Rightarrow> ItchBookBuilder \<Rightarrow> ItchBookBuilder" where
  "ibb_handleOrderReplace m = on_book (ou_stockLocate m) (\<lambda>b.
     case map_of (sb_orders b) (ou_originalOrderReferenceNumber m) of
       None \<Rightarrow> b
     | Some order \<Rightarrow>
         ibb_addOrder (ibb_deleteOrder b (ou_originalOrderReferenceNumber m))
           (ou_newOrderReferenceNumber m) (ro_side order) (ucast (ou_shares m)) (ucast (ou_price m)))"

fun ibb_apply :: "ItchBookBuilder \<Rightarrow> ItchMessage \<Rightarrow> ItchBookBuilder" where
  "ibb_apply B (SystemEvent m) = ibb_handleSystemEvent m B"
| "ibb_apply B (StockDirectory m) = ibb_handleStockDirectory m B"
| "ibb_apply B (AddOrder m) = ibb_handleAddOrder m B"
| "ibb_apply B (AddOrderMpid m) = ibb_handleAddOrder (am_base m) B"
| "ibb_apply B (OrderExecuted m) = ibb_handleOrderExecuted m B"
| "ibb_apply B (OrderExecutedWithPrice m) = ibb_handleOrderExecuted (oc_base m) B"
| "ibb_apply B (OrderCancel m) = ibb_handleOrderCancel m B"
| "ibb_apply B (OrderDelete m) = ibb_handleOrderDelete m B"
| "ibb_apply B (OrderReplace m) = ibb_handleOrderReplace m B"
| "ibb_apply B (TimestampSeconds m) = B"

text \<open>The snapshot counter is \<open>mutable\<close>: taking a snapshot returns the builder with it advanced.\<close>

definition ibb_snapshot :: "ItchBookBuilder \<Rightarrow> StockLocate \<Rightarrow> nat \<Rightarrow> BookSnapshot option \<times> ItchBookBuilder" where
  "ibb_snapshot B locate depth =
     (case B locate of
        None \<Rightarrow> (None, B)
      | Some b \<Rightarrow>
          (Some \<lparr>snap_symbol = sb_symbol b, snap_sequence = sb_nextSnapshotSequenceNumber b,
             snap_bids = map (\<lambda>(p, q). \<lparr>level_price = p, level_quantity = q\<rparr>) (take depth (rev (sb_bidLevels b))),
             snap_asks = map (\<lambda>(p, q). \<lparr>level_price = p, level_quantity = q\<rparr>) (take depth (sb_askLevels b))\<rparr>,
           B(locate \<mapsto> b\<lparr>sb_nextSnapshotSequenceNumber := sb_nextSnapshotSequenceNumber b + 1\<rparr>)))"

definition ibb_symbolForLocate :: "ItchBookBuilder \<Rightarrow> StockLocate \<Rightarrow> string option" where
  "ibb_symbolForLocate B locate = map_option sb_symbol (B locate)"

definition ibb_orderCount :: "ItchBookBuilder \<Rightarrow> StockLocate \<Rightarrow> nat" where
  "ibb_orderCount B locate = (case B locate of None \<Rightarrow> 0 | Some b \<Rightarrow> length (sb_orders b))"

section \<open>Levels are the sums of the orders\<close>

text \<open>The shares resting at a price, and the level the book keeps for it.\<close>

definition resting_shares :: "SymbolBook \<Rightarrow> Side \<Rightarrow> Price \<Rightarrow> nat" where
  "resting_shares b side price =
     (\<Sum>(r, x)\<leftarrow>sb_orders b. if ro_side x = side \<and> ro_price x = price then unat (ro_remainingShares x) else 0)"

abbreviation level_at :: "SymbolBook \<Rightarrow> Side \<Rightarrow> Price \<Rightarrow> Quantity" where
  "level_at b side price \<equiv> omap_at 0 price (sb_levels side b)"

definition sbook_ok :: "nat \<Rightarrow> SymbolBook \<Rightarrow> bool" where
  "sbook_ok n b \<longleftrightarrow> omap_ok (sb_orders b) \<and> (\<forall>side. omap_ok (sb_levels side b)) \<and> length (sb_orders b) \<le> n \<and>
     (\<forall>(r, x)\<in>set (sb_orders b). unat (ro_remainingShares x) < 2 ^ 32) \<and>
     (\<forall>side price. unat (level_at b side price) = resting_shares b side price)"

lemma levels_simps [simp]:
  "sb_levels s (set_levels t L b) = (if s = t then L else sb_levels s b)"
  "sb_orders (set_levels t L b) = sb_orders b"
  "sb_levels s (b\<lparr>sb_orders := orders\<rparr>) = sb_levels s b"
  "sb_levels s (b\<lparr>sb_symbol := symbol\<rparr>) = sb_levels s b"
  "sb_levels s (b\<lparr>sb_nextSnapshotSequenceNumber := k\<rparr>) = sb_levels s b"
  by (cases s; cases t; simp)+

lemma addLevel_simps [simp]:
  "sb_orders (ibb_addLevel b side price qty) = sb_orders b"
  "level_at (ibb_addLevel b side price qty) s p =
     (if s = side \<and> p = price then level_at b s p + qty else level_at b s p)"
  by (auto simp: ibb_addLevel_def omap_at_def omap_simps)

lemma removeLevel_simps [simp]:
  "sb_orders (ibb_removeLevel b side price qty) = sb_orders b"
  "level_at (ibb_removeLevel b side price qty) s p =
     (if s = side \<and> p = price then level_at b s p - min qty (level_at b s p) else level_at b s p)"
  by (auto simp: ibb_removeLevel_def omap_at_def omap_simps min_def split: option.splits)

lemma levels_ok:
  "\<forall>s. omap_ok (sb_levels s b) \<Longrightarrow> omap_ok (sb_levels s (ibb_addLevel b side price qty))"
  "\<forall>s. omap_ok (sb_levels s b) \<Longrightarrow> omap_ok (sb_levels s (ibb_removeLevel b side price qty))"
  by (auto simp: ibb_addLevel_def ibb_removeLevel_def omap_simps split: option.splits)

text \<open>One order's part of the shares at a price.\<close>

definition share_of :: "Side \<Rightarrow> Price \<Rightarrow> OrderRefNumber \<times> RestingOrder \<Rightarrow> nat" where
  "share_of side price e =
     (if ro_side (snd e) = side \<and> ro_price (snd e) = price then unat (ro_remainingShares (snd e)) else 0)"

lemma resting_shares_sum: "resting_shares b side price = sum_list (map (share_of side price) (sb_orders b))"
  by (simp add: resting_shares_def share_of_def [abs_def] case_prod_beta')

lemma resting_shares_bound:
  assumes "\<forall>(r, x)\<in>set (sb_orders b). unat (ro_remainingShares x) < 2 ^ 32"
  shows "resting_shares b side price \<le> length (sb_orders b) * 2 ^ 32"
proof -
  have "sum_list (map (share_of side price) xs) \<le> length xs * 2 ^ 32"
    if "\<forall>(r, x)\<in>set xs. unat (ro_remainingShares x) < 2 ^ 32" for xs
    using that by (induction xs) (auto simp: share_of_def)
  with assms show ?thesis by (simp add: resting_shares_sum)
qed

lemma sbook_ok_share:
  assumes "sbook_ok n b" "map_of (sb_orders b) ref = Some x"
  shows "unat (ro_remainingShares x) \<le> unat (level_at b (ro_side x) (ro_price x))" "unat (ro_remainingShares x) < 2 ^ 32"
proof -
  have "unat (ro_remainingShares x) = share_of (ro_side x) (ro_price x) (ref, x)" by (simp add: share_of_def)
  also have "\<dots> \<le> resting_shares b (ro_side x) (ro_price x)"
    unfolding resting_shares_sum by (rule member_le_sum_list) (use assms(2) in \<open>auto dest: map_of_SomeD\<close>)
  finally show "unat (ro_remainingShares x) \<le> unat (level_at b (ro_side x) (ro_price x))"
    using assms(1) by (simp add: sbook_ok_def)
  show "unat (ro_remainingShares x) < 2 ^ 32"
    using assms by (force simp: sbook_ok_def dest: map_of_SomeD)
qed

lemma sbook_ok_mono: "sbook_ok n b \<Longrightarrow> n \<le> k \<Longrightarrow> sbook_ok k b"
  by (auto simp: sbook_ok_def)

lemma addOrder_ok:
  assumes "sbook_ok n b" "map_of (sb_orders b) ref = None" "unat shares < 2 ^ 32" "Suc n < 2 ^ 32"
  shows "sbook_ok (Suc n) (ibb_addOrder b ref side shares price)"
proof -
  let ?x = "\<lparr>ro_side = side, ro_price = price, ro_remainingShares = shares\<rparr>"
  have ok: "omap_ok (sb_orders b)" using assms(1) by (simp add: sbook_ok_def)
  have lv: "unat (level_at b s p) = resting_shares b s p" for s p using assms(1) by (simp add: sbook_ok_def)
  have "resting_shares b side price \<le> length (sb_orders b) * 2 ^ 32"
    using assms(1) by (intro resting_shares_bound) (simp add: sbook_ok_def)
  also have "\<dots> \<le> n * 2 ^ 32" using assms(1) by (simp add: sbook_ok_def)
  finally have "unat (level_at b side price) + unat shares < 2 ^ 64"
    using lv assms(3,4) by simp
  then have add: "unat (level_at b side price + shares) = unat (level_at b side price) + unat shares"
    by (simp add: unat_word_ariths)
  have "resting_shares (ibb_addOrder b ref side shares price) s p = resting_shares b s p + share_of s p (ref, ?x)" for s p
    by (simp add: resting_shares_sum ibb_addOrder_def omap_sum_insert [OF ok assms(2)])
  then have "unat (level_at (ibb_addOrder b ref side shares price) s p)
      = resting_shares (ibb_addOrder b ref side shares price) s p" for s p
    using add lv by (auto simp: ibb_addOrder_def share_of_def)
  moreover have "\<forall>(r, x)\<in>set (omap_set ref ?x (sb_orders b)). unat (ro_remainingShares x) < 2 ^ 32"
    using assms(1,3) omap_set_entries(1) [of ref ?x "sb_orders b"] by (fastforce simp: sbook_ok_def)
  ultimately show ?thesis
    using assms(1) omap_sum_insert(2) [OF ok assms(2), of ?x]
    by (simp add: sbook_ok_def ibb_addOrder_def omap_ok_set levels_ok)
qed

lemma reduceOrder_ok:
  assumes "sbook_ok n b"
  shows "sbook_ok n (ibb_reduceOrder b ref shares)"
proof (cases "map_of (sb_orders b) ref")
  case None
  with assms show ?thesis by (simp add: ibb_reduceOrder_def)
next
  case (Some x)
  define cut where "cut = min shares (ro_remainingShares x)"
  let ?s = "ro_side x" and ?p = "ro_price x"
  let ?x' = "x\<lparr>ro_remainingShares := ro_remainingShares x - cut\<rparr>"
  let ?b1 = "ibb_removeLevel b ?s ?p cut"
  have ok: "omap_ok (sb_orders b)" using assms by (simp add: sbook_ok_def)
  have lv: "unat (level_at b s p) = resting_shares b s p" for s p using assms by (simp add: sbook_ok_def)
  have le: "cut \<le> ro_remainingShares x" by (simp add: cut_def min_def)
  then have lev: "cut \<le> level_at b ?s ?p"
    using sbook_ok_share(1) [OF assms Some] by (simp add: word_le_nat_alt)
  then have level: "unat (level_at ?b1 s p) + (if s = ?s \<and> p = ?p then unat cut else 0) = resting_shares b s p" for s p
    using lv by (auto simp: unat_sub_le min_def word_le_nat_alt)
  have upd: "unat (ro_remainingShares x - cut) + unat cut = unat (ro_remainingShares x)"
    using le by (simp add: unat_sub_le word_le_nat_alt)
  have small: "unat (ro_remainingShares x - cut) < 2 ^ 32"
    using upd sbook_ok_share(2) [OF assms Some] by linarith
  define b' where "b' = ibb_reduceOrder b ref shares"
  have orders: "sb_orders b' = (if cut \<ge> ro_remainingShares x then omap_erase ref (sb_orders b) else omap_set ref ?x' (sb_orders b))"
    and levels: "sb_levels s b' = sb_levels s ?b1" for s
    using Some by (simp_all add: b'_def ibb_reduceOrder_def cut_def [symmetric] Let_def)
  have rest: "resting_shares b' s p + (if s = ?s \<and> p = ?p then unat cut else 0) = resting_shares b s p" for s p
    using omap_sum_update(1) [OF ok Some, of "share_of s p" ?x'] omap_sum_update(2) [OF ok Some, of "share_of s p"] upd le
    by (auto simp: resting_shares_sum orders share_of_def split: if_splits)
  have "unat (level_at b' s p) = resting_shares b' s p" for s p
    using level [of p s] rest [of s p] unfolding levels by linarith
  moreover have "\<forall>(r, y)\<in>set (sb_orders b'). unat (ro_remainingShares y) < 2 ^ 32"
  proof -
    have "set (sb_orders b') \<subseteq> insert (ref, ?x') (set (sb_orders b))"
      using omap_set_entries(1) [of ref ?x' "sb_orders b"] omap_set_entries(2) [of ref "sb_orders b"]
      by (auto simp: orders)
    with assms small show ?thesis by (auto simp: sbook_ok_def)
  qed
  ultimately show ?thesis
    using assms omap_sum_update(3) [OF ok Some, of ?x'] omap_sum_update(4) [OF ok Some] unfolding b'_def [symmetric]
    by (auto simp: sbook_ok_def orders levels omap_ok_set omap_ok_erase levels_ok)
qed

lemma deleteOrder_reduce:
  "ibb_deleteOrder b ref = (case map_of (sb_orders b) ref of None \<Rightarrow> b | Some x \<Rightarrow> ibb_reduceOrder b ref (ro_remainingShares x))"
  by (auto simp: ibb_deleteOrder_def ibb_reduceOrder_def Let_def split: option.splits)

lemma deleteOrder_ok: "sbook_ok n b \<Longrightarrow> sbook_ok n (ibb_deleteOrder b ref)"
  by (auto simp: deleteOrder_reduce reduceOrder_ok split: option.splits)

lemma deleteOrder_orders: "map_of (sb_orders (ibb_deleteOrder b ref)) = (map_of (sb_orders b))(ref := None)"
  by (auto simp: ibb_deleteOrder_def Let_def omap_simps fun_eq_iff split: option.splits)

section \<open>Runs\<close>

definition ibb_run :: "ItchBookBuilder \<Rightarrow> ItchMessage list \<Rightarrow> ItchBookBuilder" where
  "ibb_run B ms = foldl ibb_apply B ms"

text \<open>
  The protocol gives every order added during a day a reference number of its own: an add, and
  the new side of a replace, never reuse the reference of an order that is still resting.
\<close>

definition ref_unused :: "StockLocate \<Rightarrow> OrderRefNumber \<Rightarrow> ItchBookBuilder \<Rightarrow> bool" where
  "ref_unused locate ref B = (case B locate of None \<Rightarrow> True | Some b \<Rightarrow> map_of (sb_orders b) ref = None)"

fun refs_fresh :: "ItchBookBuilder \<Rightarrow> ItchMessage \<Rightarrow> bool" where
  "refs_fresh B (AddOrder m) = ref_unused (ao_stockLocate m) (ao_orderReferenceNumber m) B"
| "refs_fresh B (AddOrderMpid m) = ref_unused (ao_stockLocate (am_base m)) (ao_orderReferenceNumber (am_base m)) B"
| "refs_fresh B (OrderReplace m) =
     (ou_newOrderReferenceNumber m = ou_originalOrderReferenceNumber m
      \<or> ref_unused (ou_stockLocate m) (ou_newOrderReferenceNumber m) B)"
| "refs_fresh B m = True"

fun session_fresh :: "ItchBookBuilder \<Rightarrow> ItchMessage list \<Rightarrow> bool" where
  "session_fresh B [] = True"
| "session_fresh B (m # ms) = (refs_fresh B m \<and> session_fresh (ibb_apply B m) ms)"

definition builder_ok :: "nat \<Rightarrow> ItchBookBuilder \<Rightarrow> bool" where
  "builder_ok n B \<longleftrightarrow> (\<forall>locate b. B locate = Some b \<longrightarrow> sbook_ok n b)"

lemma on_book_ok:
  assumes "builder_ok n B" "\<And>b. B locate = Some b \<Longrightarrow> sbook_ok n b \<Longrightarrow> sbook_ok (Suc n) (f b)"
  shows "builder_ok (Suc n) (on_book locate f B)"
  using assms by (auto simp: builder_ok_def on_book_def intro: sbook_ok_mono [of n] split: option.splits if_splits)

lemma ucast_shares: "unat (ucast (w :: u32) :: u64) < 2 ^ 32"
  using unsigned_less [of w, where 'a = nat] by (simp add: unsigned_ucast_eq take_bit_nat_eq_self)

lemma new_SymbolBook_ok: "sbook_ok n new_SymbolBook"
proof -
  have "sb_levels s new_SymbolBook = []" for s by (cases s) (simp_all add: new_SymbolBook_def)
  then show ?thesis by (simp add: sbook_ok_def new_SymbolBook_def resting_shares_def omap_at_def)
qed

lemma sbook_ok_symbol [simp]: "sbook_ok n (b\<lparr>sb_symbol := symbol\<rparr>) = sbook_ok n b"
  by (simp add: sbook_ok_def resting_shares_def)

lemma ibb_apply_ok:
  assumes "builder_ok n B" "refs_fresh B m" "Suc n < 2 ^ 32"
  shows "builder_ok (Suc n) (ibb_apply B m)"
proof -
  note ok = addOrder_ok [OF _ _ ucast_shares assms(3)]
  have step: "sbook_ok (Suc n) b'" if "sbook_ok n b'" for b' using that by (rule sbook_ok_mono) simp
  have add: "builder_ok (Suc n) (ibb_handleAddOrder x B)" if "ref_unused (ao_stockLocate x) (ao_orderReferenceNumber x) B" for x
    unfolding ibb_handleAddOrder_def Let_def
    by (rule on_book_ok [OF assms(1)]) (use that in \<open>auto simp: ref_unused_def intro: ok\<close>)
  have reduce: "builder_ok (Suc n) (on_book l (\<lambda>b. ibb_reduceOrder b r q) B)" for l r q
    by (rule on_book_ok [OF assms(1)]) (intro step reduceOrder_ok)
  have delete: "builder_ok (Suc n) (on_book l (\<lambda>b. ibb_deleteOrder b r) B)" for l r
    by (rule on_book_ok [OF assms(1)]) (intro step deleteOrder_ok)
  have same: "builder_ok (Suc n) B" using assms(1) step by (simp add: builder_ok_def)
  show ?thesis
  proof (cases m)
    case (StockDirectory x)
    then show ?thesis
      using assms(1) new_SymbolBook_ok step
      by (auto simp: ibb_handleStockDirectory_def builder_ok_def Let_def split: option.splits)
  next
    case (OrderReplace x)
    show ?thesis
      unfolding OrderReplace ibb_apply.simps ibb_handleOrderReplace_def
      by (rule on_book_ok [OF assms(1)])
        (use assms(2) OrderReplace in \<open>auto simp: ref_unused_def deleteOrder_orders intro: ok step deleteOrder_ok split: option.splits\<close>)
  qed (use assms(2) add reduce delete same in \<open>simp_all add: ibb_handleSystemEvent_def ibb_reset_def
      ibb_handleOrderExecuted_def ibb_handleOrderCancel_def ibb_handleOrderDelete_def builder_ok_def\<close>)
qed

lemma ibb_run_ok:
  assumes "builder_ok n B" "session_fresh B ms" "n + length ms < 2 ^ 32"
  shows "builder_ok (n + length ms) (ibb_run B ms)"
  using assms
proof (induction ms arbitrary: n B)
  case (Cons m ms)
  then have "builder_ok (Suc n) (ibb_apply B m)" by (intro ibb_apply_ok) simp_all
  then show ?case using Cons.IH [of "Suc n" "ibb_apply B m"] Cons.prems by (simp add: ibb_run_def)
qed (simp add: ibb_run_def)

lemma session_book_ok:
  assumes "session_fresh Map.empty ms" "length ms < 2 ^ 32" "ibb_run Map.empty ms locate = Some b"
  shows "sbook_ok (length ms) b"
  using ibb_run_ok [of 0 Map.empty ms] assms by (simp add: builder_ok_def)

section \<open>Snapshots\<close>

definition snap_levels :: "Side \<Rightarrow> BookSnapshot \<Rightarrow> PriceLevel list" where
  "snap_levels side s = (case side of Buy \<Rightarrow> snap_bids s | Sell \<Rightarrow> snap_asks s)"

text \<open>The levels of a side, best first.\<close>

definition best_first :: "Side \<Rightarrow> SymbolBook \<Rightarrow> (Price \<times> Quantity) list" where
  "best_first side b = (case side of Buy \<Rightarrow> rev (sb_bidLevels b) | Sell \<Rightarrow> sb_askLevels b)"

definition strictly_ahead :: "Side \<Rightarrow> Price \<Rightarrow> Price \<Rightarrow> bool" where
  "strictly_ahead side p q \<longleftrightarrow> ahead side p q \<and> p \<noteq> q"

lemma best_first_sorted:
  assumes "omap_ok (sb_levels side b)"
  shows "sorted_wrt (strictly_ahead side) (map fst (best_first side b))"
proof (cases side)
  case Buy
  have "sorted_wrt (\<lambda>p q. q < p) (map fst (rev (sb_bidLevels b)))"
    using assms Buy by (simp add: rev_map [symmetric] sorted_wrt_rev)
  then show ?thesis unfolding Buy best_first_def
    by (auto elim!: sorted_wrt_mono_rel [rotated] simp: strictly_ahead_def)
next
  case Sell
  with assms show ?thesis
    by (auto elim!: sorted_wrt_mono_rel [rotated] simp: best_first_def strictly_ahead_def)
qed

lemma set_best_first: "set (best_first side b) = set (sb_levels side b)"
  by (cases side) (simp_all add: best_first_def)

lemma ibb_snapshot_levels:
  assumes "ibb_snapshot B locate depth = (Some s, B')" "B locate = Some b"
  shows "snap_levels side s = map (\<lambda>(p, q). \<lparr>level_price = p, level_quantity = q\<rparr>) (take depth (best_first side b))"
  using assms by (cases side) (auto simp: ibb_snapshot_def snap_levels_def best_first_def)

lemma level_shown:
  assumes "sbook_ok n b" "(p, q) \<in> set (best_first side b)"
  shows "unat q = resting_shares b side p"
proof -
  have "map_of (sb_levels side b) p = Some q"
    using assms by (auto simp: set_best_first sbook_ok_def intro: map_of_is_SomeI omap_ok_distinct)
  then have "level_at b side p = q" by (simp add: omap_at_def)
  with assms(1) show ?thesis by (metis sbook_ok_def)
qed

lemma shares_shown:
  assumes "sbook_ok n b" "0 < resting_shares b side p"
  shows "p \<in> fst ` set (best_first side b)"
proof -
  have "map_of (sb_levels side b) p \<noteq> None"
    using assms by (auto simp: sbook_ok_def omap_at_def split: option.splits) (metis less_irrefl option.simps(4) unat_0)
  then show ?thesis by (force simp: set_best_first dest: map_of_SomeD)
qed

section \<open>Properties\<close>

text \<open>
  The aggregated levels of a feed book are exact: after any session of fewer than 2^32
  messages in which no add and no replace reuses the reference of an order still resting, the level kept for
  a price on a side is the total of the shares resting there (a price without a level has none),
  for every registered stock, whatever executions, cancels, deletes and replaces arrived,
  for known and unknown references alike.
\<close>

theorem itch_levels_exact:
  assumes "session_fresh Map.empty ms" "length ms < 2 ^ 32" "ibb_run Map.empty ms locate = Some b"
  shows "unat (omap_at 0 price (sb_levels side b)) = resting_shares b side price"
  using session_book_ok [OF assms] by (simp add: sbook_ok_def)

text \<open>
  C34. After fewer than \<open>2 ^ 32\<close> messages that add no reference number still resting for its stock (as
  \<open>docs/itch-notes.md\<close> promises), a feed snapshot is ordered and complete: bids from the highest price and asks from the
  lowest, each price once, at most \<open>depth\<close> levels a side, each with the exact total of the shares
  resting there; and a price at which shares rest is missing only when \<open>depth\<close> better prices are shown.
\<close>

theorem itch_snapshot_exact:
  assumes "session_fresh Map.empty ms" "length ms < 2 ^ 32" "ibb_run Map.empty ms locate = Some b"
    and "ibb_snapshot (ibb_run Map.empty ms) locate depth = (Some s, B')"
  shows "sorted_wrt (strictly_ahead side) (map level_price (snap_levels side s)) \<and>
    length (snap_levels side s) \<le> depth \<and>
    (\<forall>l\<in>set (snap_levels side s). unat (level_quantity l) = resting_shares b side (level_price l)) \<and>
    (0 < resting_shares b side p \<longrightarrow> p \<in> level_price ` set (snap_levels side s) \<or>
       length (snap_levels side s) = depth \<and> (\<forall>l\<in>set (snap_levels side s). strictly_ahead side (level_price l) p))"
proof -
  have ok: "sbook_ok (length ms) b" using session_book_ok [OF assms(1-3)] .
  let ?L = "best_first side b"
  have snap: "snap_levels side s = map (\<lambda>(p, q). \<lparr>level_price = p, level_quantity = q\<rparr>) (take depth ?L)"
    using ibb_snapshot_levels [OF assms(4,3)] .
  have prices: "map level_price (snap_levels side s) = map fst (take depth ?L)"
    by (simp add: snap case_prod_beta')
  have sorted: "sorted_wrt (strictly_ahead side) (map fst ?L)"
    using ok by (intro best_first_sorted) (simp add: sbook_ok_def)
  have split: "map fst ?L = map fst (take depth ?L) @ map fst (drop depth ?L)"
    by (simp flip: map_append)
  have "sorted_wrt (strictly_ahead side) (map level_price (snap_levels side s))"
    using sorted unfolding prices split by (simp add: sorted_wrt_append)
  moreover have "\<forall>l\<in>set (snap_levels side s). unat (level_quantity l) = resting_shares b side (level_price l)"
    using level_shown [OF ok] by (auto simp: snap dest: in_set_takeD)
  moreover have "p \<in> level_price ` set (snap_levels side s) \<or>
       length (snap_levels side s) = depth \<and> (\<forall>l\<in>set (snap_levels side s). strictly_ahead side (level_price l) p)"
    if "0 < resting_shares b side p"
  proof (cases "p \<in> fst ` set (take depth ?L)")
    case True
    then have "p \<in> set (map level_price (snap_levels side s))" unfolding prices by simp
    then show ?thesis by simp
  next
    case False
    with shares_shown [OF ok that] have "p \<in> set (map fst (drop depth ?L))"
      by (metis append_take_drop_id image_Un set_append UnE image_set)
    moreover from this have "depth \<le> length ?L" by (cases "depth \<le> length ?L") simp_all
    ultimately show ?thesis
      using sorted unfolding split by (fastforce simp: sorted_wrt_append snap)
  qed
  ultimately show ?thesis by (simp add: snap)
qed

section \<open>A concrete session\<close>

definition feed_add :: "OrderRefNumber \<Rightarrow> char \<Rightarrow> u32 \<Rightarrow> u32 \<Rightarrow> ItchMessage" where
  "feed_add ref side shares price = AddOrder
     \<lparr>ao_stockLocate = 1, ao_trackingNumber = 0, ao_timestamp = 0, ao_orderReferenceNumber = ref,
      ao_buySellIndicator = side, ao_shares = shares, ao_stock = ''ABC     '', ao_price = price\<rparr>"

definition feed_directory :: ItchMessage where
  "feed_directory = StockDirectory
     \<lparr>sd_stockLocate = 1, sd_trackingNumber = 0, sd_timestamp = 0, sd_stock = ''ABC     '',
      sd_marketCategory = CHR ''Q'', sd_financialStatus = CHR ''N'', sd_roundLotSize = 100,
      sd_roundLotsOnly = CHR ''N'', sd_issueClassification = CHR ''C'', sd_issueSubType = ''Z '',
      sd_authenticity = CHR ''P'', sd_shortSaleThreshold = CHR ''N'', sd_ipoFlag = CHR ''N'',
      sd_luldRefPriceTier = CHR ''1'', sd_etpFlag = CHR ''N'', sd_etpLeverageFactor = 0,
      sd_inverseIndicator = CHR ''N''\<rparr>"

definition feed_execute :: "OrderRefNumber \<Rightarrow> u32 \<Rightarrow> ItchMessage" where
  "feed_execute ref shares = OrderExecuted
     \<lparr>oe_stockLocate = 1, oe_trackingNumber = 0, oe_timestamp = 0, oe_orderReferenceNumber = ref,
      oe_executedShares = shares, oe_matchNumber = 0\<rparr>"

definition feed_demo :: "ItchMessage list" where
  "feed_demo = [feed_directory, feed_add 10 CHR ''B'' 100 50, feed_add 11 CHR ''B'' 30 50,
     feed_add 12 CHR ''B'' 5 49, feed_execute 10 40]"

lemma feed_demo_fresh: "session_fresh Map.empty feed_demo"
  by code_simp

lemma feed_demo_book:
  obtains b where "ibb_run Map.empty feed_demo 1 = Some b" "sb_bidLevels b = [(49, 5), (50, 90)]" "sb_askLevels b = []"
    "resting_shares b Buy 50 = 90"
proof -
  have "map_option (\<lambda>b. (sb_bidLevels b, sb_askLevels b, resting_shares b Buy 50)) (ibb_run Map.empty feed_demo 1)
      = Some ([(49, 5), (50, 90)], [], 90)"
    by code_simp
  then show ?thesis using that by auto
qed

theorem itch_levels_exact_witness:
  "\<exists>b. ibb_run Map.empty feed_demo 1 = Some b \<and> session_fresh Map.empty feed_demo \<and>
     unat (omap_at 0 50 (sb_levels Buy b)) = 90"
proof -
  obtain b where b: "ibb_run Map.empty feed_demo 1 = Some b" "resting_shares b Buy 50 = 90" by (rule feed_demo_book)
  with itch_levels_exact [OF feed_demo_fresh _ b(1), of 50 Buy] feed_demo_fresh show ?thesis
    by (simp add: feed_demo_def)
qed

theorem itch_snapshot_exact_witness:
  "\<exists>b s B'. ibb_run Map.empty feed_demo 1 = Some b \<and> ibb_snapshot (ibb_run Map.empty feed_demo) 1 1 = (Some s, B') \<and>
     snap_bids s = [\<lparr>level_price = 50, level_quantity = 90\<rparr>] \<and>
     (\<forall>l\<in>set (snap_levels Buy s). unat (level_quantity l) = resting_shares b Buy (level_price l))"
proof -
  obtain b where b: "ibb_run Map.empty feed_demo 1 = Some b" "sb_bidLevels b = [(49, 5), (50, 90)]" by (rule feed_demo_book)
  then obtain s B' where s: "ibb_snapshot (ibb_run Map.empty feed_demo) 1 1 = (Some s, B')"
    "snap_bids s = [\<lparr>level_price = 50, level_quantity = 90\<rparr>]"
    by (simp add: ibb_snapshot_def)
  have "length feed_demo < 2 ^ 32" by (simp add: feed_demo_def)
  from itch_snapshot_exact [OF feed_demo_fresh this b(1) s(1), of Buy] b(1) s show ?thesis by blast
qed

text \<open>
  Without fresh references (\<open>session_fresh\<close>) the levels drift: an add that repeats the reference of a
  resting order replaces the order but leaves its shares in the level.
\<close>

lemma reused_reference_orphans_shares:
  "map_option (\<lambda>b. (level_at b Buy 50, resting_shares b Buy 50))
     (ibb_run Map.empty [feed_directory, feed_add 10 CHR ''B'' 100 50, feed_add 10 CHR ''B'' 30 50] 1)
   = Some (130, 30)"
  by code_simp

end
