(* ===== verification/Itch_Replay.thy ===== *)
theory Itch_Replay
  imports Itch_Parser Itch_Book_Builder Instrument_Registry
begin

text \<open>
  Replaying a feed through the exchange: \<open>ItchEngineAdapter\<close> (\<open>src/replay/itch_adapter.cpp\<close>),
  \<open>ParityChecker\<close> (\<open>src/replay/parity_checker.cpp\<close>) and \<open>EventReplayer\<close>
  (\<open>src/replay/event_replayer.cpp\<close>).  The references these classes hold are fields of their
  state here: the adapter carries the registry, the checker the builder and the adapter.
  The order in which an \<open>unordered_set\<close> is walked is a parameter.
\<close>

section \<open>The engine adapter\<close>

record ItchEngineAdapter =
  ia_registry :: InstrumentRegistry
  ia_symbols :: "StockLocate \<rightharpoonup> string"
  ia_engineIdForRef :: "OrderRefNumber \<rightharpoonup> OrderId"
  ia_nextSyntheticId :: OrderId
  ia_tradeVolume :: u64

definition new_ItchEngineAdapter :: "InstrumentRegistry \<Rightarrow> ItchEngineAdapter" where
  "new_ItchEngineAdapter R = \<lparr>ia_registry = R, ia_symbols = Map.empty, ia_engineIdForRef = Map.empty,
     ia_nextSyntheticId = 1000000000, ia_tradeVolume = 0\<rparr>"

definition ia_engineIdFor :: "ItchEngineAdapter \<Rightarrow> OrderRefNumber \<Rightarrow> OrderId" where
  "ia_engineIdFor A ref = (case ia_engineIdForRef A ref of None \<Rightarrow> ref | Some i \<Rightarrow> i)"

definition ia_reset :: "ItchEngineAdapter \<Rightarrow> ItchEngineAdapter" where
  "ia_reset A = A\<lparr>ia_registry := reg_reset (ia_registry A), ia_symbols := Map.empty, ia_engineIdForRef := Map.empty,
     ia_nextSyntheticId := 1000000000, ia_tradeVolume := 0\<rparr>"

type_synonym applied = "(bool \<times> ItchEngineAdapter) option"

definition ia_handleSystemEvent :: "SystemEventMessage \<Rightarrow> ItchEngineAdapter \<Rightarrow> applied" where
  "ia_handleSystemEvent m A = Some (True, if se_eventCode m = CHR ''C'' then ia_reset A else A)"

definition ia_handleStockDirectory :: "StockDirectoryMessage \<Rightarrow> ItchEngineAdapter \<Rightarrow> applied" where
  "ia_handleStockDirectory m A =
     (let symbol = trimTrailingSpaces (sd_stock m) in
      Some (True, A\<lparr>ia_registry := reg_createInstrument (ia_registry A) symbol,
                    ia_symbols := (ia_symbols A)(sd_stockLocate m \<mapsto> symbol)\<rparr>))"

definition ia_handleAddOrder :: "AddOrderMessage \<Rightarrow> ItchEngineAdapter \<Rightarrow> applied" where
  "ia_handleAddOrder m A =
     (case ia_symbols A (ao_stockLocate m) of
        None \<Rightarrow> Some (False, A)
      | Some symbol \<Rightarrow> do {
          let side = (if ao_buySellIndicator m = CHR ''B'' then Buy else Sell);
          let i = ao_orderReferenceNumber m;
          let A1 = A\<lparr>ia_engineIdForRef := (ia_engineIdForRef A)(ao_orderReferenceNumber m \<mapsto> i)\<rparr>;
          (r, R) \<leftarrow> reg_submitOrder (ia_registry A1) symbol (limit_order i side (ucast (ao_price m)) (ucast (ao_shares m)));
          Some (accepted r, A1\<lparr>ia_registry := R\<rparr>) })"

definition ia_applyExecuted :: "StockLocate \<Rightarrow> OrderRefNumber \<Rightarrow> u32 \<Rightarrow> u32 option \<Rightarrow> ItchEngineAdapter \<Rightarrow> applied" where
  "ia_applyExecuted locate ref executedShares executionPrice A =
     (case ia_symbols A locate of
        None \<Rightarrow> Some (False, A)
      | Some symbol \<Rightarrow>
          (case reg_findOrder (ia_registry A) symbol (ia_engineIdFor A ref) of
             None \<Rightarrow> Some (False, A)
           | Some existing \<Rightarrow> do {
               let quantity = min (ucast executedShares) (order_quantity existing);
               let price = (case executionPrice of Some p \<Rightarrow> ucast p | None \<Rightarrow> order_price existing);
               let oppositeSide = (if order_side existing = Buy then Sell else Buy);
               let synthetic = \<lparr>order_id = ia_nextSyntheticId A, order_side = oppositeSide, order_price = price,
                 order_quantity = quantity, order_accountId = 0, order_type = Limit, order_tif = IOC, order_status = New\<rparr>;
               let A1 = A\<lparr>ia_nextSyntheticId := ia_nextSyntheticId A + 1\<rparr>;
               (trades, R) \<leftarrow> reg_matchOrder (ia_registry A1) symbol synthetic;
               Some (trades \<noteq> [], A1\<lparr>ia_registry := R,
                 ia_tradeVolume := foldl (\<lambda>v t. v + trade_quantity t) (ia_tradeVolume A1) trades\<rparr>) }))"

definition ia_handleOrderCancel :: "OrderCancelMessage \<Rightarrow> ItchEngineAdapter \<Rightarrow> applied" where
  "ia_handleOrderCancel m A =
     (case ia_symbols A (ox_stockLocate m) of
        None \<Rightarrow> Some (False, A)
      | Some symbol \<Rightarrow>
          let i = ia_engineIdFor A (ox_orderReferenceNumber m) in
          (case reg_findOrder (ia_registry A) symbol i of
             None \<Rightarrow> Some (False, A)
           | Some existing \<Rightarrow> do {
               let cancelled = min (ucast (ox_cancelledShares m)) (order_quantity existing);
               let remaining = order_quantity existing - cancelled;
               (r, R) \<leftarrow> (if remaining = 0 then reg_cancelOrder (ia_registry A) symbol i
                  else reg_cancelReplace (ia_registry A) symbol i (existing\<lparr>order_id := i, order_quantity := remaining\<rparr>));
               Some (accepted r, A\<lparr>ia_registry := R\<rparr>) }))"

definition ia_handleOrderDelete :: "OrderDeleteMessage \<Rightarrow> ItchEngineAdapter \<Rightarrow> applied" where
  "ia_handleOrderDelete m A =
     (case ia_symbols A (od_stockLocate m) of
        None \<Rightarrow> Some (False, A)
      | Some symbol \<Rightarrow> do {
          (r, R) \<leftarrow> reg_cancelOrder (ia_registry A) symbol (ia_engineIdFor A (od_orderReferenceNumber m));
          Some (accepted r, A\<lparr>ia_registry := R\<rparr>) })"

definition ia_handleOrderReplace :: "OrderReplaceMessage \<Rightarrow> ItchEngineAdapter \<Rightarrow> applied" where
  "ia_handleOrderReplace m A =
     (case ia_symbols A (ou_stockLocate m) of
        None \<Rightarrow> Some (False, A)
      | Some symbol \<Rightarrow>
          let i = ia_engineIdFor A (ou_originalOrderReferenceNumber m) in
          (case reg_findOrder (ia_registry A) symbol i of
             None \<Rightarrow> Some (False, A)
           | Some existing \<Rightarrow> do {
               let replacement = existing\<lparr>order_id := i, order_price := ucast (ou_price m), order_quantity := ucast (ou_shares m)\<rparr>;
               (r, R) \<leftarrow> reg_cancelReplace (ia_registry A) symbol i replacement;
               let A1 = A\<lparr>ia_registry := R\<rparr>;
               Some (accepted r, if accepted r
                 then A1\<lparr>ia_engineIdForRef := (ia_engineIdForRef A1)(ou_newOrderReferenceNumber m \<mapsto> i)\<rparr>
                 else A1) }))"

fun ia_apply :: "ItchEngineAdapter \<Rightarrow> ItchMessage \<Rightarrow> applied" where
  "ia_apply A (SystemEvent m) = ia_handleSystemEvent m A"
| "ia_apply A (StockDirectory m) = ia_handleStockDirectory m A"
| "ia_apply A (AddOrder m) = ia_handleAddOrder m A"
| "ia_apply A (AddOrderMpid m) = ia_handleAddOrder (am_base m) A"
| "ia_apply A (OrderExecuted m) =
     ia_applyExecuted (oe_stockLocate m) (oe_orderReferenceNumber m) (oe_executedShares m) None A"
| "ia_apply A (OrderExecutedWithPrice m) =
     ia_applyExecuted (oe_stockLocate (oc_base m)) (oe_orderReferenceNumber (oc_base m))
       (oe_executedShares (oc_base m)) (Some (oc_executionPrice m)) A"
| "ia_apply A (OrderCancel m) = ia_handleOrderCancel m A"
| "ia_apply A (OrderDelete m) = ia_handleOrderDelete m A"
| "ia_apply A (OrderReplace m) = ia_handleOrderReplace m A"
| "ia_apply A (TimestampSeconds m) = Some (True, A)"

definition ia_symbolForLocate :: "ItchEngineAdapter \<Rightarrow> StockLocate \<Rightarrow> string option" where
  "ia_symbolForLocate A locate = ia_symbols A locate"

definition ia_snapshot :: "ItchEngineAdapter \<Rightarrow> StockLocate \<Rightarrow> nat \<Rightarrow> (BookSnapshot \<times> ItchEngineAdapter) option" where
  "ia_snapshot A locate depth =
     (case ia_symbols A locate of
        None \<Rightarrow> Some (\<lparr>snap_symbol = '''', snap_sequence = 0, snap_bids = [], snap_asks = []\<rparr>, A)
      | Some symbol \<Rightarrow> do {
          (s, R) \<leftarrow> reg_snapshot (ia_registry A) symbol depth;
          Some (s, A\<lparr>ia_registry := R\<rparr>) })"

section \<open>The parity checker\<close>

record ParityMismatch =
  pm_messageIndex :: nat
  pm_feedSnapshot :: BookSnapshot
  pm_engineSnapshot :: BookSnapshot

record ParityReport =
  pr_messagesProcessed :: nat
  pr_checkpointsCompared :: nat
  pr_mismatchCount :: nat
  pr_firstMismatches :: "ParityMismatch list"
  pr_feedTradeVolume :: u64
  pr_engineTradeVolume :: u64

definition new_ParityReport :: ParityReport where
  "new_ParityReport = \<lparr>pr_messagesProcessed = 0, pr_checkpointsCompared = 0, pr_mismatchCount = 0,
     pr_firstMismatches = [], pr_feedTradeVolume = 0, pr_engineTradeVolume = 0\<rparr>"

record ParityChecker =
  pc_builder :: ItchBookBuilder
  pc_adapter :: ItchEngineAdapter
  pc_checkpointInterval :: nat
  pc_knownLocates :: "StockLocate list"
  pc_report :: ParityReport

definition new_ParityChecker :: "ItchEngineAdapter \<Rightarrow> nat \<Rightarrow> ParityChecker" where
  "new_ParityChecker A interval = \<lparr>pc_builder = Map.empty, pc_adapter = A, pc_checkpointInterval = interval,
     pc_knownLocates = [], pc_report = new_ParityReport\<rparr>"

definition kMaxStoredMismatches :: nat where "kMaxStoredMismatches = 5"

fun extractLocate :: "ItchMessage \<Rightarrow> StockLocate option" where
  "extractLocate (TimestampSeconds m) = None"
| "extractLocate (AddOrderMpid m) = Some (ao_stockLocate (am_base m))"
| "extractLocate (OrderExecutedWithPrice m) = Some (oe_stockLocate (oc_base m))"
| "extractLocate (SystemEvent m) = Some (se_stockLocate m)"
| "extractLocate (StockDirectory m) = Some (sd_stockLocate m)"
| "extractLocate (AddOrder m) = Some (ao_stockLocate m)"
| "extractLocate (OrderExecuted m) = Some (oe_stockLocate m)"
| "extractLocate (OrderCancel m) = Some (ox_stockLocate m)"
| "extractLocate (OrderDelete m) = Some (od_stockLocate m)"
| "extractLocate (OrderReplace m) = Some (ou_stockLocate m)"

fun executedSharesOf :: "ItchMessage \<Rightarrow> u32" where
  "executedSharesOf (OrderExecuted m) = oe_executedShares m"
| "executedSharesOf (OrderExecutedWithPrice m) = oe_executedShares (oc_base m)"
| "executedSharesOf _ = 0"

text \<open>Top of book on one side: both empty, or both with the same first level.\<close>

definition tops_match :: "PriceLevel list \<Rightarrow> PriceLevel list \<Rightarrow> bool" where
  "tops_match feed engine \<longleftrightarrow> ((feed = []) = (engine = [])) \<and> (feed = [] \<or> hd feed = hd engine)"

definition pc_compareLocate :: "StockLocate \<Rightarrow> ParityChecker \<Rightarrow> ParityChecker option" where
  "pc_compareLocate locate P =
     (case ibb_snapshot (pc_builder P) locate 1 of
        (None, B) \<Rightarrow> Some (P\<lparr>pc_builder := B\<rparr>)
      | (Some feedSnap, B) \<Rightarrow> do {
          (engineSnap, A) \<leftarrow> ia_snapshot (pc_adapter P) locate 1;
          let rep = pc_report P;
          let rep = rep\<lparr>pr_checkpointsCompared := pr_checkpointsCompared rep + 1\<rparr>;
          let bidMatch = tops_match (snap_bids feedSnap) (snap_bids engineSnap);
          let askMatch = tops_match (snap_asks feedSnap) (snap_asks engineSnap);
          let rep = (if bidMatch \<and> askMatch then rep
            else (let rep = rep\<lparr>pr_mismatchCount := pr_mismatchCount rep + 1\<rparr> in
              if length (pr_firstMismatches rep) < kMaxStoredMismatches
              then rep\<lparr>pr_firstMismatches := pr_firstMismatches rep @
                [\<lparr>pm_messageIndex = pr_messagesProcessed rep, pm_feedSnapshot = feedSnap, pm_engineSnapshot = engineSnap\<rparr>]\<rparr>
              else rep));
          Some (P\<lparr>pc_builder := B, pc_adapter := A, pc_report := rep\<rparr>) })"

fun pc_compareLocates :: "StockLocate list \<Rightarrow> ParityChecker \<Rightarrow> ParityChecker option" where
  "pc_compareLocates [] P = Some P"
| "pc_compareLocates (l # ls) P = do { P1 \<leftarrow> pc_compareLocate l P; pc_compareLocates ls P1 }"

text \<open>\<open>walk\<close> is the order in which the container of known locates is iterated.\<close>

definition pc_compareAllLocates :: "(StockLocate list \<Rightarrow> StockLocate list) \<Rightarrow> ParityChecker \<Rightarrow> ParityChecker option" where
  "pc_compareAllLocates walk P = pc_compareLocates (walk (pc_knownLocates P)) P"

text \<open>A checkpoint interval of zero divides by zero.\<close>

definition pc_process :: "(StockLocate list \<Rightarrow> StockLocate list) \<Rightarrow> ParityChecker \<Rightarrow> ItchMessage \<Rightarrow> ParityChecker option" where
  "pc_process walk P m = do {
     let known = (case extractLocate m of
        None \<Rightarrow> pc_knownLocates P
      | Some l \<Rightarrow> if l \<in> set (pc_knownLocates P) then pc_knownLocates P else pc_knownLocates P @ [l]);
     let B = ibb_apply (pc_builder P) m;
     (ok, A) \<leftarrow> ia_apply (pc_adapter P) m;
     let rep = pc_report P;
     let rep = rep\<lparr>pr_feedTradeVolume := pr_feedTradeVolume rep + ucast (executedSharesOf m),
       pr_engineTradeVolume := ia_tradeVolume A, pr_messagesProcessed := pr_messagesProcessed rep + 1\<rparr>;
     let P1 = P\<lparr>pc_knownLocates := known, pc_builder := B, pc_adapter := A, pc_report := rep\<rparr>;
     if pc_checkpointInterval P1 = 0 then None
     else if pr_messagesProcessed rep mod pc_checkpointInterval P1 = 0 then pc_compareAllLocates walk P1
     else Some P1 }"

section \<open>The replayer\<close>

record ReplayResult =
  rr_parity :: ParityReport
  rr_engineEventLog :: "Event list"
  rr_messagesDecoded :: nat
  rr_messagesSkipped :: nat

fun replay_loop ::
  "(StockLocate list \<Rightarrow> StockLocate list) \<Rightarrow> ItchParseResult list \<Rightarrow> ParityChecker \<Rightarrow> nat \<Rightarrow> nat \<Rightarrow>
     (ParityChecker \<times> nat \<times> nat) option" where
  "replay_loop walk [] P decoded skipped = Some (P, decoded, skipped)"
| "replay_loop walk (parsed # rest) P decoded skipped =
     (if \<not> pr_ok parsed then replay_loop walk rest P decoded (skipped + 1)
      else do {
        P1 \<leftarrow> pc_process walk P (pr_message parsed);
        replay_loop walk rest P1 (decoded + 1) skipped })"

text \<open>The registry belongs to the caller: the replay returns it as it left it.\<close>

definition replayMessages ::
  "(StockLocate list \<Rightarrow> StockLocate list) \<Rightarrow> nat \<Rightarrow> InstrumentRegistry \<Rightarrow> ItchParseResult list \<Rightarrow>
     (ReplayResult \<times> InstrumentRegistry) option" where
  "replayMessages walk interval R results = do {
     (P, decoded, skipped) \<leftarrow> replay_loop walk results (new_ParityChecker (new_ItchEngineAdapter R) interval) 0 0;
     let R' = ia_registry (pc_adapter P);
     Some (\<lparr>rr_parity = pc_report P, rr_engineEventLog = reg_eventLog R', rr_messagesDecoded = decoded,
            rr_messagesSkipped = skipped\<rparr>, R') }"

text \<open>\<open>bytes\<close> is what the file holds.\<close>

definition replayFile ::
  "(StockLocate list \<Rightarrow> StockLocate list) \<Rightarrow> nat \<Rightarrow> InstrumentRegistry \<Rightarrow> u8 list \<Rightarrow>
     (ReplayResult \<times> InstrumentRegistry) option" where
  "replayFile walk interval R bytes = do {
     (results, parser) \<leftarrow> parser_feed new_ItchParser bytes;
     (result, R') \<leftarrow> replayMessages walk interval R results;
     Some (result\<lparr>rr_messagesSkipped := ip_messagesSkipped parser\<rparr>, R') }"

definition eventLogsEqual :: "Event list \<Rightarrow> Event list \<Rightarrow> bool" where
  "eventLogsEqual a b \<longleftrightarrow> a = b"

section \<open>Corners of the adapter and the checker\<close>

text \<open>
  The manager still knows an order after it was cancelled.  An execution message for such an order is
  therefore not ignored: the synthetic order it becomes trades with another order at that price.
\<close>

lemma execution_of_deleted_order_trades:
  "map_option (\<lambda>(ok, A). (ok, ia_tradeVolume A)) (do {
     (_, A) \<leftarrow> ia_apply (new_ItchEngineAdapter (new_InstrumentRegistry Reference)) feed_directory;
     (_, A) \<leftarrow> ia_apply A (feed_add 10 CHR ''B'' 100 50);
     (_, A) \<leftarrow> ia_apply A (feed_add 11 CHR ''B'' 30 50);
     (_, A) \<leftarrow> ia_apply A (OrderDelete \<lparr>od_stockLocate = 1, od_trackingNumber = 0, od_timestamp = 0, od_orderReferenceNumber = 10\<rparr>);
     ia_apply A (feed_execute 10 20) }) = Some (True, 20)"
  by code_simp

text \<open>With a checkpoint interval of zero the first message divides by zero.\<close>

lemma replay_interval_zero:
  "replayFile id 0 (new_InstrumentRegistry Reference) [0, 5, 84, 0, 0, 1, 0] = None"
  by code_simp

end
