(* ===== verification/Log_Volume.thy ===== *)
theory Log_Volume
  imports Itch_Replay Event_Publisher
begin

text \<open>
  How many shares the event log of a replay can report, and that the execution reports made
  from it (\<open>EventPublisher\<close>) never divide by zero: what \<open>BacktestRunner\<close> relies on when it shows a
  strategy the reports of a whole file.
\<close>

section \<open>The volume of an event log\<close>

text \<open>
  The publisher divides by the quantity an order has traded so far, a 64-bit sum.  It cannot come to
  zero while the shares a log reports do not reach \<open>2 ^ 64\<close>: a message of the feed
  executes fewer than \<open>2 ^ 32\<close> shares, and a trade has a positive quantity.
\<close>

primrec traded :: "EventPayload \<Rightarrow> nat" where
  "traded (OrderSubmitted symbol i side p q) = 0"
| "traded (OrderCancelled symbol i) = 0"
| "traded (OrderReplaced symbol i p q) = 0"
| "traded (TradeExecuted symbol i r p q) = unat q"
| "traded (OrderRejected symbol i why) = 0"

primrec empty_trade :: "EventPayload \<Rightarrow> bool" where
  "empty_trade (OrderSubmitted symbol i side p q) = False"
| "empty_trade (OrderCancelled symbol i) = False"
| "empty_trade (OrderReplaced symbol i p q) = False"
| "empty_trade (TradeExecuted symbol i r p q) = (q = 0)"
| "empty_trade (OrderRejected symbol i why) = False"

definition log_volume :: "Event list \<Rightarrow> nat" where
  "log_volume log = (\<Sum>payload\<leftarrow>map event_payload log. traded payload)"

text \<open>After \<open>n\<close> messages: the log has no empty trade and fewer than \<open>n * 2 ^ 32\<close> shares.\<close>

definition log_after :: "nat \<Rightarrow> InstrumentRegistry \<Rightarrow> bool" where
  "log_after n R \<longleftrightarrow> reg_inv R \<and> (\<forall>payload\<in>set (map event_payload (reg_eventLog R)). \<not> empty_trade payload) \<and>
     log_volume (reg_eventLog R) \<le> n * (2 ^ 32 - 1)"

lemma log_after_mono: "log_after n R \<Longrightarrow> n \<le> k \<Longrightarrow> log_after k R"
  by (auto simp: log_after_def intro: order_trans [OF _ mult_le_mono1])

lemma log_after_grow:
  assumes "log_after n R" "reg_inv R'" "map event_payload (reg_eventLog R') = map event_payload (reg_eventLog R) @ new"
    "\<forall>payload\<in>set new. \<not> empty_trade payload" "(\<Sum>payload\<leftarrow>new. traded payload) \<le> k * (2 ^ 32 - 1)"
  shows "log_after (n + k) R'"
  using assms unfolding log_after_def log_volume_def assms(3) by (auto simp: algebra_simps)

lemma log_after_match:
  assumes "log_after n R" "reg_matchOrder R symbol ord = Some (ts, R')" "unat (order_quantity ord) < 2 ^ 32"
  shows "log_after (Suc n) R'"
proof -
  have inv: "reg_inv R" using assms(1) by (simp add: log_after_def)
  have inv': "reg_inv R'" using reg_match_refines [OF inv, of symbol ord] assms(2) by auto
  obtain first where first: "map event_payload (reg_eventLog R') =
      map event_payload (reg_eventLog R) @ first # map (trade_event symbol) ts" "traded first = 0" "\<not> empty_trade first"
    using assms(2) by (auto simp: reg_matchOrder_def Let_def bind_eq_Some_conv split: option.splits if_splits)
  have "(\<Sum>t\<leftarrow>ts. unat (trade_quantity t)) \<le> unat (order_quantity ord)"
  proof (rule reg_match_book [OF inv assms(2)])
    fix left assume "spec_submit (reg_book R symbol) ord = (ts, reg_book R' symbol, left)"
    from spec_submit_parts [OF this refl] show ?thesis using stp_sweep_conserves by (metis le_add1)
  qed simp
  then have "(\<Sum>payload\<leftarrow>first # map (trade_event symbol) ts. traded payload) \<le> 1 * (2 ^ 32 - 1)"
    using assms(3) first(2) by (simp add: trade_event_def o_def)
  moreover have "\<forall>payload\<in>set (first # map (trade_event symbol) ts). \<not> empty_trade payload"
    using first(3) reg_trade [OF inv assms(2)] by (auto simp: trade_event_def)
  ultimately have "log_after (n + 1) R'" by (intro log_after_grow [OF assms(1) inv' first(1)])
  then show ?thesis by simp
qed

text \<open>No other call reports a trade.\<close>

lemma log_after_quiet:
  assumes "log_after n R" "reg_call R c = Some (r, R')" "\<And>symbol ord. c \<noteq> MatchOrder symbol ord"
  shows "log_after n R'"
proof -
  have inv: "reg_inv R" using assms(1) by (simp add: log_after_def)
  have inv': "reg_inv R'" using reg_call_refines [OF inv, of c] assms(2) by auto
  have "reg_eventLog R' = [] \<or> (\<exists>new. map event_payload (reg_eventLog R') = map event_payload (reg_eventLog R) @ new \<and>
      (\<forall>payload\<in>set new. \<not> empty_trade payload \<and> traded payload = 0))"
    using assms(2,3)
    by (cases c) (auto simp: reg_submitOrder_def reg_cancelOrder_def reg_cancelReplace_def reg_snapshot_def
        reg_createInstrument_def reg_clearEventLog_def reg_reset_def Let_def bind_eq_Some_conv split: option.splits if_splits)
  then show ?thesis
  proof
    assume "reg_eventLog R' = []"
    with inv' show ?thesis by (simp add: log_after_def log_volume_def)
  next
    assume "\<exists>new. map event_payload (reg_eventLog R') = map event_payload (reg_eventLog R) @ new \<and>
      (\<forall>payload\<in>set new. \<not> empty_trade payload \<and> traded payload = 0)"
    then obtain new where new: "map event_payload (reg_eventLog R') = map event_payload (reg_eventLog R) @ new"
      "\<forall>payload\<in>set new. \<not> empty_trade payload" "\<forall>payload\<in>set new. traded payload = 0" by blast
    have "(\<Sum>payload\<leftarrow>new. traded payload) = 0" using new(3) by (induction new) auto
    then show ?thesis using log_after_grow [OF assms(1) inv' new(1,2), of 0] by simp
  qed
qed

lemma log_after_ops:
  assumes "log_after n R"
  shows "reg_submitOrder R symbol ord = Some (a, R') \<Longrightarrow> log_after n R'"
    "reg_cancelOrder R symbol i = Some (a, R') \<Longrightarrow> log_after n R'"
    "reg_cancelReplace R symbol i ord = Some (a, R') \<Longrightarrow> log_after n R'"
    "reg_snapshot R symbol depth = Some (snap, R') \<Longrightarrow> log_after n R'"
    "log_after n (reg_createInstrument R symbol)" "log_after n (reg_reset R)"
  using log_after_quiet [OF assms, of "SubmitOrder symbol ord"] log_after_quiet [OF assms, of "CancelOrder symbol i"]
    log_after_quiet [OF assms, of "CancelReplace symbol i ord"] log_after_quiet [OF assms, of "Snapshot symbol depth"]
    log_after_quiet [OF assms, of "CreateInstrument symbol"] log_after_quiet [OF assms, of Reset]
  by auto

section \<open>The log of a replay\<close>

lemma log_after_executed:
  assumes "log_after n (ia_registry A)" "ia_applyExecuted l ref shares price A = Some (ok, A')"
  shows "log_after (Suc n) (ia_registry A')"
proof -
  have "unat (min (ucast shares) q) < 2 ^ 32" for q :: Quantity
  proof -
    have "unat (min (ucast shares) q) \<le> unat (ucast shares :: Quantity)" by (simp add: word_le_nat_alt [symmetric])
    also have "\<dots> < 2 ^ 32" by (rule ucast_shares)
    finally show ?thesis .
  qed
  then show ?thesis using assms log_after_mono [OF assms(1), of "Suc n"] log_after_match [OF assms(1)]
    by (auto simp: ia_applyExecuted_def Let_def bind_eq_Some_conv split: option.splits)
qed

lemma log_after_apply:
  assumes "log_after n (ia_registry A)" "ia_apply A m = Some (ok, A')"
  shows "log_after (Suc n) (ia_registry A')"
proof (cases m)
  case (OrderExecuted e)
  then show ?thesis using log_after_executed [OF assms(1)] assms(2) by simp
next
  case (OrderExecutedWithPrice e)
  then show ?thesis using log_after_executed [OF assms(1)] assms(2) by simp
qed (use assms log_after_mono [OF assms(1), of "Suc n"] log_after_ops [OF log_after_mono [OF assms(1), of "Suc n"]] in
  \<open>auto simp: ia_handleSystemEvent_def ia_handleStockDirectory_def ia_reset_def ia_handleAddOrder_def
     ia_handleOrderCancel_def ia_handleOrderDelete_def ia_handleOrderReplace_def Let_def bind_eq_Some_conv
     split: option.splits if_splits\<close>)

lemma log_after_compareLocates:
  assumes "log_after n (ia_registry (pc_adapter P))" "pc_compareLocates ls P = Some P'"
  shows "log_after n (ia_registry (pc_adapter P'))"
  using assms
proof (induction ls arbitrary: P)
  case (Cons l ls)
  obtain P1 where P1: "pc_compareLocate l P = Some P1" "pc_compareLocates ls P1 = Some P'"
    using Cons.prems(2) by (auto simp: bind_eq_Some_conv)
  from P1(1) have "log_after n (ia_registry (pc_adapter P1))"
    using Cons.prems(1) log_after_ops(4) [OF Cons.prems(1)]
    by (auto simp: pc_compareLocate_def ia_snapshot_def Let_def bind_eq_Some_conv split: prod.splits option.splits)
  with Cons.IH P1(2) show ?case by blast
qed simp

lemma log_after_process:
  assumes "log_after n (ia_registry (pc_adapter P))" "pc_process walk P m = Some P'"
  shows "log_after (Suc n) (ia_registry (pc_adapter P'))"
proof -
  obtain ok A where A: "ia_apply (pc_adapter P) m = Some (ok, A)" using assms(2) by (auto simp: pc_process_def bind_eq_Some_conv)
  then have "log_after (Suc n) (ia_registry A)" by (rule log_after_apply [OF assms(1)])
  with A assms(2) show ?thesis
    by (auto simp: pc_process_def pc_compareAllLocates_def Let_def split: if_splits intro: log_after_compareLocates [rotated])
qed

lemma log_after_loop:
  assumes "log_after n (ia_registry (pc_adapter P))" "replay_loop walk results P d k = Some (P', d', k')"
  shows "log_after (n + length results) (ia_registry (pc_adapter P'))"
  using assms
proof (induction results arbitrary: P d k n)
  case (Cons parsed results)
  show ?case
  proof (cases "pr_ok parsed")
    case True
    then obtain P1 where "pc_process walk P (pr_message parsed) = Some P1" "replay_loop walk results P1 (d + 1) k = Some (P', d', k')"
      using Cons.prems(2) by (auto simp: bind_eq_Some_conv)
    with Cons.IH log_after_process [OF Cons.prems(1)] show ?thesis by fastforce
  next
    case False
    with Cons.IH [OF Cons.prems(1)] Cons.prems(2) have "log_after (n + length results) (ia_registry (pc_adapter P'))" by simp
    then show ?thesis by (rule log_after_mono) simp
  qed
qed simp

lemma frames_short: "length (frames_results (fst (frames bs))) \<le> length bs"
proof (induction bs rule: frames.induct)
  case (1 b0 b1 rest)
  have one: "length (frame_result f) \<le> 1" for f by (cases f) auto
  let ?n = "unat (frame_length b0 b1)"
  show ?case
  proof (cases "?n = 0 \<or> ?n > kMaxMessageSize")
    case True
    with 1(1) [OF refl] show ?thesis by (simp add: Let_def)
  next
    case False
    show ?thesis
    proof (cases "length rest < ?n")
      case False': False
      from 1(2) [OF refl False False'] have "length (frames_results (fst (frames (drop ?n rest)))) \<le> length rest" by simp
      with False False' show ?thesis by (simp add: Let_def)
    qed (use False in \<open>simp add: Let_def\<close>)
  qed
qed simp_all

lemma replay_log:
  assumes "replayFile walk interval (new_InstrumentRegistry backend) bytes = Some (result, R)"
  shows "log_after (length bytes) R" "rr_engineEventLog result = reg_eventLog R"
proof -
  obtain results parser where p: "parser_feed new_ItchParser bytes = Some (results, parser)" "length results \<le> length bytes"
    using frames_short [of bytes] by (simp add: parser_feed_frames new_ItchParser_def split_beta Let_def)
  obtain P d k where loop: "replay_loop walk results (new_ParityChecker (new_ItchEngineAdapter (new_InstrumentRegistry backend)) interval) 0 0
      = Some (P, d, k)" "R = ia_registry (pc_adapter P)" "rr_engineEventLog result = reg_eventLog R"
    using assms by (auto simp: replayFile_def replayMessages_def p(1) Let_def bind_eq_Some_conv)
  have "log_after 0 (ia_registry (pc_adapter (new_ParityChecker (new_ItchEngineAdapter (new_InstrumentRegistry backend)) interval)))"
    by (simp add: new_ParityChecker_def new_ItchEngineAdapter_def log_after_def log_volume_def)
      (simp add: new_InstrumentRegistry_def)
  from log_after_loop [OF this loop(1)] p(2) loop(2,3)
  show "log_after (length bytes) R" "rr_engineEventLog result = reg_eventLog R" by (auto elim: log_after_mono)
qed

section \<open>The publisher on such a log\<close>

definition cum_within :: "nat \<Rightarrow> EventPublisher \<Rightarrow> bool" where
  "cum_within v P \<longleftrightarrow> (\<forall>s i st. state_at P s i = Some st \<longrightarrow> unat (os_cumQty st) \<le> v)"

lemma cum_within_put:
  assumes "cum_within v P" "unat (os_cumQty st) \<le> w" "v \<le> w"
  shows "cum_within w (pub_put_state s i st P)"
  using assms by (fastforce simp: cum_within_def state_at_def pub_put_state_def pub_states_at_def split: option.splits if_splits)

lemma cum_within_report [simp]: "cum_within v (pub_report symbol i ty a b c d e why P) = cum_within v P"
  by (simp add: cum_within_def state_at_def)

lemma emitFill_returns:
  assumes "cum_within v P" "q \<noteq> 0" "v + unat q < 2 ^ 64"
  shows "\<exists>P'. pub_emitFill symbol i q px P = Some P' \<and> cum_within (v + unat q) P'"
proof (cases "state_at P symbol i")
  case None
  then have "pub_emitFill symbol i q px P = Some P" by (auto simp: pub_emitFill_def state_at_def split: option.splits)
  moreover have "cum_within (v + unat q) P" using assms(1) by (auto simp: cum_within_def intro: trans_le_add1)
  ultimately show ?thesis by blast
next
  case (Some st)
  have "unat (os_cumQty st) \<le> v" using assms(1) Some by (auto simp: cum_within_def)
  with assms(3) have sum: "unat (os_cumQty st + q) = unat (os_cumQty st) + unat q" by (intro unat_add_lem [THEN iffD1]) simp
  then have "unat (os_cumQty st + q) \<noteq> 0" using assms(2) by (simp add: unat_eq_zero)
  then have ne: "os_cumQty st + q \<noteq> 0" by auto
  have "cum_within (v + unat q) (pub_put_state symbol i (st\<lparr>os_cumQty := os_cumQty st + q,
      os_cumNotional := os_cumNotional st + q * px\<rparr>) P)"
    by (rule cum_within_put [OF assms(1)]) (use sum \<open>unat (os_cumQty st) \<le> v\<close> in auto)
  with ne Some show ?thesis by (auto simp: pub_emitFill_def state_at_cases Let_def)
qed

lemma process_returns:
  assumes "cum_within v P" "\<not> empty_trade (event_payload e)" "v + 2 * traded (event_payload e) < 2 ^ 64"
  shows "\<exists>P'. pub_process P e = Some P' \<and> cum_within (v + 2 * traded (event_payload e)) P'"
proof (cases "event_payload e")
  case (TradeExecuted symbol incoming resting price q)
  obtain P1 where 1: "pub_emitFill symbol incoming q price P = Some P1" "cum_within (v + unat q) P1"
    using emitFill_returns [OF assms(1), of q symbol incoming price] assms(2,3) TradeExecuted by auto
  with emitFill_returns [OF 1(2), of q symbol resting price] assms(2,3) TradeExecuted show ?thesis
    by (auto simp: pub_handleTrade_def mult_2 add.assoc)
next
  case (OrderReplaced symbol i p q)
  have "unat (os_cumQty st) \<le> v" if "state_at P symbol i = Some st" for st using assms(1) that by (auto simp: cum_within_def)
  then show ?thesis using OrderReplaced cum_within_put [OF assms(1)]
    by (auto simp: pub_handleReplaced_def Let_def pub_states_at_def state_at_def split: option.splits)
qed (use assms cum_within_put [OF assms(1)] in
  \<open>auto simp: pub_handleSubmitted_def pub_handleCancelled_def pub_handleRejected_def Let_def\<close>)

lemma process_all_returns:
  assumes "cum_within v P" "\<forall>payload\<in>set (map event_payload log). \<not> empty_trade payload" "v + 2 * log_volume log < 2 ^ 64"
  shows "\<exists>P'. pub_process_all P log = Some P'"
  using assms
proof (induction log arbitrary: P v)
  case (Cons e log)
  obtain P1 where 1: "pub_process P e = Some P1" "cum_within (v + 2 * traded (event_payload e)) P1"
    using process_returns [OF Cons.prems(1), of e] Cons.prems(2,3) by (auto simp: log_volume_def)
  have "\<exists>P'. pub_process_all P1 log = Some P'"
    by (rule Cons.IH [OF 1(2)]) (use Cons.prems(2,3) in \<open>auto simp: log_volume_def algebra_simps\<close>)
  with 1(1) show ?case by simp
qed simp

text \<open>For a file of less than two gibibytes the publisher always comes to the end of the replay's log.\<close>

lemma replay_reports:
  assumes "replayFile walk interval (new_InstrumentRegistry backend) bytes = Some (result, R)" "length bytes < 2 ^ 31"
  shows "\<exists>P. pub_process_all new_EventPublisher (rr_engineEventLog result) = Some P"
proof (rule process_all_returns [where v = 0])
  note log = replay_log [OF assms(1)]
  show "cum_within 0 new_EventPublisher" by (simp add: cum_within_def state_at_def new_EventPublisher_def)
  show "\<forall>payload\<in>set (map event_payload (rr_engineEventLog result)). \<not> empty_trade payload"
    using log by (simp add: log_after_def)
  have "log_volume (rr_engineEventLog result) \<le> length bytes * (2 ^ 32 - 1)" using log by (simp add: log_after_def)
  also have "\<dots> \<le> (2 ^ 31 - 1) * (2 ^ 32 - 1)" using assms(2) by (intro mult_le_mono) auto
  finally show "0 + 2 * log_volume (rr_engineEventLog result) < 2 ^ 64" by simp
qed

end
