(* ===== verification/Backtest.thy ===== *)
theory Backtest
  imports Log_Volume Demo_Session
begin

text \<open>
  \<open>BacktestRunner\<close> (\<open>include/titan/backtest\<close>, \<open>src/backtest/backtest_runner.cpp\<close>): a replay through a fresh
  registry, whose event log is then counted and shown to a strategy.  The strategy's hooks have
  no results, so what it does is the list of the calls made to it; the measured wall time and
  the iteration order of the symbol set are parameters.  The second part compares replays
  on the two matcher backends.
\<close>

section \<open>The runner\<close>

datatype StrategyCall = OnEvent Event | OnExecutionReport ExecutionReport | OnBookUpdate BookSnapshot

record BacktestConfig =
  bc_backend :: MatcherBackend
  bc_bookDepth :: nat

record BacktestResult =
  br_messagesDecoded :: nat
  br_messagesSkipped :: nat
  br_ordersSubmitted :: nat
  br_ordersRejected :: nat
  br_ordersCancelled :: nat
  br_ordersReplaced :: nat
  br_tradesExecuted :: nat
  br_totalTradeVolume :: u64
  br_finalBook :: "Symbol \<rightharpoonup> BookSnapshot"
  br_wallTimeNs :: u64

primrec payload_symbol :: "EventPayload \<Rightarrow> Symbol" where
  "payload_symbol (OrderSubmitted symbol i side p q) = symbol"
| "payload_symbol (OrderCancelled symbol i) = symbol"
| "payload_symbol (OrderReplaced symbol i p q) = symbol"
| "payload_symbol (TradeExecuted symbol i r p q) = symbol"
| "payload_symbol (OrderRejected symbol i why) = symbol"

text \<open>One event: count it and remember its symbol.\<close>

definition bt_count :: "EventPayload \<Rightarrow> BacktestResult \<times> Symbol list \<Rightarrow> BacktestResult \<times> Symbol list" where
  "bt_count payload st =
     (let (r, symbols) = st;
          symbols = (if payload_symbol payload \<in> set symbols then symbols else symbols @ [payload_symbol payload]) in
      (case payload of
         OrderSubmitted _ _ _ _ _ \<Rightarrow> r\<lparr>br_ordersSubmitted := br_ordersSubmitted r + 1\<rparr>
       | OrderRejected _ _ _ \<Rightarrow> r\<lparr>br_ordersRejected := br_ordersRejected r + 1\<rparr>
       | OrderCancelled _ _ \<Rightarrow> r\<lparr>br_ordersCancelled := br_ordersCancelled r + 1\<rparr>
       | OrderReplaced _ _ _ _ \<Rightarrow> r\<lparr>br_ordersReplaced := br_ordersReplaced r + 1\<rparr>
       | TradeExecuted _ _ _ _ q \<Rightarrow> r\<lparr>br_tradesExecuted := br_tradesExecuted r + 1,
           br_totalTradeVolume := br_totalTradeVolume r + q\<rparr>,
       symbols))"

fun bt_books :: "nat \<Rightarrow> bool \<Rightarrow> Symbol list \<Rightarrow> BacktestResult \<Rightarrow> StrategyCall list \<Rightarrow> InstrumentRegistry \<Rightarrow>
    (BacktestResult \<times> StrategyCall list \<times> InstrumentRegistry) option" where
  "bt_books depth strategy [] r calls R = Some (r, calls, R)"
| "bt_books depth strategy (symbol # symbols) r calls R = do {
     (snapshot, R1) \<leftarrow> reg_snapshot R symbol depth;
     bt_books depth strategy symbols (r\<lparr>br_finalBook := (br_finalBook r)(symbol \<mapsto> snapshot)\<rparr>)
       (if strategy then calls @ [OnBookUpdate snapshot] else calls) R1 }"

definition backtest_replayFile ::
  "(StockLocate list \<Rightarrow> StockLocate list) \<Rightarrow> (Symbol list \<Rightarrow> Symbol list) \<Rightarrow> BacktestConfig \<Rightarrow> u64 \<Rightarrow> u8 list \<Rightarrow> bool \<Rightarrow>
     (BacktestResult \<times> StrategyCall list) option" where
  "backtest_replayFile walk walkSymbols config elapsed bytes strategy = do {
     (replay, R) \<leftarrow> replayFile walk 1 (new_InstrumentRegistry (bc_backend config)) bytes;
     let log = rr_engineEventLog replay;
     let r = \<lparr>br_messagesDecoded = rr_messagesDecoded replay, br_messagesSkipped = rr_messagesSkipped replay,
        br_ordersSubmitted = 0, br_ordersRejected = 0, br_ordersCancelled = 0, br_ordersReplaced = 0,
        br_tradesExecuted = 0, br_totalTradeVolume = 0, br_finalBook = Map.empty, br_wallTimeNs = elapsed\<rparr>;
     let (r, symbols) = fold (\<lambda>e. bt_count (event_payload e)) log (r, []);
     let calls = (if strategy then map OnEvent log else []);
     calls \<leftarrow> (if strategy then do {
                  P \<leftarrow> pub_process_all new_EventPublisher log;
                  Some (calls @ map OnExecutionReport (pub_reports P)) }
                else Some calls);
     (r, calls, R) \<leftarrow> bt_books (bc_bookDepth config) strategy (walkSymbols symbols) r calls R;
     Some (r, calls) }"

section \<open>Two registries that stand for the same exchange\<close>

definition reg_sim :: "InstrumentRegistry \<Rightarrow> InstrumentRegistry \<Rightarrow> bool" where
  "reg_sim R1 R2 \<longleftrightarrow> reg_inv R1 \<and> reg_inv R2 \<and> reg_spec R1 = reg_spec R2"

text \<open>Both calls return, with related results.\<close>

definition both :: "('a \<Rightarrow> 'b \<Rightarrow> bool) \<Rightarrow> 'a option \<Rightarrow> 'b option \<Rightarrow> bool" where
  "both A x y \<longleftrightarrow> (\<exists>a b. x = Some a \<and> y = Some b \<and> A a b)"

lemma both_Some [simp]: "both A (Some a) (Some b) = A a b"
  by (simp add: both_def)

lemma both_bind:
  assumes "both A x y" "\<And>a b. A a b \<Longrightarrow> both B (f a) (g b)"
  shows "both B (Option.bind x f) (Option.bind y g)"
  using assms by (auto simp: both_def)

lemma reg_sim_call:
  assumes "reg_sim R1 R2"
  shows "both (rel_prod (=) reg_sim) (reg_call R1 c) (reg_call R2 c)"
proof -
  obtain r1 R1' where 1: "reg_call R1 c = Some (r1, R1')" "reg_inv R1'" "ex_call (reg_spec R1) c = (r1, reg_spec R1')"
    using reg_call_refines assms unfolding reg_sim_def by blast
  obtain r2 R2' where 2: "reg_call R2 c = Some (r2, R2')" "reg_inv R2'" "ex_call (reg_spec R2) c = (r2, reg_spec R2')"
    using reg_call_refines assms unfolding reg_sim_def by blast
  from 1 2 assms show ?thesis by (simp add: reg_sim_def)
qed

lemma reg_sim_ops:
  assumes "reg_sim R1 R2"
  shows "both (rel_prod (=) reg_sim) (reg_submitOrder R1 symbol ord) (reg_submitOrder R2 symbol ord)"
    "both (rel_prod (=) reg_sim) (reg_cancelOrder R1 symbol i) (reg_cancelOrder R2 symbol i)"
    "both (rel_prod (=) reg_sim) (reg_matchOrder R1 symbol ord) (reg_matchOrder R2 symbol ord)"
    "both (rel_prod (=) reg_sim) (reg_cancelReplace R1 symbol i ord) (reg_cancelReplace R2 symbol i ord)"
    "both (rel_prod (=) reg_sim) (reg_snapshot R1 symbol n) (reg_snapshot R2 symbol n)"
    "reg_sim (reg_createInstrument R1 symbol) (reg_createInstrument R2 symbol)"
    "reg_sim (reg_reset R1) (reg_reset R2)"
  using reg_sim_call [OF assms, of "SubmitOrder symbol ord"] reg_sim_call [OF assms, of "CancelOrder symbol i"]
    reg_sim_call [OF assms, of "MatchOrder symbol ord"] reg_sim_call [OF assms, of "CancelReplace symbol i ord"]
    reg_sim_call [OF assms, of "Snapshot symbol n"] reg_sim_call [OF assms, of "CreateInstrument symbol"]
    reg_sim_call [OF assms, of Reset]
  by (auto simp: both_def)

lemma reg_sim_views:
  assumes "reg_sim R1 R2"
  shows "reg_findOrder R1 = reg_findOrder R2" "reg_eventLog R1 = reg_eventLog R2"
proof -
  have spec: "reg_spec R1 = reg_spec R2" using assms by (simp add: reg_sim_def)
  then show "reg_findOrder R1 = reg_findOrder R2" by (simp add: fun_eq_iff reg_view_of_spec(2))
  show "reg_eventLog R1 = reg_eventLog R2" using arg_cong [OF spec, of ex_log] by (simp add: reg_spec_def)
qed

lemma reg_sim_new: "reg_sim (new_InstrumentRegistry b1) (new_InstrumentRegistry b2)"
  by (simp add: reg_sim_def)

definition ia_sim :: "ItchEngineAdapter \<Rightarrow> ItchEngineAdapter \<Rightarrow> bool" where
  "ia_sim A1 A2 \<longleftrightarrow> reg_sim (ia_registry A1) (ia_registry A2) \<and> ia_symbols A1 = ia_symbols A2 \<and>
     ia_engineIdForRef A1 = ia_engineIdForRef A2 \<and> ia_nextSyntheticId A1 = ia_nextSyntheticId A2 \<and>
     ia_tradeVolume A1 = ia_tradeVolume A2"

lemma ia_sim_handlers:
  assumes "ia_sim A1 A2"
  shows "both (rel_prod (=) ia_sim) (ia_handleAddOrder a A1) (ia_handleAddOrder a A2)"
    "both (rel_prod (=) ia_sim) (ia_applyExecuted l ref n price A1) (ia_applyExecuted l ref n price A2)"
    "both (rel_prod (=) ia_sim) (ia_handleOrderCancel x A1) (ia_handleOrderCancel x A2)"
    "both (rel_prod (=) ia_sim) (ia_handleOrderDelete d A1) (ia_handleOrderDelete d A2)"
    "both (rel_prod (=) ia_sim) (ia_handleOrderReplace u A1) (ia_handleOrderReplace u A2)"
proof -
  have sim: "reg_sim (ia_registry A1) (ia_registry A2)" using assms by (simp add: ia_sim_def)
  note eq = reg_sim_views [OF sim] ia_engineIdFor_def Let_def
  note ops = reg_sim_ops [OF sim]
  have fields: "ia_symbols A1 = ia_symbols A2" "ia_engineIdForRef A1 = ia_engineIdForRef A2"
    "ia_nextSyntheticId A1 = ia_nextSyntheticId A2" "ia_tradeVolume A1 = ia_tradeVolume A2"
    using assms by (simp_all add: ia_sim_def)
  show "both (rel_prod (=) ia_sim) (ia_handleAddOrder a A1) (ia_handleAddOrder a A2)"
    by (cases "ia_symbols A2 (ao_stockLocate a)")
      (auto simp: ia_handleAddOrder_def eq fields ia_sim_def sim intro!: both_bind [OF ops(1)])
  show "both (rel_prod (=) ia_sim) (ia_applyExecuted l ref n price A1) (ia_applyExecuted l ref n price A2)"
    by (auto simp: ia_applyExecuted_def eq fields ia_sim_def sim intro!: both_bind [OF ops(3)] split: option.splits)
  show "both (rel_prod (=) ia_sim) (ia_handleOrderCancel x A1) (ia_handleOrderCancel x A2)"
    by (auto simp: ia_handleOrderCancel_def eq fields ia_sim_def sim
        intro!: both_bind [OF ops(2)] both_bind [OF ops(4)] split: option.splits)
  show "both (rel_prod (=) ia_sim) (ia_handleOrderDelete d A1) (ia_handleOrderDelete d A2)"
    by (auto simp: ia_handleOrderDelete_def eq fields ia_sim_def sim intro!: both_bind [OF ops(2)] split: option.splits)
  show "both (rel_prod (=) ia_sim) (ia_handleOrderReplace u A1) (ia_handleOrderReplace u A2)"
    by (auto simp: ia_handleOrderReplace_def eq fields ia_sim_def sim intro!: both_bind [OF ops(4)] split: option.splits)
qed

lemma ia_sim_apply:
  assumes "ia_sim A1 A2"
  shows "both (rel_prod (=) ia_sim) (ia_apply A1 m) (ia_apply A2 m)"
  using ia_sim_handlers [OF assms] assms
  by (cases m) (auto simp: ia_handleSystemEvent_def ia_handleStockDirectory_def ia_reset_def ia_sim_def reg_sim_ops(6,7) Let_def)

lemma ia_sim_snapshot:
  assumes "ia_sim A1 A2"
  shows "both (rel_prod (=) ia_sim) (ia_snapshot A1 locate n) (ia_snapshot A2 locate n)"
proof -
  have "reg_sim (ia_registry A1) (ia_registry A2)" using assms by (simp add: ia_sim_def)
  from reg_sim_ops(5) [OF this] assms show ?thesis
    by (auto simp: ia_snapshot_def ia_sim_def intro!: both_bind split: option.splits)
qed

definition pc_sim :: "ParityChecker \<Rightarrow> ParityChecker \<Rightarrow> bool" where
  "pc_sim P1 P2 \<longleftrightarrow> ia_sim (pc_adapter P1) (pc_adapter P2) \<and> pc_builder P1 = pc_builder P2 \<and>
     pc_checkpointInterval P1 = pc_checkpointInterval P2 \<and> pc_knownLocates P1 = pc_knownLocates P2 \<and>
     pc_report P1 = pc_report P2"

lemma pc_sim_compareLocate:
  assumes "pc_sim P1 P2"
  shows "both pc_sim (pc_compareLocate l P1) (pc_compareLocate l P2)"
proof -
  have sim: "ia_sim (pc_adapter P1) (pc_adapter P2)" using assms by (simp add: pc_sim_def)
  obtain s B where "ibb_snapshot (pc_builder P2) l 1 = (s, B)" by (metis surj_pair)
  with assms show ?thesis
    by (cases s) (auto simp: pc_compareLocate_def pc_sim_def Let_def intro!: both_bind [OF ia_sim_snapshot [OF sim]])
qed

lemma pc_sim_compareLocates:
  assumes "pc_sim P1 P2"
  shows "both pc_sim (pc_compareLocates ls P1) (pc_compareLocates ls P2)"
  using assms by (induction ls arbitrary: P1 P2) (auto intro!: both_bind [OF pc_sim_compareLocate])

lemma pc_sim_process:
  assumes "pc_sim P1 P2" "pc_checkpointInterval P2 \<noteq> 0"
  shows "both pc_sim (pc_process walk P1 m) (pc_process walk P2 m)"
proof -
  have sim: "ia_sim (pc_adapter P1) (pc_adapter P2)" using assms by (simp add: pc_sim_def)
  have vol: "ia_tradeVolume A1 = ia_tradeVolume A2" if "ia_sim A1 A2" for A1 A2 using that by (simp add: ia_sim_def)
  show ?thesis
    using assms
    by (cases "extractLocate m") (auto simp: pc_process_def pc_compareAllLocates_def Let_def pc_sim_def vol
        intro!: both_bind [OF ia_sim_apply [OF sim]] pc_sim_compareLocates)
qed

lemma pc_compareLocates_interval:
  "pc_compareLocates ls P = Some P' \<Longrightarrow> pc_checkpointInterval P' = pc_checkpointInterval P"
proof (induction ls arbitrary: P)
  case (Cons l ls)
  obtain P1 where "pc_compareLocate l P = Some P1" "pc_compareLocates ls P1 = Some P'"
    using Cons.prems by (auto split: bind_splits)
  moreover from this(1) have "pc_checkpointInterval P1 = pc_checkpointInterval P"
    by (auto simp: pc_compareLocate_def Let_def split: prod.splits option.splits bind_splits)
  ultimately show ?case using Cons.IH by simp
qed simp

lemma pc_process_interval: "pc_process walk P m = Some P' \<Longrightarrow> pc_checkpointInterval P' = pc_checkpointInterval P"
  by (auto simp: pc_process_def Let_def pc_compareAllLocates_def split: bind_splits if_splits
      dest!: pc_compareLocates_interval)

definition loop_sim :: "ParityChecker \<times> nat \<times> nat \<Rightarrow> ParityChecker \<times> nat \<times> nat \<Rightarrow> bool" where
  "loop_sim x y \<longleftrightarrow> pc_sim (fst x) (fst y) \<and> snd x = snd y"

lemma loop_sim_replay:
  assumes "pc_sim P1 P2" "pc_checkpointInterval P2 \<noteq> 0"
  shows "both loop_sim (replay_loop walk results P1 d n) (replay_loop walk results P2 d n)"
  using assms
proof (induction results arbitrary: P1 P2 d n)
  case Nil
  then show ?case by (simp add: loop_sim_def)
next
  case (Cons parsed results)
  show ?case
  proof (cases "pr_ok parsed")
    case True
    obtain Q1 Q2 where "pc_process walk P1 (pr_message parsed) = Some Q1" "pc_process walk P2 (pr_message parsed) = Some Q2"
      "pc_sim Q1 Q2"
      using pc_sim_process [OF Cons.prems, of walk "pr_message parsed"] by (auto simp: both_def)
    moreover from this(2) have "pc_checkpointInterval Q2 \<noteq> 0" using pc_process_interval Cons.prems(2) by metis
    ultimately show ?thesis using True Cons.IH by simp
  qed (use Cons in simp)
qed

lemma replayFile_sim:
  assumes "reg_sim R1 R2" "interval \<noteq> 0"
  shows "both (rel_prod (=) reg_sim) (replayFile walk interval R1 bytes) (replayFile walk interval R2 bytes)"
proof -
  obtain results P where feed: "parser_feed new_ItchParser bytes = Some (results, P)"
    by (simp add: parser_feed_frames split_beta Let_def)
  have "pc_sim (new_ParityChecker (new_ItchEngineAdapter R1) interval) (new_ParityChecker (new_ItchEngineAdapter R2) interval)"
    using assms(1) by (simp add: pc_sim_def new_ParityChecker_def ia_sim_def new_ItchEngineAdapter_def)
  from loop_sim_replay [OF this] assms(2) have "both loop_sim
      (replay_loop walk results (new_ParityChecker (new_ItchEngineAdapter R1) interval) 0 0)
      (replay_loop walk results (new_ParityChecker (new_ItchEngineAdapter R2) interval) 0 0)"
    by (simp add: new_ParityChecker_def)
  then have "both (rel_prod (=) reg_sim) (replayMessages walk interval R1 results) (replayMessages walk interval R2 results)"
    unfolding replayMessages_def Let_def
    by (rule both_bind) (auto simp: loop_sim_def pc_sim_def ia_sim_def reg_sim_views)
  then show ?thesis
    by (auto simp: replayFile_def feed intro!: both_bind)
qed

lemma bt_books_sim:
  assumes "reg_sim R1 R2"
  shows "both (\<lambda>x y. fst x = fst y \<and> fst (snd x) = fst (snd y))
    (bt_books depth strategy symbols r calls R1) (bt_books depth strategy symbols r calls R2)"
  using assms
proof (induction symbols arbitrary: r calls R1 R2)
  case (Cons symbol symbols)
  obtain snapshot R1' R2' where "reg_snapshot R1 symbol depth = Some (snapshot, R1')"
    "reg_snapshot R2 symbol depth = Some (snapshot, R2')" "reg_sim R1' R2'"
    using reg_sim_ops(5) [OF Cons.prems, of symbol depth] by (auto simp: both_def)
  then show ?case using Cons.IH by (simp del: split_paired_All)
qed simp

lemma backtest_sim:
  "backtest_replayFile walk walkSymbols \<lparr>bc_backend = b1, bc_bookDepth = depth\<rparr> elapsed bytes strategy =
   backtest_replayFile walk walkSymbols \<lparr>bc_backend = b2, bc_bookDepth = depth\<rparr> elapsed bytes strategy"
proof -
  obtain replay R1 R2 where r: "replayFile walk 1 (new_InstrumentRegistry b1) bytes = Some (replay, R1)"
    "replayFile walk 1 (new_InstrumentRegistry b2) bytes = Some (replay, R2)" "reg_sim R1 R2"
    using replayFile_sim [OF reg_sim_new, of 1 walk b1 bytes b2] by (auto simp: both_def)
  have books: "Option.bind (bt_books d st syms r0 c0 R1) (\<lambda>(r, calls, R). Some (r, calls))
      = Option.bind (bt_books d st syms r0 c0 R2) (\<lambda>(r, calls, R). Some (r, calls))" for d st syms r0 c0
    using bt_books_sim [OF r(3), of d st syms r0 c0] by (auto simp: both_def)
  show ?thesis
    by (simp add: backtest_replayFile_def r books Let_def del: One_nat_def split: prod.split)
qed

lemma backtest_returns:
  assumes "strategy \<longrightarrow> length bytes < 2 ^ 31"
  shows "\<exists>x. backtest_replayFile walk walkSymbols config elapsed bytes strategy = Some x"
proof -
  obtain replay R where r: "replayFile walk 1 (new_InstrumentRegistry (bc_backend config)) bytes = Some (replay, R)" "reg_sim R R"
    using replayFile_sim [OF reg_sim_new, of 1 walk "bc_backend config" bytes "bc_backend config"]
    by (auto simp: both_def reg_sim_def)
  obtain P where P: "strategy \<longrightarrow> pub_process_all new_EventPublisher (rr_engineEventLog replay) = Some P"
    using replay_reports [OF r(1)] assms by blast
  have "\<exists>x. Option.bind (bt_books d st syms r0 c0 R) (\<lambda>(r, calls, R). Some (r, calls)) = Some x" for d st syms r0 c0
    using bt_books_sim [OF r(2), of d st syms r0 c0] by (auto simp: both_def)
  then show ?thesis using P
    by (simp add: backtest_replayFile_def r(1) Let_def del: One_nat_def split: prod.split)
qed

section \<open>Properties\<close>

text \<open>
  C39. A replay comes back and does not depend on the matcher: for any bytes and any
  positive checkpoint interval the replay returns on either backend, with the same parity report, the same engine
  event log and the same counters.  A backtest has the same result and makes the same calls to the
  strategy with the reference matcher as with the optimized one; it returns for any bytes when there is no
  strategy, and for any file of less than 2 GiB when there is one (the execution reports it is shown
  then never divide by a traded quantity that has wrapped around to zero).
\<close>

theorem replay_backend_independent:
  assumes "interval \<noteq> 0"
  shows "(\<exists>result R1 R2. replayFile walk interval (new_InstrumentRegistry Reference) bytes = Some (result, R1) \<and>
      replayFile walk interval (new_InstrumentRegistry Optimized) bytes = Some (result, R2)) \<and>
    backtest_replayFile walk walkSymbols \<lparr>bc_backend = Reference, bc_bookDepth = depth\<rparr> elapsed bytes strategy =
    backtest_replayFile walk walkSymbols \<lparr>bc_backend = Optimized, bc_bookDepth = depth\<rparr> elapsed bytes strategy \<and>
    ((strategy \<longrightarrow> length bytes < 2 ^ 31) \<longrightarrow>
      (\<exists>x. backtest_replayFile walk walkSymbols \<lparr>bc_backend = Optimized, bc_bookDepth = depth\<rparr> elapsed bytes strategy = Some x))"
  using replayFile_sim [OF reg_sim_new assms, of walk Reference bytes Optimized] backtest_sim backtest_returns
  by (auto simp: both_def)

theorem replay_backend_independent_witness:
  "(\<exists>result R1 R2. replayFile id 1 (new_InstrumentRegistry Reference) [0, 5, 84, 0, 0, 1, 0] = Some (result, R1) \<and>
      replayFile id 1 (new_InstrumentRegistry Optimized) [0, 5, 84, 0, 0, 1, 0] = Some (result, R2) \<and>
      rr_messagesDecoded result = 1) \<and>
   (\<exists>x. backtest_replayFile id id \<lparr>bc_backend = Optimized, bc_bookDepth = 1\<rparr> 0 [0, 5, 84, 0, 0, 1, 0] True = Some x)"
proof -
  have "map_option (\<lambda>x. rr_messagesDecoded (fst x))
      (replayFile id 1 (new_InstrumentRegistry Reference) [0, 5, 84, 0, 0, 1, 0]) = Some 1"
    by code_simp
  then show ?thesis
    using replay_backend_independent [of 1 id "[0, 5, 84, 0, 0, 1, 0]" id 1 0 True] by fastforce
qed

end
