(* ===== verification/Socket_Feed.thy ===== *)
theory Socket_Feed
  imports Backtest
begin

text \<open>
  The live feed: \<open>SocketFeedReader\<close> (\<open>feed/tcp/socket_feed.cpp\<close>), the loop that polls a socket and
  parses what arrives, and \<open>ItchSocketPipeline\<close> (\<open>feed/tcp/itch_socket_pipeline.cpp\<close>), which sends
  the messages to a parity checker of its own.  What the operating system and the other
  thread answer in one iteration of the loop is a \<open>RecvStep\<close>; a session is the list of them, and a
  list at whose end the loop has not left is a session that still runs.
\<close>

section \<open>The reader\<close>

record TcpFeedConfig =
  tfc_host :: string
  tfc_port :: u16
  tfc_recvBufferSize :: nat

record SocketFeedReader =
  sfr_config :: TcpFeedConfig
  sfr_parser :: ItchParser
  sfr_stop :: bool
  sfr_running :: bool
  sfr_bytesReceived :: nat
  sfr_socketFd :: int

definition new_SocketFeedReader :: "TcpFeedConfig \<Rightarrow> SocketFeedReader" where
  "new_SocketFeedReader config = \<lparr>sfr_config = config, sfr_parser = new_ItchParser, sfr_stop = False,
     sfr_running = False, sfr_bytesReceived = 0, sfr_socketFd = -1\<rparr>"

text \<open>
  \<open>connectSocket\<close> over the answers of the system: the addresses, each with the descriptor \<open>socket\<close>
  returned and whether \<open>connect\<close> succeeded; \<open>None\<close> when the host is not found.  The second result are the
  descriptors closed on the way.
\<close>

fun connect_loop :: "int \<Rightarrow> int list \<Rightarrow> (int \<times> bool) list \<Rightarrow> int \<times> int list" where
  "connect_loop fd closed [] = (fd, closed)"
| "connect_loop fd closed ((sock, connected) # results) =
     (if sock < 0 then connect_loop sock closed results
      else if connected then (sock, closed)
      else connect_loop (-1) (closed @ [sock]) results)"

definition connectSocket :: "(int \<times> bool) list option \<Rightarrow> int \<times> int list" where
  "connectSocket addresses = (case addresses of None \<Rightarrow> (-1, []) | Some results \<Rightarrow> connect_loop (-1) [] results)"

text \<open>No descriptor leaks: all that were opened before the one returned are closed, and it is connected.\<close>

lemma connect_loop_no_leak:
  assumes "fd < 0" "connect_loop fd closed results = (fd', closed')"
  shows "\<exists>tried rest. results = tried @ rest \<and> (\<forall>(s, ok)\<in>set tried. s < 0 \<or> \<not> ok) \<and>
    closed' = closed @ filter (\<lambda>s. 0 \<le> s) (map fst tried) \<and>
    (if fd' < 0 then rest = [] else rest \<noteq> [] \<and> hd rest = (fd', True))"
  using assms
proof (induction fd closed results rule: connect_loop.induct)
  case (1 fd closed)
  then show ?case by (auto intro!: exI [of _ "[]"])
next
  case (2 fd closed sock connected results)
  show ?case
  proof (cases "0 \<le> sock \<and> connected")
    case True
    with 2 show ?thesis by (intro exI [of _ "[]"] exI [of _ "(sock, connected) # results"]) auto
  next
    case False
    then have "connect_loop (if sock < 0 then sock else -1) (if sock < 0 then closed else closed @ [sock]) results = (fd', closed')"
      using 2(4) by auto
    then have "\<exists>tried rest. results = tried @ rest \<and> (\<forall>(s, ok)\<in>set tried. s < 0 \<or> \<not> ok) \<and>
        closed' = (if sock < 0 then closed else closed @ [sock]) @ filter (\<lambda>s. 0 \<le> s) (map fst tried) \<and>
        (if fd' < 0 then rest = [] else rest \<noteq> [] \<and> hd rest = (fd', True))"
      using 2(1,2) False by (cases "sock < 0") simp_all
    then obtain tried rest where "results = tried @ rest" "\<forall>(s, ok)\<in>set tried. s < 0 \<or> \<not> ok"
      "closed' = (if sock < 0 then closed else closed @ [sock]) @ filter (\<lambda>s. 0 \<le> s) (map fst tried)"
      "if fd' < 0 then rest = [] else rest \<noteq> [] \<and> hd rest = (fd', True)" by blast
    with False show ?thesis by (intro exI [of _ "(sock, connected) # tried"] exI [of _ rest]) simp
  qed
qed

text \<open>\<open>fd\<close> is what \<open>connectSocket\<close> returned.\<close>

definition sfr_start :: "int \<Rightarrow> SocketFeedReader \<Rightarrow> bool \<times> SocketFeedReader" where
  "sfr_start fd S = (if fd < 0 then (False, S) else (True, S\<lparr>sfr_socketFd := fd, sfr_running := True\<rparr>))"

text \<open>
  \<open>stop()\<close> raises the flag, wakes the loop with \<open>shutdown\<close> and waits for it; the loop sees the flag at
  its next load.
\<close>

definition sfr_requestStop :: "SocketFeedReader \<Rightarrow> SocketFeedReader" where
  "sfr_requestStop S = S\<lparr>sfr_stop := True\<rparr>"

text \<open>
  One iteration of \<open>recvLoop\<close>: the load of \<open>stop_\<close> was true; \<open>poll\<close> failed, timed out or reported
  a hang-up or an error; \<open>recv\<close> failed or met the end (\<open>n \<le> 0\<close>), or stored bytes in the buffer.
\<close>

datatype RecvStep = StopSeen | PollFailed | PollTimeout | HangUp | RecvEnd | Received "u8 list"

text \<open>The inner loop over the results of one call of \<open>feed\<close>; the callback may be empty.\<close>

fun deliver :: "(ItchMessage \<Rightarrow> 'c \<Rightarrow> 'c option) option \<Rightarrow> ItchParseResult list \<Rightarrow> 'c \<Rightarrow> 'c option" where
  "deliver onMessage [] c = Some c"
| "deliver onMessage (result # results) c =
     (case onMessage of
        Some f \<Rightarrow> if pr_ok result then do { c' \<leftarrow> f (pr_message result) c; deliver onMessage results c' }
                  else deliver onMessage results c
      | None \<Rightarrow> deliver onMessage results c)"

definition sfr_close :: "SocketFeedReader \<Rightarrow> SocketFeedReader" where
  "sfr_close S = S\<lparr>sfr_socketFd := -1, sfr_running := False\<rparr>"

fun recvLoop :: "(ItchMessage \<Rightarrow> 'c \<Rightarrow> 'c option) option \<Rightarrow> RecvStep list \<Rightarrow> SocketFeedReader \<Rightarrow> 'c \<Rightarrow>
    (SocketFeedReader \<times> 'c) option" where
  "recvLoop onMessage [] S c = Some (S, c)"
| "recvLoop onMessage (step # steps) S c =
     (case step of
        PollTimeout \<Rightarrow> recvLoop onMessage steps S c
      | Received bytes \<Rightarrow>
          if bytes = [] then Some (sfr_close S, c)
          else do {
            let S1 = S\<lparr>sfr_bytesReceived := sfr_bytesReceived S + length bytes\<rparr>;
            (results, parser) \<leftarrow> parser_feed (sfr_parser S1) bytes;
            c' \<leftarrow> deliver onMessage results c;
            recvLoop onMessage steps (S1\<lparr>sfr_parser := parser\<rparr>) c' }
      | _ \<Rightarrow> Some (sfr_close S, c))"

section \<open>The pipeline\<close>

text \<open>The members the callback writes, and the reader that calls it.\<close>

record SocketSink =
  isp_checker :: ParityChecker
  isp_messagesDecoded :: nat

record ItchSocketPipeline =
  isp_sink :: SocketSink
  isp_reader :: SocketFeedReader

definition new_ItchSocketPipeline :: "TcpFeedConfig \<Rightarrow> MatcherBackend \<Rightarrow> nat \<Rightarrow> ItchSocketPipeline" where
  "new_ItchSocketPipeline config backend interval =
     \<lparr>isp_sink = \<lparr>isp_checker = new_ParityChecker (new_ItchEngineAdapter (new_InstrumentRegistry backend)) interval,
                  isp_messagesDecoded = 0\<rparr>,
      isp_reader = new_SocketFeedReader config\<rparr>"

definition isp_onMessage :: "(StockLocate list \<Rightarrow> StockLocate list) \<Rightarrow> ItchMessage \<Rightarrow> SocketSink \<Rightarrow> SocketSink option" where
  "isp_onMessage walk message sink = do {
     checker \<leftarrow> pc_process walk (isp_checker sink) message;
     Some \<lparr>isp_checker = checker, isp_messagesDecoded = isp_messagesDecoded sink + 1\<rparr> }"

definition isp_start :: "int \<Rightarrow> ItchSocketPipeline \<Rightarrow> bool \<times> ItchSocketPipeline" where
  "isp_start fd X = (case sfr_start fd (isp_reader X) of (ok, S) \<Rightarrow> (ok, X\<lparr>isp_reader := S\<rparr>))"

text \<open>What the reader thread does with the pipeline during a session.\<close>

definition isp_run :: "(StockLocate list \<Rightarrow> StockLocate list) \<Rightarrow> RecvStep list \<Rightarrow> ItchSocketPipeline \<Rightarrow> ItchSocketPipeline option" where
  "isp_run walk steps X = do {
     (S, sink) \<leftarrow> recvLoop (Some (isp_onMessage walk)) steps (isp_reader X) (isp_sink X);
     Some \<lparr>isp_sink = sink, isp_reader = S\<rparr> }"

definition isp_messagesSkipped :: "ItchSocketPipeline \<Rightarrow> nat" where
  "isp_messagesSkipped X = ip_messagesSkipped (sfr_parser (isp_reader X))"

definition isp_registry :: "ItchSocketPipeline \<Rightarrow> InstrumentRegistry" where
  "isp_registry X = ia_registry (pc_adapter (isp_checker (isp_sink X)))"

section \<open>A session is a feed in chunks\<close>

primrec leaves :: "RecvStep \<Rightarrow> bool" where
  "leaves StopSeen = True"
| "leaves PollFailed = True"
| "leaves PollTimeout = False"
| "leaves HangUp = True"
| "leaves RecvEnd = True"
| "leaves (Received bytes) = (bytes = [])"

primrec step_bytes :: "RecvStep \<Rightarrow> u8 list" where
  "step_bytes StopSeen = []"
| "step_bytes PollFailed = []"
| "step_bytes PollTimeout = []"
| "step_bytes HangUp = []"
| "step_bytes RecvEnd = []"
| "step_bytes (Received bytes) = bytes"

text \<open>The bytes that reach the parser: what arrives before the loop is left.\<close>

definition received :: "RecvStep list \<Rightarrow> u8 list list" where
  "received steps = filter (\<lambda>c. c \<noteq> []) (map step_bytes (takeWhile (\<lambda>s. \<not> leaves s) steps))"

lemma received_simps [simp]:
  "received [] = []"
  "received (s # steps) = (if leaves s then [] else if step_bytes s = [] then received steps else step_bytes s # received steps)"
  by (simp_all add: received_def)

lemma deliver_append: "deliver f (xs @ ys) c = Option.bind (deliver f xs c) (deliver f ys)"
  by (induction f xs c rule: deliver.induct) (auto split: option.splits bind_splits)

lemma recvLoop_chunks:
  assumes "feed_chunks (sfr_parser S) (received steps) = Some (results, P)" "deliver f results c = Some c'"
  shows "\<exists>S'. recvLoop f steps S c = Some (S', c') \<and> sfr_parser S' = P \<and>
    sfr_bytesReceived S' = sfr_bytesReceived S + length (concat (received steps)) \<and>
    (sfr_running S' \<longleftrightarrow> sfr_running S \<and> \<not> list_ex leaves steps)"
  using assms
proof (induction steps arbitrary: S c results)
  case (Cons step steps)
  show ?case
  proof (cases step)
    case (Received bytes)
    show ?thesis
    proof (cases "bytes = []")
      case False
      obtain r1 P1 where feed: "parser_feed (sfr_parser S) bytes = Some (r1, P1)"
        by (simp add: parser_feed_frames split_beta Let_def)
      with Cons.prems Received False obtain r2 where
        r2: "feed_chunks P1 (received steps) = Some (r2, P)" "results = r1 @ r2"
        by (auto simp: bind_eq_Some_conv)
      with Cons.prems(2) obtain c1 where c1: "deliver f r1 c = Some c1" "deliver f r2 c1 = Some c'"
        by (auto simp: deliver_append bind_eq_Some_conv)
      let ?S1 = "S\<lparr>sfr_bytesReceived := sfr_bytesReceived S + length bytes, sfr_parser := P1\<rparr>"
      show ?thesis using Cons.IH [of ?S1 r2 c1] r2 c1 feed Received False by auto
    qed (use Cons.prems Received in \<open>auto simp: sfr_close_def\<close>)
  qed (use Cons in \<open>auto simp: sfr_close_def\<close>)
qed simp

lemma deliver_replay:
  assumes "replay_loop walk results P d n = Some (P', d', n')"
  shows "deliver (Some (isp_onMessage walk)) results \<lparr>isp_checker = P, isp_messagesDecoded = d\<rparr>
    = Some \<lparr>isp_checker = P', isp_messagesDecoded = d'\<rparr>"
  using assms
  by (induction results arbitrary: P d n) (auto simp: isp_onMessage_def bind_eq_Some_conv split: if_splits)

section \<open>Properties\<close>

text \<open>
  C23. A live session is the replay of the bytes it received: whatever the sockets answer, in
  whatever pieces, with time-outs in between and however it ends, the reader's loop returns, and the
  parity report, the exchange, and the numbers of messages decoded and skipped are those of
  \<open>EventReplayer::replayFile\<close> on the concatenation of what was received before the loop was
  left; every such byte is counted, and the reader runs exactly until a step that leaves the loop.
\<close>

theorem live_session_is_replay:
  assumes "interval \<noteq> 0" "0 \<le> fd"
  shows "\<exists>X result R. isp_run walk steps (snd (isp_start fd (new_ItchSocketPipeline config backend interval))) = Some X \<and>
    replayFile walk interval (new_InstrumentRegistry backend) (concat (received steps)) = Some (result, R) \<and>
    pc_report (isp_checker (isp_sink X)) = rr_parity result \<and> isp_registry X = R \<and>
    isp_messagesDecoded (isp_sink X) = rr_messagesDecoded result \<and> isp_messagesSkipped X = rr_messagesSkipped result \<and>
    sfr_bytesReceived (isp_reader X) = length (concat (received steps)) \<and>
    (sfr_running (isp_reader X) \<longleftrightarrow> \<not> list_ex leaves steps)"
proof -
  define X0 where "X0 = snd (isp_start fd (new_ItchSocketPipeline config backend interval))"
  have X0: "isp_sink X0 = \<lparr>isp_checker = new_ParityChecker (new_ItchEngineAdapter (new_InstrumentRegistry backend)) interval,
      isp_messagesDecoded = 0\<rparr>" "sfr_parser (isp_reader X0) = new_ItchParser" "sfr_bytesReceived (isp_reader X0) = 0"
      "sfr_running (isp_reader X0)"
    using assms(2) by (auto simp: X0_def isp_start_def sfr_start_def new_ItchSocketPipeline_def new_SocketFeedReader_def)
  obtain results P where feed: "feed_chunks new_ItchParser (received steps) = Some (results, P)"
    "parser_feed new_ItchParser (concat (received steps)) = Some (results, P)"
    unfolding feed_chunks_concat [OF parser_drained_new] by (simp add: parser_feed_frames split_beta Let_def)
  obtain result R where rep: "replayFile walk interval (new_InstrumentRegistry backend) (concat (received steps)) = Some (result, R)"
    using replayFile_sim [OF reg_sim_new assms(1), of walk backend "concat (received steps)" backend] by (auto simp: both_def)
  then obtain C d n where loop: "replay_loop walk results (new_ParityChecker (new_ItchEngineAdapter (new_InstrumentRegistry backend)) interval) 0 0
      = Some (C, d, n)" and res: "rr_parity result = pc_report C" "R = ia_registry (pc_adapter C)" "rr_messagesDecoded result = d"
      "rr_messagesSkipped result = ip_messagesSkipped P"
    by (auto simp: replayFile_def replayMessages_def feed Let_def bind_eq_Some_conv)
  obtain S' where "recvLoop (Some (isp_onMessage walk)) steps (isp_reader X0) (isp_sink X0)
        = Some (S', \<lparr>isp_checker = C, isp_messagesDecoded = d\<rparr>)" "sfr_parser S' = P"
      "sfr_bytesReceived S' = length (concat (received steps))" "sfr_running S' \<longleftrightarrow> \<not> list_ex leaves steps"
    using recvLoop_chunks [of "isp_reader X0", unfolded X0(2), OF feed(1)] deliver_replay [OF loop] X0 by fastforce
  with rep res show ?thesis
    by (simp add: isp_run_def X0_def isp_registry_def isp_messagesSkipped_def)
qed

theorem live_session_is_replay_witness:
  "\<exists>X. isp_run id [Received [0, 5], PollTimeout, Received [84, 0, 0, 1, 0, 9], HangUp, Received [0]]
      (snd (isp_start 3 (new_ItchSocketPipeline \<lparr>tfc_host = ''localhost'', tfc_port = 9000, tfc_recvBufferSize = 65536\<rparr> Reference 1)))
      = Some X \<and>
    isp_messagesDecoded (isp_sink X) = 1 \<and> sfr_bytesReceived (isp_reader X) = 8 \<and> \<not> sfr_running (isp_reader X)"
proof -
  let ?steps = "[Received [0, 5], PollTimeout, Received [84, 0, 0, 1, 0, 9], HangUp, Received [0]]"
  have "map_option (\<lambda>x. rr_messagesDecoded (fst x))
      (replayFile id 1 (new_InstrumentRegistry Reference) (concat (received ?steps))) = Some 1"
    by code_simp
  then show ?thesis
    using live_session_is_replay [of 1 3 id ?steps "\<lparr>tfc_host = ''localhost'', tfc_port = 9000, tfc_recvBufferSize = 65536\<rparr>" Reference]
    by fastforce
qed

end
