(* ===== verification/Tools.thy ===== *)
theory Tools
  imports Socket_Feed Text_Numbers
begin

text \<open>
  The command line tools (\<open>tools/*.cpp\<close>) as functions from their arguments and the files to their exit code
  and what they print.  \<open>fs\<close> gives the bytes of the files that can be opened; the iteration orders of
  unordered containers, the clock and the answers of the sockets are parameters.  A run that
  divides by zero, or reads a number that does not fit an \<open>int\<close>, has no result.
\<close>

record ToolRun =
  tool_exit :: int
  tool_out :: string
  tool_err :: string

definition newline :: string where "newline = [CHR 0x0A]"

definition tool_fail :: "string \<Rightarrow> ToolRun" where
  "tool_fail message = \<lparr>tool_exit = 1, tool_out = [], tool_err = message @ newline\<rparr>"

text \<open>The arguments as pairs of a flag and its value; a flag without a value is dropped.\<close>

fun flag_pairs :: "string list \<Rightarrow> (string \<times> string) list" where
  "flag_pairs (flag # val # args) = (flag, val) # flag_pairs args"
| "flag_pairs _ = []"

text \<open>\<open>static_cast<size_t>(std::atoi(text))\<close>.\<close>

definition atosize :: "string \<Rightarrow> nat option" where
  "atosize text = map_option (\<lambda>n. unat (of_int n :: u64)) (atoi text)"

text \<open>An \<open>ifstream\<close> that cannot be opened reads as an empty file.\<close>

definition read_bytes :: "(string \<Rightarrow> u8 list option) \<Rightarrow> string \<Rightarrow> u8 list" where
  "read_bytes fs path = (case fs path of None \<Rightarrow> [] | Some bytes \<Rightarrow> bytes)"

section \<open>replay\_engine\<close>

fun re_options :: "(string \<times> string) list \<Rightarrow> nat \<times> MatcherBackend \<Rightarrow> (nat \<times> MatcherBackend) option" where
  "re_options [] st = Some st"
| "re_options ((flag, val) # flags) (checkpoint, backend) =
     (if flag = ''--checkpoint'' then do { n \<leftarrow> atosize val; re_options flags (n, backend) }
      else if flag = ''--matcher'' \<and> val = ''optimized'' then re_options flags (checkpoint, Optimized)
      else re_options flags (checkpoint, backend))"

definition print_mismatch :: "ParityMismatch \<Rightarrow> string" where
  "print_mismatch m =
     ''  mismatch at message '' @ decimal (pm_messageIndex m) @ '' symbol '' @ [CHR 0x27] @ snap_symbol (pm_feedSnapshot m) @ [CHR 0x27] @ newline @
     ''    feed:   bids='' @ decimal (length (snap_bids (pm_feedSnapshot m))) @
     '' asks='' @ decimal (length (snap_asks (pm_feedSnapshot m))) @ newline @
     ''    engine: bids='' @ decimal (length (snap_bids (pm_engineSnapshot m))) @
     '' asks='' @ decimal (length (snap_asks (pm_engineSnapshot m))) @ newline"

definition print_parity :: "nat \<Rightarrow> nat \<Rightarrow> ParityReport \<Rightarrow> bool \<Rightarrow> string" where
  "print_parity decoded skipped parity details =
     ''decoded: '' @ decimal decoded @ '', skipped: '' @ decimal skipped @ newline @
     ''checkpoints compared: '' @ decimal (pr_checkpointsCompared parity) @ newline @
     ''mismatches: '' @ decimal (pr_mismatchCount parity) @ newline @
     (if details then concat (map print_mismatch (pr_firstMismatches parity)) else []) @
     ''trade volume: feed='' @ to_string (pr_feedTradeVolume parity) @
     '' engine='' @ to_string (pr_engineTradeVolume parity) @ newline"

definition replay_engine_main ::
  "(StockLocate list \<Rightarrow> StockLocate list) \<Rightarrow> (string \<Rightarrow> u8 list option) \<Rightarrow> string list \<Rightarrow> ToolRun option" where
  "replay_engine_main walk fs argv =
     (if length argv < 2 then
        Some (tool_fail ''usage: replay_engine <path-to-itch-file> [--checkpoint N] [--matcher reference|optimized]'')
      else do {
        (checkpoint, backend) \<leftarrow> re_options (flag_pairs (drop 2 argv)) (1, Reference);
        (result, R) \<leftarrow> replayFile walk checkpoint (new_InstrumentRegistry backend) (read_bytes fs (argv ! 1));
        let parity = rr_parity result;
        Some \<lparr>tool_exit = (if pr_mismatchCount parity = 0 then 0 else 1),
          tool_out = print_parity (rr_messagesDecoded result) (rr_messagesSkipped result) parity True,
          tool_err = []\<rparr> })"

section \<open>backtest\_run\<close>

fun br_options :: "(string \<times> string) list \<Rightarrow> BacktestConfig \<times> string \<Rightarrow> BacktestConfig \<times> string" where
  "br_options [] st = st"
| "br_options ((flag, val) # flags) (config, symbolFilter) =
     (if flag = ''--matcher'' \<and> val = ''optimized'' then br_options flags (config\<lparr>bc_backend := Optimized\<rparr>, symbolFilter)
      else if flag = ''--symbol'' then br_options flags (config, val)
      else br_options flags (config, symbolFilter))"

definition print_top :: "string \<Rightarrow> string \<Rightarrow> (PriceLevel \<Rightarrow> string) \<Rightarrow> PriceLevel list \<Rightarrow> string" where
  "print_top label none show levels = label @ (if levels \<noteq> [] then show (hd levels) else none)"

definition br_print_book :: "string \<Rightarrow> Symbol \<Rightarrow> BookSnapshot \<Rightarrow> string" where
  "br_print_book symbolFilter symbol book =
     (if symbolFilter \<noteq> [] \<and> symbol \<noteq> symbolFilter then []
      else
        let show = (\<lambda>l. to_string (level_price l) @ ''@'' @ to_string (level_quantity l)) in
        ''symbol '' @ symbol @ print_top '': bestBid='' ''none'' show (snap_bids book) @
        print_top '' bestAsk='' ''none'' show (snap_asks book) @ newline)"

text \<open>\<open>books\<close> is the order in which the final books are walked; a symbol without a book has no result.\<close>

fun br_print_books :: "string \<Rightarrow> (Symbol \<rightharpoonup> BookSnapshot) \<Rightarrow> Symbol list \<Rightarrow> string option" where
  "br_print_books symbolFilter finalBook [] = Some []"
| "br_print_books symbolFilter finalBook (symbol # symbols) = do {
     book \<leftarrow> finalBook symbol;
     text \<leftarrow> br_print_books symbolFilter finalBook symbols;
     Some (br_print_book symbolFilter symbol book @ text) }"

definition backtest_run_main ::
  "(StockLocate list \<Rightarrow> StockLocate list) \<Rightarrow> (Symbol list \<Rightarrow> Symbol list) \<Rightarrow> ((Symbol \<rightharpoonup> BookSnapshot) \<Rightarrow> Symbol list) \<Rightarrow> u64 \<Rightarrow>
     (string \<Rightarrow> u8 list option) \<Rightarrow> string list \<Rightarrow> ToolRun option" where
  "backtest_run_main walk walkSymbols books elapsed fs argv =
     (if length argv < 2 then
        Some (tool_fail ''usage: backtest_run <path-to-itch-file> [--matcher reference|optimized] [--symbol SYM]'')
      else
        let path = argv ! 1 in
        if fs path = None then Some (tool_fail (''cannot open file: '' @ path))
        else do {
          let (config, symbolFilter) = br_options (flag_pairs (drop 2 argv)) (\<lparr>bc_backend = Reference, bc_bookDepth = 10\<rparr>, []);
          (r, calls) \<leftarrow> backtest_replayFile walk walkSymbols config elapsed (read_bytes fs path) False;
          text \<leftarrow> br_print_books symbolFilter (br_finalBook r) (books (br_finalBook r));
          Some \<lparr>tool_exit = 0,
            tool_out =
              ''decoded: '' @ decimal (br_messagesDecoded r) @ '', skipped: '' @ decimal (br_messagesSkipped r) @ newline @
              ''orders submitted='' @ decimal (br_ordersSubmitted r) @ '' rejected='' @ decimal (br_ordersRejected r) @
              '' cancelled='' @ decimal (br_ordersCancelled r) @ '' replaced='' @ decimal (br_ordersReplaced r) @ newline @
              ''trades executed='' @ decimal (br_tradesExecuted r) @ '' volume='' @ to_string (br_totalTradeVolume r) @ newline @
              ''wall time: '' @ to_string (br_wallTimeNs r) @ '' ns'' @ newline @ text,
            tool_err = []\<rparr> })"

section \<open>itch\_dump\<close>

text \<open>
  The types of decoded messages are letters, on which the order of \<open>char\<close> and of bytes agree.
\<close>

definition dump_count :: "ItchParseResult \<Rightarrow> (u8, nat) omap \<Rightarrow> (u8, nat) omap" where
  "dump_count result perType =
     (if pr_ok result then omap_set (pr_rawType result) (omap_at 0 (pr_rawType result) perType + 1) perType else perType)"

definition itch_dump_main :: "(string \<Rightarrow> u8 list option) \<Rightarrow> string list \<Rightarrow> ToolRun option" where
  "itch_dump_main fs argv =
     (if length argv \<noteq> 2 then Some (tool_fail ''usage: itch_dump <path-to-binary-file>'')
      else if fs (argv ! 1) = None then Some (tool_fail (''cannot open: '' @ argv ! 1))
      else do {
        (results, parser) \<leftarrow> parser_feed new_ItchParser (read_bytes fs (argv ! 1));
        let perType = fold dump_count results [];
        Some \<lparr>tool_exit = 0,
          tool_out =
            concat (map (\<lambda>(type, count). [char_of (unat type)] @ '': '' @ decimal count @ newline) perType) @
            ''total: '' @ decimal (ip_messagesDecoded parser) @ '' decoded, '' @
            decimal (ip_messagesSkipped parser) @ '' skipped'' @ newline,
          tool_err = []\<rparr> })"

section \<open>itch\_replay\<close>

text \<open>The depth is read and never used.\<close>

fun ir_options :: "(string \<times> string) list \<Rightarrow> nat \<times> nat \<Rightarrow> (nat \<times> nat) option" where
  "ir_options [] st = Some st"
| "ir_options ((flag, val) # flags) (depth, every) =
     (if flag = ''--depth'' then do { n \<leftarrow> atosize val; ir_options flags (n, every) }
      else if flag = ''--every'' then do { n \<leftarrow> atosize val; ir_options flags (depth, n) }
      else ir_options flags (depth, every))"

definition printTopOfBook :: "StockLocate \<Rightarrow> string \<times> ItchBookBuilder \<Rightarrow> string \<times> ItchBookBuilder" where
  "printTopOfBook locate st =
     (let (out, builder) = st;
          sym = ibb_symbolForLocate builder locate;
          (book, builder) = ibb_snapshot builder locate 1;
          show = (\<lambda>l. to_string (level_quantity l) @ ''@'' @ to_string (level_price l))
      in case (sym, book) of
           (Some s, Some b) \<Rightarrow>
             (out @ ''  '' @ s @ print_top '': bid='' ''-'' show (snap_bids b) @ print_top '' ask='' ''-'' show (snap_asks b) @ newline,
              builder)
         | _ \<Rightarrow> (out, builder))"

text \<open>A \<open>std::set\<close> of locates, in order.\<close>

definition set_insert :: "'a::linorder \<Rightarrow> 'a list \<Rightarrow> 'a list" where
  "set_insert x xs = (if x \<in> set xs then xs else insort x xs)"

fun ir_loop :: "nat \<Rightarrow> ItchParseResult list \<Rightarrow> nat \<Rightarrow> StockLocate list \<Rightarrow> string \<times> ItchBookBuilder \<Rightarrow>
    (nat \<times> StockLocate list \<times> string \<times> ItchBookBuilder) option" where
  "ir_loop every [] applied seen st = Some (applied, seen, st)"
| "ir_loop every (result # results) applied seen (out, builder) =
     (if \<not> pr_ok result then ir_loop every results applied seen (out, builder)
      else
        let builder = ibb_apply builder (pr_message result);
            applied = applied + 1;
            seen = (case pr_message result of
                AddOrder a \<Rightarrow> set_insert (ao_stockLocate a) seen
              | StockDirectory d \<Rightarrow> set_insert (sd_stockLocate d) seen
              | _ \<Rightarrow> seen)
        in if every = 0 then None
           else if applied mod every = 0 then
             ir_loop every results applied seen
               (fold printTopOfBook seen (out @ ''-- after '' @ decimal applied @ '' messages --'' @ newline, builder))
           else ir_loop every results applied seen (out, builder))"

definition itch_replay_main :: "(string \<Rightarrow> u8 list option) \<Rightarrow> string list \<Rightarrow> ToolRun option" where
  "itch_replay_main fs argv =
     (if length argv < 2 then Some (tool_fail ''usage: itch_replay <path-to-itch-file> [--depth N] [--every M]'')
      else do {
        (depth, every) \<leftarrow> ir_options (flag_pairs (drop 2 argv)) (1, 1000);
        if fs (argv ! 1) = None then Some (tool_fail (''cannot open: '' @ argv ! 1))
        else do {
          (results, parser) \<leftarrow> parser_feed new_ItchParser (read_bytes fs (argv ! 1));
          (applied, seen, out, builder) \<leftarrow> ir_loop every results 0 [] ([], Map.empty);
          let (out, builder) = fold printTopOfBook seen (out @ ''-- final --'' @ newline, builder);
          Some \<lparr>tool_exit = 0,
            tool_out = out @ ''symbols seen: '' @ decimal (length seen) @ '', messages applied: '' @ decimal applied @
              '', skipped: '' @ decimal (ip_messagesSkipped parser) @ newline,
            tool_err = []\<rparr> } })"

section \<open>itch\_listen\<close>

fun il_options :: "(string \<times> string) list \<Rightarrow> string \<times> u16 \<times> MatcherBackend \<times> nat \<Rightarrow> (string \<times> u16 \<times> MatcherBackend \<times> nat) option" where
  "il_options [] st = Some st"
| "il_options ((flag, val) # flags) (host, port, backend, checkpoint) =
     (if flag = ''--host'' then il_options flags (val, port, backend, checkpoint)
      else if flag = ''--port'' then do { n \<leftarrow> atoi val; il_options flags (host, of_int n, backend, checkpoint) }
      else if flag = ''--matcher'' \<and> val = ''optimized'' then il_options flags (host, port, Optimized, checkpoint)
      else if flag = ''--checkpoint'' then do { n \<leftarrow> atosize val; il_options flags (host, port, backend, n) }
      else il_options flags (host, port, backend, checkpoint))"

text \<open>
  \<open>net\<close> answers the connection attempt, \<open>steps\<close> are the iterations of the reader up to the end of the
  session: the loop of \<open>main\<close> waits for it or for an interrupt, and \<open>stop\<close> joins the reader.
\<close>

definition itch_listen_main ::
  "(StockLocate list \<Rightarrow> StockLocate list) \<Rightarrow> (string \<Rightarrow> u16 \<Rightarrow> (int \<times> bool) list option) \<Rightarrow> RecvStep list \<Rightarrow> string list \<Rightarrow> ToolRun option" where
  "itch_listen_main walk net steps argv = do {
     (host, port, backend, checkpoint) \<leftarrow> il_options (flag_pairs (drop 1 argv)) ([], 0, Reference, 1);
     if host = [] \<or> port = 0 then
       Some (tool_fail (''usage: itch_listen --host H --port P [--matcher reference|optimized] [--checkpoint N]'' @ newline @
         ''connects as a TCP client to H:P -- run a mock/local server first, not a real feed yet''))
     else do {
       let X = new_ItchSocketPipeline \<lparr>tfc_host = host, tfc_port = port, tfc_recvBufferSize = 65536\<rparr> backend checkpoint;
       let (ok, X) = isp_start (fst (connectSocket (net host port))) X;
       if \<not> ok then Some (tool_fail (''failed to connect to '' @ host @ '':'' @ decimal (unat port)))
       else do {
         X \<leftarrow> isp_run walk steps X;
         let parity = pc_report (isp_checker (isp_sink X));
         Some \<lparr>tool_exit = (if pr_mismatchCount parity = 0 then 0 else 1),
           tool_out = print_parity (isp_messagesDecoded (isp_sink X)) (isp_messagesSkipped X) parity False,
           tool_err = []\<rparr> } } }"

section \<open>What the tools print\<close>

text \<open>The counts per type that \<open>itch_dump\<close> prints add up to the number of decoded messages of its last line.\<close>

lemma dump_count_sum:
  assumes "omap_ok m"
  shows "omap_ok (dump_count r m)" "sum_list (map snd (dump_count r m)) = sum_list (map snd m) + (if pr_ok r then 1 else 0)"
proof -
  show "omap_ok (dump_count r m)" using assms by (simp add: dump_count_def omap_ok_set)
  show "sum_list (map snd (dump_count r m)) = sum_list (map snd m) + (if pr_ok r then 1 else 0)"
  proof (cases "map_of m (pr_rawType r)")
    case None
    then show ?thesis
      using omap_sum_insert(1) [OF assms None, of snd 1] by (simp add: dump_count_def omap_at_def)
  next
    case (Some n)
    then show ?thesis
      using omap_sum_update(1) [OF assms Some, of snd "n + 1"] by (simp add: dump_count_def omap_at_def)
  qed
qed

lemma dump_counts_sum:
  assumes "omap_ok m"
  shows "sum_list (map snd (fold dump_count rs m)) = sum_list (map snd m) + length (filter pr_ok rs)"
  using assms by (induction rs arbitrary: m) (auto simp: dump_count_sum)

lemma itch_dump_total:
  assumes "parser_feed new_ItchParser bytes = Some (results, parser)"
  shows "sum_list (map snd (fold dump_count results [])) = ip_messagesDecoded parser"
  using dump_counts_sum [of "[]" results] parser_counters [OF assms] by (simp add: new_ItchParser_def)

lemma replay_engine_backend:
  assumes "cp \<noteq> 0"
  shows "\<exists>result R1 R2. replayFile walk cp (new_InstrumentRegistry b1) bytes = Some (result, R1) \<and>
    replayFile walk cp (new_InstrumentRegistry b2) bytes = Some (result, R2)"
  using replayFile_sim [OF reg_sim_new assms, of walk b1 bytes b2] by (auto simp: both_def)

lemma br_options_depth: "bc_bookDepth (fst (br_options flags st)) = bc_bookDepth (fst st)"
  by (induction flags st rule: br_options.induct) auto

section \<open>Properties\<close>

text \<open>
  C30. The choice of the matcher cannot be seen from outside: \<open>replay_engine\<close> with a checkpoint interval that is
  not zero always ends, with an exit code that tells whether its output reports mismatches, and prints the same
  for all arguments that differ in \<open>--matcher\<close> only; so does \<open>backtest_run\<close>, whatever file, symbol
  filter and arguments it is given.
\<close>

theorem matcher_flag_invisible:
  assumes "re_options (flag_pairs args) (1, Reference) = Some (cp, b1)"
    and "re_options (flag_pairs args') (1, Reference) = Some (cp, b2)" "cp \<noteq> 0"
    and "snd (br_options (flag_pairs flags) (\<lparr>bc_backend = Reference, bc_bookDepth = 10\<rparr>, [])) =
         snd (br_options (flag_pairs flags') (\<lparr>bc_backend = Reference, bc_bookDepth = 10\<rparr>, []))"
  shows "(\<exists>parity decoded skipped. replay_engine_main walk fs (prog # path # args) =
        Some \<lparr>tool_exit = (if pr_mismatchCount parity = 0 then 0 else 1),
          tool_out = print_parity decoded skipped parity True, tool_err = []\<rparr>) \<and>
    replay_engine_main walk fs (prog # path # args) = replay_engine_main walk fs (prog # path # args') \<and>
    backtest_run_main walk walkSymbols books elapsed fs (prog # path # flags) =
    backtest_run_main walk walkSymbols books elapsed fs (prog # path # flags')"
proof -
  obtain result R1 R2 where r: "replayFile walk cp (new_InstrumentRegistry b1) (read_bytes fs path) = Some (result, R1)"
    "replayFile walk cp (new_InstrumentRegistry b2) (read_bytes fs path) = Some (result, R2)"
    using replay_engine_backend [OF assms(3)] by blast
  have main: "replay_engine_main walk fs (prog # path # as) = Some \<lparr>tool_exit = (if pr_mismatchCount (rr_parity result) = 0 then 0 else 1),
      tool_out = print_parity (rr_messagesDecoded result) (rr_messagesSkipped result) (rr_parity result) True, tool_err = []\<rparr>"
    if "re_options (flag_pairs as) (1, Reference) = Some (cp, b)" "b = b1 \<or> b = b2" for as b
    using that r by (auto simp: replay_engine_main_def Let_def)
  obtain c1 c2 f where c: "br_options (flag_pairs flags) (\<lparr>bc_backend = Reference, bc_bookDepth = 10\<rparr>, []) = (c1, f)"
    "br_options (flag_pairs flags') (\<lparr>bc_backend = Reference, bc_bookDepth = 10\<rparr>, []) = (c2, f)"
    using assms(4) by (metis prod.collapse)
  then have "bc_bookDepth c1 = 10" "bc_bookDepth c2 = 10"
    using br_options_depth [of "flag_pairs flags"] br_options_depth [of "flag_pairs flags'"] by (metis fst_conv BacktestConfig.select_convs(2))+
  then have "c1 = \<lparr>bc_backend = bc_backend c1, bc_bookDepth = 10\<rparr>" "c2 = \<lparr>bc_backend = bc_backend c2, bc_bookDepth = 10\<rparr>"
    by (cases c1; cases c2; simp)+
  then have "backtest_replayFile walk walkSymbols c1 elapsed bytes False = backtest_replayFile walk walkSymbols c2 elapsed bytes False" for bytes
    using backtest_sim by metis
  then have "backtest_run_main walk walkSymbols books elapsed fs (prog # path # flags) =
      backtest_run_main walk walkSymbols books elapsed fs (prog # path # flags')"
    by (simp add: backtest_run_main_def c Let_def)
  with main [OF assms(1)] main [OF assms(2)] show ?thesis by auto
qed

theorem matcher_flag_invisible_witness:
  "replay_engine_main id (\<lambda>_. Some [0, 5, 84, 0, 0, 1, 0]) [''replay_engine'', ''day.itch'', ''--matcher'', ''optimized''] =
   replay_engine_main id (\<lambda>_. Some [0, 5, 84, 0, 0, 1, 0]) [''replay_engine'', ''day.itch''] \<and>
   replay_engine_main id (\<lambda>_. Some [0, 5, 84, 0, 0, 1, 0]) [''replay_engine'', ''day.itch''] \<noteq> None"
  using matcher_flag_invisible [of "[''--matcher'', ''optimized'']" 1 Optimized "[]" Reference "[]" "[]" id
      "\<lambda>_. Some [0, 5, 84, 0, 0, 1, 0]" "''replay_engine''" "''day.itch''"] by auto metis

end
