(* ===== verification/Feed_Market.thy ===== *)
theory Feed_Market
  imports Itch_Replay
begin

text \<open>
  The market a feed tells about: queues of orders per stock that are added, executed from the front, cut,
  deleted and replaced, known by the reference numbers of the feed alone.  This is a specification and not code of
  the repository: \<open>mkt_step\<close> tells which messages an orderly feed holds and what they do to the market.  It asks for
  more than \<open>docs/itch-notes.md\<close> does, where the adapter would part from the feed's book otherwise: reference
  numbers are unique over all stocks and not used again, and a replacement at the same price asks for more
  shares (the last section of \<open>Feed_Parity\<close> evaluates feeds that break these conditions).  The book of the engine and the book of \<open>ItchBookBuilder\<close>
  (\<open>feed/itch/book_builder.cpp\<close>) are each related to a book of the market (\<open>engine_tracks\<close>, \<open>builder_tracks\<close>),
  the operations of the market keep both relations, and two books so related have the same best levels.
\<close>

section \<open>The market behind a feed\<close>

record Market =
  mkt_books :: "StockLocate \<rightharpoonup> string \<times> book"
  mkt_symbols :: "string list"
  mkt_used :: "OrderRefNumber list"

definition empty_Market :: Market where
  "empty_Market = \<lparr>mkt_books = Map.empty, mkt_symbols = [], mkt_used = []\<rparr>"

definition mkt_find :: "book \<Rightarrow> OrderRefNumber \<Rightarrow> Order option" where
  "mkt_find b ref = List.find (\<lambda>r. order_id r = ref) (b Buy @ b Sell)"

text \<open>Take shares off an order where it stands; an order with none left is gone.\<close>

definition cut_order :: "OrderRefNumber \<Rightarrow> Quantity \<Rightarrow> Order \<Rightarrow> Order" where
  "cut_order ref shares r =
     (if order_id r = ref then r\<lparr>order_quantity := order_quantity r - min shares (order_quantity r)\<rparr> else r)"

definition mkt_cut :: "book \<Rightarrow> OrderRefNumber \<Rightarrow> Quantity \<Rightarrow> book" where
  "mkt_cut b ref shares = (\<lambda>s. filter (\<lambda>r. order_quantity r \<noteq> 0) (map (cut_order ref shares) (b s)))"

text \<open>
  A reference number is used once, and lies below the range the adapter keeps for its own orders
  (\<open>docs/itch-notes.md\<close>: that range starts at 1,000,000,000 to stay clear of reference numbers).
\<close>

definition first_synthetic :: OrderId where
  "first_synthetic = 1000000000"

definition mkt_new_ref :: "Market \<Rightarrow> OrderRefNumber \<Rightarrow> bool" where
  "mkt_new_ref M ref \<longleftrightarrow> ref \<notin> set (mkt_used M) \<and> ref < first_synthetic"

text \<open>An order the market can take: it has a price and shares, and does not cross the other side.\<close>

definition mkt_restable :: "book \<Rightarrow> Side \<Rightarrow> Price \<Rightarrow> Quantity \<Rightarrow> bool" where
  "mkt_restable b side price shares \<longleftrightarrow> price \<noteq> 0 \<and> shares \<noteq> 0 \<and>
     (\<forall>r\<in>set (b (opposite side)). \<not> crosses side price (order_price r))"

definition mkt_put :: "Market \<Rightarrow> StockLocate \<Rightarrow> string \<Rightarrow> book \<Rightarrow> OrderRefNumber list \<Rightarrow> Market" where
  "mkt_put M locate symbol b refs =
     M\<lparr>mkt_books := (mkt_books M)(locate \<mapsto> (symbol, b)), mkt_used := refs @ mkt_used M\<rparr>"

text \<open>A stock has one locate: it may be announced again, but neither may change.\<close>

definition mkt_register :: "Market \<Rightarrow> StockLocate \<Rightarrow> string \<Rightarrow> Market option" where
  "mkt_register M locate symbol =
     (case mkt_books M locate of
        Some (s, b) \<Rightarrow> if s = symbol then Some M else None
      | None \<Rightarrow> if symbol \<in> set (mkt_symbols M) then None
                else Some ((mkt_put M locate symbol empty_book [])\<lparr>mkt_symbols := symbol # mkt_symbols M\<rparr>))"

text \<open>Messages for a stock that was not announced say nothing.\<close>

definition mkt_on :: "Market \<Rightarrow> StockLocate \<Rightarrow> (string \<Rightarrow> book \<Rightarrow> Market option) \<Rightarrow> Market option" where
  "mkt_on M locate f = (case mkt_books M locate of None \<Rightarrow> Some M | Some (symbol, b) \<Rightarrow> f symbol b)"

definition mkt_add :: "Market \<Rightarrow> AddOrderMessage \<Rightarrow> Market option" where
  "mkt_add M m = mkt_on M (ao_stockLocate m) (\<lambda>symbol b.
     let side = (if ao_buySellIndicator m = CHR ''B'' then Buy else Sell);
         ref = ao_orderReferenceNumber m; price = ucast (ao_price m); shares = ucast (ao_shares m) in
     if mkt_new_ref M ref \<and> mkt_restable b side price shares
     then Some (mkt_put M (ao_stockLocate m) symbol (spec_rest b (limit_order ref side price shares)) [ref])
     else None)"

text \<open>
  Executions hit the order at the front of its side, for no more shares than it has, and at a price
  that is no worse for the order than its own limit.
\<close>

definition mkt_execute :: "Market \<Rightarrow> StockLocate \<Rightarrow> OrderRefNumber \<Rightarrow> u32 \<Rightarrow> u32 option \<Rightarrow> Market option" where
  "mkt_execute M locate ref shares price =
     (case mkt_books M locate of
        None \<Rightarrow> None
      | Some (symbol, b) \<Rightarrow>
          (case mkt_find b ref of
             None \<Rightarrow> None
           | Some r \<Rightarrow>
               if hd (b (order_side r)) = r \<and> shares \<noteq> 0 \<and> ucast shares \<le> order_quantity r \<and>
                  (case price of None \<Rightarrow> True
                   | Some p \<Rightarrow> p \<noteq> 0 \<and> crosses (opposite (order_side r)) (ucast p) (order_price r))
               then Some (mkt_put M locate symbol (mkt_cut b ref (ucast shares)) []) else None))"

definition mkt_cancel :: "Market \<Rightarrow> OrderCancelMessage \<Rightarrow> Market option" where
  "mkt_cancel M m = mkt_on M (ox_stockLocate m) (\<lambda>symbol b.
     if mkt_find b (ox_orderReferenceNumber m) = None then None
     else Some (mkt_put M (ox_stockLocate m) symbol (mkt_cut b (ox_orderReferenceNumber m) (ucast (ox_cancelledShares m))) []))"

definition mkt_delete :: "Market \<Rightarrow> OrderDeleteMessage \<Rightarrow> Market option" where
  "mkt_delete M m = mkt_on M (od_stockLocate m) (\<lambda>symbol b.
     if mkt_find b (od_orderReferenceNumber m) = None then None
     else Some (mkt_put M (od_stockLocate m) symbol (spec_cancel b (od_orderReferenceNumber m)) []))"

text \<open>
  A replaced order goes to the back of its new level.  An order that gives up shares at its price has to be
  cut, not replaced: the exchange would keep its place.
\<close>

definition mkt_replace :: "Market \<Rightarrow> OrderReplaceMessage \<Rightarrow> Market option" where
  "mkt_replace M m = mkt_on M (ou_stockLocate m) (\<lambda>symbol b.
     (case mkt_find b (ou_originalOrderReferenceNumber m) of
        None \<Rightarrow> None
      | Some r \<Rightarrow>
          let ref = ou_newOrderReferenceNumber m; price = ucast (ou_price m); shares = ucast (ou_shares m) in
          if mkt_new_ref M ref \<and> mkt_restable b (order_side r) price shares \<and>
             (price \<noteq> order_price r \<or> order_quantity r < shares)
          then Some (mkt_put M (ou_stockLocate m) symbol
            (spec_rest (spec_cancel b (ou_originalOrderReferenceNumber m)) (limit_order ref (order_side r) price shares)) [ref])
          else None))"

fun mkt_step :: "Market \<Rightarrow> ItchMessage \<Rightarrow> Market option" where
  "mkt_step M (SystemEvent m) = Some (if se_eventCode m = CHR ''C'' then empty_Market else M)"
| "mkt_step M (StockDirectory m) = mkt_register M (sd_stockLocate m) (trimTrailingSpaces (sd_stock m))"
| "mkt_step M (AddOrder m) = mkt_add M m"
| "mkt_step M (AddOrderMpid m) = mkt_add M (am_base m)"
| "mkt_step M (OrderExecuted m) =
     mkt_execute M (oe_stockLocate m) (oe_orderReferenceNumber m) (oe_executedShares m) None"
| "mkt_step M (OrderExecutedWithPrice m) =
     mkt_execute M (oe_stockLocate (oc_base m)) (oe_orderReferenceNumber (oc_base m))
       (oe_executedShares (oc_base m)) (Some (oc_executionPrice m))"
| "mkt_step M (OrderCancel m) = mkt_cancel M m"
| "mkt_step M (OrderDelete m) = mkt_delete M m"
| "mkt_step M (OrderReplace m) = mkt_replace M m"
| "mkt_step M (TimestampSeconds m) = Some M"

fun mkt_run :: "Market \<Rightarrow> ItchMessage list \<Rightarrow> Market option" where
  "mkt_run M [] = Some M"
| "mkt_run M (m # ms) = do { M1 \<leftarrow> mkt_step M m; mkt_run M1 ms }"

section \<open>The engine's book follows the market\<close>

text \<open>
  Up to the status, which the matcher's copies need not keep, and the account, which a feed does not
  tell, the book of the engine is the one of the market with every reference number replaced by the
  engine's id for it.
\<close>

definition plain :: "Order \<Rightarrow> Order" where
  "plain r = r\<lparr>order_accountId := 0, order_status := New\<rparr>"

definition renamed :: "(OrderRefNumber \<Rightarrow> OrderId) \<Rightarrow> Order \<Rightarrow> Order" where
  "renamed f r = r\<lparr>order_id := f (order_id r)\<rparr>"

definition engine_tracks :: "(OrderRefNumber \<Rightarrow> OrderId) \<Rightarrow> book \<Rightarrow> book \<Rightarrow> bool" where
  "engine_tracks f b e \<longleftrightarrow> (\<forall>s. map plain (e s) = map (renamed f) (b s))"

lemma plain_sel [simp]:
  "order_id (plain r) = order_id r" "order_side (plain r) = order_side r" "order_price (plain r) = order_price r"
  "order_quantity (plain r) = order_quantity r" "order_type (plain r) = order_type r" "order_tif (plain r) = order_tif r"
  by (simp_all add: plain_def)

lemma same_order_plain: "same_order x r \<Longrightarrow> plain x = plain r"
  by (cases x; cases r) (simp add: plain_def same_order_def)

lemma renamed_sel [simp]:
  "order_id (renamed f r) = f (order_id r)" "order_side (renamed f r) = order_side r"
  "order_price (renamed f r) = order_price r" "order_quantity (renamed f r) = order_quantity r"
  "order_accountId (renamed f r) = order_accountId r" "order_type (renamed f r) = order_type r"
  "order_tif (renamed f r) = order_tif r"
  by (simp_all add: renamed_def)

lemma tracks_all2: "engine_tracks f b e \<longleftrightarrow> (\<forall>s. list_all2 (\<lambda>x y. plain x = renamed f y) (e s) (b s))"
  by (simp add: engine_tracks_def list_all2_map1 list_all2_map2 flip: list.rel_eq)

lemma tracks_map:
  assumes "engine_tracks f b e" "\<And>x y. plain x = renamed f y \<Longrightarrow> g x = h y"
  shows "map g (e s) = map h (b s)"
proof -
  have "list_all2 (\<lambda>x y. plain x = renamed f y) (e s) (b s)" using assms(1) by (simp add: tracks_all2)
  then show ?thesis by (induction rule: list_all2_induct) (simp_all add: assms(2))
qed

lemma plain_renamed:
  assumes "plain x = renamed f y"
  shows "order_id x = f (order_id y)" "order_side x = order_side y" "order_price x = order_price y"
    "order_quantity x = order_quantity y"
proof -
  note plain_sel(1-4) [of x] renamed_sel(1-4) [of f y]
  with assms show "order_id x = f (order_id y)" "order_side x = order_side y" "order_price x = order_price y"
    "order_quantity x = order_quantity y" by simp_all
qed

lemma tracks_views:
  assumes "engine_tracks f b e"
  shows "map order_price (e s) = map order_price (b s)" "map order_quantity (e s) = map order_quantity (b s)"
    "map order_side (e s) = map order_side (b s)" "map order_id (e s) = map (\<lambda>r. f (order_id r)) (b s)"
    "map (\<lambda>r. (order_price r, order_quantity r)) (e s) = map (\<lambda>r. (order_price r, order_quantity r)) (b s)"
  by (rule tracks_map [OF assms], auto intro: plain_renamed)+

text \<open>A tracked book is well formed because the engine's is.\<close>

lemma tracks_queue:
  assumes "engine_tracks f b e" "queue_ok s (e s)"
  shows "queue_ok s (b s)"
proof -
  note v = tracks_views [OF assms(1), of s]
  have "sorted_wrt (ahead s) (map order_price (b s))"
    using assms(2) unfolding v(1) [symmetric] by (simp add: queue_ok_def sorted_wrt_map)
  moreover have "set (map order_side (b s)) \<subseteq> {s}" "0 \<notin> set (map order_quantity (b s))"
    using assms(2) unfolding v(2,3) [symmetric] by (auto simp: queue_ok_def)
  moreover have "distinct (map order_id (b s))"
  proof -
    have "distinct (map f (map order_id (b s)))" using assms(2) v(4) by (simp add: queue_ok_def comp_def)
    then show ?thesis by (simp only: distinct_map)
  qed
  ultimately show ?thesis by (auto simp: queue_ok_def sorted_wrt_map)
qed

lemma tracks_inj:
  assumes "engine_tracks f b e" "book_ok e"
  shows "inj_on f (book_ids b)"
proof -
  let ?ids = "map order_id (b Buy) @ map order_id (b Sell)"
  have "map f ?ids = map order_id (e Buy) @ map order_id (e Sell)" by (simp add: tracks_views(4) [OF assms(1)])
  moreover have "distinct (map order_id (e Buy) @ map order_id (e Sell))"
    using assms(2) by (auto simp: book_ok_def queue_ok_def)
  ultimately have "distinct (map f ?ids)" by simp
  then have "inj_on f (set ?ids)" by (simp only: distinct_map)
  then show ?thesis by (simp add: book_ids_two)
qed

lemma tracks_book_ok:
  assumes "engine_tracks f b e" "book_ok e"
  shows "book_ok b"
proof -
  have "order_id ` set (b Buy) \<inter> order_id ` set (b Sell) = {}"
  proof (rule ccontr)
    assume "\<not> ?thesis"
    then obtain i where "i \<in> set (map order_id (b Buy))" "i \<in> set (map order_id (b Sell))" by auto
    then have "f i \<in> set (map order_id (e Buy))" "f i \<in> set (map order_id (e Sell))"
      by (auto simp: tracks_views(4) [OF assms(1)])
    with assms(2) show False by (auto simp: book_ok_def)
  qed
  moreover have "uncrossed b"
  proof -
    have "\<forall>p\<in>set (map order_price (e Buy)). \<forall>q\<in>set (map order_price (e Sell)). p < q"
      using assms(2) by (auto simp: book_ok_def uncrossed_def)
    then show ?thesis unfolding tracks_views(1) [OF assms(1)] by (auto simp: uncrossed_def)
  qed
  ultimately show ?thesis
    using tracks_queue [OF assms(1)] book_ok_queue [OF assms(2)] by (simp add: book_ok_def)
qed

lemma tracks_ids: "engine_tracks f b e \<Longrightarrow> book_ids e = f ` book_ids b"
proof -
  assume "engine_tracks f b e"
  then have "set (map order_id (e s)) = set (map (\<lambda>r. f (order_id r)) (b s))" for s by (simp only: tracks_views(4))
  then show ?thesis by (simp add: book_ids_two image_Un image_image)
qed

lemma tracks_no_cross:
  assumes "engine_tracks f b e"
  shows "(\<forall>r\<in>set (e s). \<not> crosses t p (order_price r)) \<longleftrightarrow> (\<forall>r\<in>set (b s). \<not> crosses t p (order_price r))"
proof -
  have "(\<forall>q\<in>set (map order_price (e s)). \<not> crosses t p q) \<longleftrightarrow> (\<forall>q\<in>set (map order_price (b s)). \<not> crosses t p q)"
    by (simp only: tracks_views(1) [OF assms])
  then show ?thesis by simp
qed

lemma tracks_cong:
  assumes "engine_tracks f b e" "\<And>i. i \<in> book_ids b \<Longrightarrow> g i = f i"
  shows "engine_tracks g b e"
proof -
  have "map (renamed g) (b s) = map (renamed f) (b s)" for s
    using assms(2) by (auto simp: renamed_def in_book_ids)
  with assms(1) show ?thesis by (simp add: engine_tracks_def)
qed

text \<open>The operations keep both books in step.\<close>

lemma map_enqueue:
  assumes "\<And>r. order_price (g r) = order_price r"
  shows "map g (enqueue s x q) = enqueue s (g x) (map g q)"
proof -
  have "takeWhile (\<lambda>r. ahead s (order_price r) p) (map g q) = map g (takeWhile (\<lambda>r. ahead s (order_price r) p) q)"
    "dropWhile (\<lambda>r. ahead s (order_price r) p) (map g q) = map g (dropWhile (\<lambda>r. ahead s (order_price r) p) q)" for p
    by (simp_all add: takeWhile_map dropWhile_map comp_def assms)
  then show ?thesis by (simp add: enqueue_def assms)
qed

lemma tracks_rest:
  assumes "engine_tracks f b e" "plain x = renamed f y"
  shows "engine_tracks f (spec_rest b y) (spec_rest e x)"
proof -
  have "order_side x = order_side y" by (rule plain_renamed [OF assms(2)])
  then show ?thesis
    using assms by (simp add: engine_tracks_def spec_rest_def map_enqueue)
qed

lemma tracks_cancel:
  assumes "engine_tracks f b e" "book_ok e" "ref \<in> book_ids b"
  shows "engine_tracks f (spec_cancel b ref) (spec_cancel e (f ref))"
  unfolding engine_tracks_def
proof
  fix s
  have iff: "f (order_id r) = f ref \<longleftrightarrow> order_id r = ref" if "r \<in> set (b s)" for r
    using inj_on_eq_iff [OF tracks_inj [OF assms(1,2)] in_book_ids [where b = b, OF that] assms(3)] .
  have "map plain (spec_cancel e (f ref) s) = filter (\<lambda>r. order_id r \<noteq> f ref) (map plain (e s))"
    by (simp add: spec_cancel_def filter_map comp_def)
  also have "\<dots> = filter (\<lambda>r. order_id r \<noteq> f ref) (map (renamed f) (b s))"
    using assms(1) by (simp add: engine_tracks_def)
  also have "\<dots> = map (renamed f) (spec_cancel b ref s)"
    using iff by (auto simp: spec_cancel_def filter_map comp_def intro!: arg_cong [where f = "map (renamed f)"] filter_cong)
  finally show "map plain (spec_cancel e (f ref) s) = map (renamed f) (spec_cancel b ref s)" .
qed

lemma mkt_find_Some:
  assumes "mkt_find b ref = Some y" "book_ok b"
  shows "y \<in> set (b (order_side y))" "order_id y = ref" "ref \<in> book_ids b" "order_quantity y \<noteq> 0"
proof -
  have "y \<in> set xs \<and> order_id y = ref" if "List.find (\<lambda>r. order_id r = ref) xs = Some y" for xs
    using that by (induction xs) (auto split: if_splits)
  from this [of "b Buy @ b Sell"] assms(1) have "y \<in> set (b Buy) \<or> y \<in> set (b Sell)" and ref: "order_id y = ref"
    by (auto simp: mkt_find_def)
  then obtain s where s: "y \<in> set (b s)" by blast
  then have "order_side y = s" "order_quantity y \<noteq> 0" using book_ok_queue [OF assms(2), of s] by (auto simp: queue_ok_def)
  with s ref in_book_ids [where b = b, OF s] show "y \<in> set (b (order_side y))" "order_id y = ref" "ref \<in> book_ids b"
    "order_quantity y \<noteq> 0" by simp_all
qed

lemma mkt_find_None: "mkt_find b ref = None \<longleftrightarrow> ref \<notin> book_ids b"
  by (auto simp: mkt_find_def find_None_iff book_ids_two)

lemma book_id_inj:
  assumes "book_ok b" "r \<in> set (b s)" "y \<in> set (b t)" "order_id r = order_id y"
  shows "r = y \<and> s = t"
proof -
  have "s = t" using assms in_mono by (cases s; cases t) (auto simp: book_ok_def)
  moreover have "r = y" if "s = t"
    using book_ok_queue [OF assms(1), of s] assms(2-4) that by (auto simp: queue_ok_def distinct_map inj_on_def)
  ultimately show ?thesis by blast
qed

lemma cut_order_simps:
  "order_id r \<noteq> ref \<Longrightarrow> cut_order ref shares r = r"
  "order_quantity r \<le> shares \<Longrightarrow> order_quantity (cut_order (order_id r) shares r) = 0"
  "shares < order_quantity r \<Longrightarrow> cut_order (order_id r) shares r = r\<lparr>order_quantity := order_quantity r - shares\<rparr>"
  by (auto simp: cut_order_def min_def)

lemma mkt_cut_all:
  assumes "book_ok b" "y \<in> set (b s)" "order_quantity y \<le> shares"
  shows "mkt_cut b (order_id y) shares = spec_cancel b (order_id y)"
proof
  fix t
  let ?g = "cut_order (order_id y) shares"
  have iff: "order_quantity (?g r) \<noteq> 0 \<longleftrightarrow> order_id r \<noteq> order_id y" if "r \<in> set (b t)" for r
  proof (cases "order_id r = order_id y")
    case True
    then have "r = y" using book_id_inj [OF assms(1) that assms(2)] by blast
    with True cut_order_simps(2) [OF assms(3)] show ?thesis by simp
  next
    case False
    with that book_ok_queue [OF assms(1), of t] show ?thesis by (auto simp: cut_order_simps(1) queue_ok_def)
  qed
  have "filter (\<lambda>r. order_quantity (?g r) \<noteq> 0) (b t) = filter (\<lambda>r. order_id r \<noteq> order_id y) (b t)"
    by (rule filter_cong [OF refl]) (rule iff)
  then have "mkt_cut b (order_id y) shares t = map ?g (filter (\<lambda>r. order_id r \<noteq> order_id y) (b t))"
    by (simp only: mkt_cut_def filter_map comp_def)
  also have "\<dots> = spec_cancel b (order_id y) t"
    unfolding spec_cancel_def by (rule map_idI) (simp add: cut_order_simps(1))
  finally show "mkt_cut b (order_id y) shares t = spec_cancel b (order_id y) t" .
qed

lemma mkt_cut_part:
  assumes "book_ok b" "y \<in> set (b s)" "shares < order_quantity y"
  shows "mkt_cut b (order_id y) shares =
    (\<lambda>t. map (\<lambda>r. if order_id r = order_id y then r\<lparr>order_quantity := order_quantity y - shares\<rparr> else r) (b t))"
proof
  fix t
  let ?g = "cut_order (order_id y) shares"
    and ?h = "\<lambda>r. if order_id r = order_id y then r\<lparr>order_quantity := order_quantity y - shares\<rparr> else r"
  have g: "?g r = ?h r \<and> order_quantity (?h r) \<noteq> 0" if "r \<in> set (b t)" for r
  proof (cases "order_id r = order_id y")
    case True
    then have "r = y" using book_id_inj [OF assms(1) that assms(2)] by blast
    with assms(3) show ?thesis by (auto simp: cut_order_simps(3))
  next
    case False
    with that book_ok_queue [OF assms(1), of t] show ?thesis by (auto simp: cut_order_simps(1) queue_ok_def)
  qed
  then have "map ?g (b t) = map ?h (b t)" by simp
  moreover have "filter (\<lambda>r. order_quantity r \<noteq> 0) (map ?h (b t)) = map ?h (b t)"
    by (rule filter_True) (use g in force)
  ultimately show "mkt_cut b (order_id y) shares t = map ?h (b t)" unfolding mkt_cut_def by (simp only:)
qed

lemma tracks_rebuild:
  assumes "engine_tracks f b e" "book_ok e" "y \<in> set (b s)" "orders (f (order_id y)) = Some new"
    and "plain new = renamed f (y\<lparr>order_quantity := q\<rparr>)"
    and "\<And>r. r \<in> set (e s) \<Longrightarrow> order_id r \<noteq> f (order_id y) \<Longrightarrow> \<exists>x. orders (order_id r) = Some x \<and> plain x = plain r"
  shows "engine_tracks f (\<lambda>t. map (\<lambda>r. if order_id r = order_id y then r\<lparr>order_quantity := q\<rparr> else r) (b t))
    (spec_rebuild orders s (order_price y) e)"
  unfolding tracks_all2
proof
  fix t
  note ok = tracks_book_ok [OF assms(1,2)]
  have R: "list_all2 (\<lambda>x r. plain x = renamed f r) (e t) (b t)" using assms(1) by (simp add: tracks_all2)
  have inj: "f (order_id r) = f (order_id y) \<longleftrightarrow> order_id r = order_id y" if "r \<in> set (b t)" for r
    using inj_on_eq_iff [OF tracks_inj [OF assms(1,2)] in_book_ids [where b = b, OF that] in_book_ids [where b = b, OF assms(3)]] .
  have eq: "r = y \<and> t = s" if "r \<in> set (b t)" "order_id r = order_id y" for r
    using book_id_inj [OF ok that(1) assms(3) that(2)] .
  show "list_all2 (\<lambda>x r. plain x = renamed f r) (spec_rebuild orders s (order_price y) e t)
      (map (\<lambda>r. if order_id r = order_id y then r\<lparr>order_quantity := q\<rparr> else r) (b t))"
  proof (cases "t = s")
    case False
    have same: "map (\<lambda>r. if order_id r = order_id y then r\<lparr>order_quantity := q\<rparr> else r) (b t) = b t"
      using eq False by (intro map_idI) auto
    show ?thesis unfolding same using R False by (simp add: spec_rebuild_def)
  next
    case True
    have "plain (if order_price x = order_price y then the (orders (order_id x)) else x) =
        renamed f (if order_id r = order_id y then r\<lparr>order_quantity := q\<rparr> else r)"
      if "x \<in> set (e t)" "r \<in> set (b t)" "plain x = renamed f r" for x r
    proof (cases "order_id r = order_id y")
      case same: True
      then have "r = y" "order_id x = f (order_id y)" "order_price x = order_price y"
        using eq [OF that(2) same] plain_renamed [OF that(3)] by simp_all
      then show ?thesis using assms(4,5) by simp
    next
      case diff: False
      then have "order_id x \<noteq> f (order_id y)" using inj [OF that(2)] plain_renamed(1) [OF that(3)] by simp
      then show ?thesis using assms(6) [of x] that True diff by auto
    qed
    then show ?thesis
      using R unfolding True by (auto simp: spec_rebuild_def list_all2_map1 list_all2_map2 list_all2_conv_all_nth)
  qed
qed

text \<open>An order that takes all or part of the front order of the other side.\<close>

lemma submit_front:
  assumes "e (opposite (order_side ord)) = x # q" "order_accountId ord = 0" "order_type ord = Limit"
    and "crosses (order_side ord) (order_price ord) (order_price x)" "order_quantity ord \<noteq> 0"
    and "order_quantity ord \<le> order_quantity x"
  shows "spec_submit e ord =
    ([\<lparr>trade_incoming = order_id ord, trade_resting = order_id x, trade_price = order_price x, trade_quantity = order_quantity ord\<rparr>],
     e(opposite (order_side ord) := if order_quantity x = order_quantity ord then q
       else x\<lparr>order_quantity := order_quantity x - order_quantity ord\<rparr> # q), 0)"
proof -
  have min: "min (order_quantity ord) (order_quantity x) = order_quantity ord" using assms(6) by (simp add: min_def)
  have zero: "stp_sweep s p i acc 0 rs = ([], rs, 0)" for s p i acc rs
    by (cases rs) (simp_all add: stp_sweep_simps)
  have "stp_sweep (order_side ord) (order_price ord) (order_id ord) 0 (order_quantity ord) (x # q) =
      ([\<lparr>trade_incoming = order_id ord, trade_resting = order_id x, trade_price = order_price x, trade_quantity = order_quantity ord\<rparr>],
       if order_quantity x = order_quantity ord then q else x\<lparr>order_quantity := order_quantity x - order_quantity ord\<rparr> # q, 0)"
    using assms(4,5) by (auto simp: stp_sweep_simps Let_def min collides_def zero word_gt_0)
  then show ?thesis
    using assms(1-3) by (simp add: spec_submit_def Let_def effective_price_def may_rest_def)
qed

lemma tracks_front:
  assumes "engine_tracks f b e" "book_ok e" "b s = y # q" "e s = x # q'" "shares \<noteq> 0" "shares \<le> order_quantity y"
  shows "engine_tracks f (mkt_cut b (order_id y) shares)
    (e(s := if order_quantity x = shares then q' else x\<lparr>order_quantity := order_quantity x - shares\<rparr> # q'))"
proof -
  note ok = tracks_book_ok [OF assms(1,2)]
  have y: "y \<in> set (b s)" by (simp add: assms(3))
  have xy: "plain x = renamed f y" "map plain q' = map (renamed f) q"
    using assms(1,3,4) by (auto simp: engine_tracks_def dest!: spec [of _ s])
  have "distinct (map order_id (y # q))" using book_ok_queue [OF ok, of s] by (simp add: assms(3) queue_ok_def)
  then have front: "order_id r \<noteq> order_id y" if "r \<in> set q" for r using that by (auto simp: image_iff)
  have other: "order_id r \<noteq> order_id y" if "r \<in> set (b t)" "t \<noteq> s" for r t
    using that book_id_inj [OF ok that(1) y] by blast
  have keep: "filter (\<lambda>r. order_id r \<noteq> order_id y) q = q"
    "map (\<lambda>r. if order_id r = order_id y then g r else r) q = q" for g
    using front by (auto intro!: filter_True map_idI)
  have keep': "filter (\<lambda>r. order_id r \<noteq> order_id y) (b t) = b t"
    "map (\<lambda>r. if order_id r = order_id y then g r else r) (b t) = b t" if "t \<noteq> s" for t g
    using other [OF _ that] by (auto intro!: filter_True map_idI)
  have cut: "mkt_cut b (order_id y) shares = b(s := if order_quantity y = shares then q else y\<lparr>order_quantity := order_quantity y - shares\<rparr> # q)"
  proof (cases "order_quantity y = shares")
    case True
    then show ?thesis
      using mkt_cut_all [OF ok y, of shares] keep(1) keep'(1) by (auto simp: spec_cancel_def fun_eq_iff assms(3))
  next
    case False
    then have "shares < order_quantity y" using assms(6) by auto
    from mkt_cut_part [OF ok y this] False show ?thesis using keep(2) keep'(2) by (auto simp: fun_eq_iff assms(3))
  qed
  have "plain (x\<lparr>order_quantity := order_quantity x - shares\<rparr>) = renamed f (y\<lparr>order_quantity := order_quantity y - shares\<rparr>)"
    using xy(1) by (cases x; cases y) (simp add: plain_def renamed_def)
  then show ?thesis
    using assms(1) xy plain_renamed(4) [OF xy(1)] by (auto simp: cut engine_tracks_def)
qed

section \<open>The feed's book follows the market\<close>

definition entry :: "Order \<Rightarrow> OrderRefNumber \<times> RestingOrder" where
  "entry r = (order_id r, \<lparr>ro_side = order_side r, ro_price = order_price r, ro_remainingShares = order_quantity r\<rparr>)"

definition book_orders :: "book \<Rightarrow> Order set" where
  "book_orders b = set (b Buy) \<union> set (b Sell)"

definition builder_tracks :: "nat \<Rightarrow> book \<Rightarrow> SymbolBook \<Rightarrow> bool" where
  "builder_tracks n b sb \<longleftrightarrow> sbook_ok n sb \<and> (\<forall>side. 0 \<notin> snd ` set (sb_levels side sb)) \<and>
     set (sb_orders sb) = entry ` book_orders b"

lemma builder_tracksD:
  assumes "builder_tracks n b sb"
  shows "sbook_ok n sb" "0 \<notin> snd ` set (sb_levels side sb)" "set (sb_orders sb) = entry ` book_orders b"
    "omap_ok (sb_orders sb)" "omap_ok (sb_levels side sb)"
  using assms by (simp_all add: builder_tracks_def sbook_ok_def)

lemma book_orders_side: "y \<in> set (b s) \<Longrightarrow> y \<in> book_orders b"
  by (cases s) (auto simp: book_orders_def)

lemma book_orders_ids: "order_id ` book_orders b = book_ids b"
  by (auto simp: book_orders_def book_ids_two)

lemma book_orders_inj: "book_ok b \<Longrightarrow> inj_on order_id (book_orders b)"
  unfolding inj_on_def book_orders_def using book_id_inj by blast

lemma map_of_set: "omap_ok m \<Longrightarrow> map_of m k = Some v \<longleftrightarrow> (k, v) \<in> set m"
  using omap_ok_distinct [of m] by (simp add: map_of_eq_Some_iff)

lemma set_omap_set: "omap_ok m \<Longrightarrow> set (omap_set k v m) = insert (k, v) {e \<in> set m. fst e \<noteq> k}"
  using omap_ok_set [of m k v] by (auto simp: map_of_set [symmetric] map_of_omap_set split: if_splits)

lemma builder_lookup:
  assumes "builder_tracks n b sb"
  shows "y \<in> book_orders b \<Longrightarrow> map_of (sb_orders sb) (order_id y) = Some (snd (entry y))"
    and "ref \<notin> book_ids b \<Longrightarrow> map_of (sb_orders sb) ref = None"
proof -
  note t = builder_tracksD [OF assms]
  show "map_of (sb_orders sb) (order_id y) = Some (snd (entry y))" if "y \<in> book_orders b"
    using that by (simp add: map_of_set [OF t(4)] t(3) entry_def image_iff) blast
  show "map_of (sb_orders sb) ref = None" if "ref \<notin> book_ids b"
    using that by (auto simp: map_of_eq_None_iff t(3) entry_def image_image book_orders_ids)
qed

lemma book_orders_rest: "book_orders (spec_rest b x) = insert x (book_orders b)"
  by (cases "order_side x") (auto simp: book_orders_def spec_rest_def set_enqueue)

lemma book_orders_cancel: "book_orders (spec_cancel b i) = {r \<in> book_orders b. order_id r \<noteq> i}"
  by (auto simp: book_orders_def spec_cancel_def)

lemma builder_add:
  assumes "builder_tracks n b sb" "ref \<notin> book_ids b" "shares \<noteq> 0" "unat shares < 2 ^ 32" "Suc n < 2 ^ 32"
  shows "builder_tracks (Suc n) (spec_rest b (limit_order ref side price shares)) (ibb_addOrder sb ref side shares price)"
proof -
  note t = builder_tracksD [OF assms(1)]
  let ?sb = "ibb_addOrder sb ref side shares price"
    and ?x = "\<lparr>ro_side = side, ro_price = price, ro_remainingShares = shares\<rparr>"
  have none: "map_of (sb_orders sb) ref = None" by (rule builder_lookup(2) [OF assms(1,2)])
  have ok: "sbook_ok (Suc n) ?sb" by (rule addOrder_ok [OF t(1) none assms(4,5)])
  have orders: "sb_orders ?sb = omap_set ref ?x (sb_orders sb)" by (simp add: ibb_addOrder_def)
  have "ref \<notin> fst ` set (sb_orders sb)" using none by (simp add: map_of_eq_None_iff)
  then have "set (sb_orders ?sb) = insert (ref, ?x) (set (sb_orders sb))"
    by (auto simp: orders set_omap_set [OF t(4)])
  then have set: "set (sb_orders ?sb) = entry ` book_orders (spec_rest b (limit_order ref side price shares))"
    by (simp add: t(3) book_orders_rest entry_def limit_order_def)
  have "unat shares \<le> unat (level_at ?sb side price)"
    using sbook_ok_share(1) [OF ok, of ref ?x] by (simp add: orders map_of_omap_set)
  then have nz: "level_at sb side price + shares \<noteq> 0" using assms(3) by (auto simp: ibb_addOrder_def unat_eq_0)
  have "sb_levels s ?sb = (if s = side then omap_set price (level_at sb side price + shares) (sb_levels side sb) else sb_levels s sb)" for s
    by (simp add: ibb_addOrder_def ibb_addLevel_def)
  then have "0 \<notin> snd ` set (sb_levels s ?sb)" for s
    using nz t(2) [of s] by (auto simp: set_omap_set [OF t(5)] split: if_splits)
  with ok set show ?thesis by (simp add: builder_tracks_def)
qed

lemma removeLevel_nonzero:
  assumes "\<And>s. 0 \<notin> snd ` set (sb_levels s sb)" "\<And>s. omap_ok (sb_levels s sb)"
  shows "0 \<notin> snd ` set (sb_levels s (ibb_removeLevel sb side price qty))"
  using assms(1) [of s] assms(2) [of side]
  by (auto simp: ibb_removeLevel_def set_omap_set omap_erase_def split: option.splits if_splits)

lemma builder_cut:
  assumes "builder_tracks n b sb" "book_ok b" "y \<in> set (b s)"
  shows "builder_tracks n (mkt_cut b (order_id y) shares) (ibb_reduceOrder sb (order_id y) shares)"
proof -
  note t = builder_tracksD [OF assms(1)]
  let ?sb = "ibb_reduceOrder sb (order_id y) shares" and ?x = "snd (entry y)"
  have y: "y \<in> book_orders b" by (rule book_orders_side [where b = b, OF assms(3)])
  have x: "map_of (sb_orders sb) (order_id y) = Some ?x" by (rule builder_lookup(1) [OF assms(1) y])
  have rem: "ro_remainingShares ?x = order_quantity y" by (simp add: entry_def)
  have others: "{e \<in> set (sb_orders sb). fst e \<noteq> order_id y} = entry ` {r \<in> book_orders b. order_id r \<noteq> order_id y}"
    unfolding t(3) by (fastforce simp: entry_def)
  have ok: "sbook_ok n ?sb" by (rule reduceOrder_ok [OF t(1)])
  have levels: "0 \<notin> snd ` set (sb_levels r ?sb)" for r
    using removeLevel_nonzero [OF t(2,5)] x by (auto simp: ibb_reduceOrder_def Let_def)
  have "set (sb_orders ?sb) = entry ` book_orders (mkt_cut b (order_id y) shares)"
  proof (cases "order_quantity y \<le> shares")
    case True
    then have "sb_orders ?sb = omap_erase (order_id y) (sb_orders sb)"
      using x by (simp add: ibb_reduceOrder_def rem Let_def min_def)
    with True show ?thesis
      by (simp add: mkt_cut_all [OF assms(2,3)] book_orders_cancel omap_erase_def others)
  next
    case False
    let ?y = "y\<lparr>order_quantity := order_quantity y - shares\<rparr>"
    have "shares \<le> order_quantity y" using False by simp
    then have "sb_orders ?sb = omap_set (order_id y) (?x\<lparr>ro_remainingShares := order_quantity y - shares\<rparr>) (sb_orders sb)"
      using False x by (simp add: ibb_reduceOrder_def rem Let_def min_def)
    then have "set (sb_orders ?sb) = insert (entry ?y) (entry ` {r \<in> book_orders b. order_id r \<noteq> order_id y})"
      by (simp add: set_omap_set [OF t(4)] others) (simp add: entry_def)
    moreover have "book_orders (mkt_cut b (order_id y) shares) = insert ?y {r \<in> book_orders b. order_id r \<noteq> order_id y}"
    proof -
      have one: "r = y" if "r \<in> book_orders b" "order_id r = order_id y" for r
        using inj_onD [OF book_orders_inj [OF assms(2)] that(2) that(1) y] .
      have "book_orders (mkt_cut b (order_id y) shares) =
          (\<lambda>r. if order_id r = order_id y then r\<lparr>order_quantity := order_quantity y - shares\<rparr> else r) ` book_orders b"
        using False by (subst mkt_cut_part [OF assms(2,3)]) (simp_all only: book_orders_def set_map image_Un not_le)
      also have "\<dots> = insert ?y {r \<in> book_orders b. order_id r \<noteq> order_id y}"
        using y one by (auto simp: image_iff)
      finally show ?thesis .
    qed
    ultimately show ?thesis by simp
  qed
  with ok levels show ?thesis by (simp add: builder_tracks_def)
qed

lemma builder_delete:
  assumes "builder_tracks n b sb" "book_ok b" "y \<in> set (b s)"
  shows "builder_tracks n (spec_cancel b (order_id y)) (ibb_deleteOrder sb (order_id y))"
proof -
  have "map_of (sb_orders sb) (order_id y) = Some (snd (entry y))"
    by (rule builder_lookup(1) [OF assms(1) book_orders_side [where b = b, OF assms(3)]])
  then have "ibb_deleteOrder sb (order_id y) = ibb_reduceOrder sb (order_id y) (order_quantity y)"
    by (simp add: deleteOrder_reduce entry_def)
  with builder_cut [OF assms, of "order_quantity y"] mkt_cut_all [OF assms(2,3) order_refl] show ?thesis by simp
qed

lemma builder_tracks_mono: "builder_tracks n b sb \<Longrightarrow> n \<le> k \<Longrightarrow> builder_tracks k b sb"
  by (auto simp: builder_tracks_def intro: sbook_ok_mono)

lemmas builder_tracks_Suc = builder_tracks_mono [OF _ le_SucI [OF order_refl]]

section \<open>Both show the same top of the book\<close>

lemma tracked_shares:
  assumes "builder_tracks n b sb" "book_ok b"
  shows "resting_shares sb s p = (\<Sum>r\<leftarrow>filter (\<lambda>r. order_price r = p) (b s). unat (order_quantity r))"
proof -
  note t = builder_tracksD [OF assms(1)]
  let ?q = "\<lambda>r. if order_price r = p then unat (order_quantity r) else 0"
  have ent: "inj_on entry (book_orders b)"
    using book_orders_inj [OF assms(2)] by (auto simp: inj_on_def entry_def)
  have share: "share_of s p (entry r) = (if order_side r = s then ?q r else 0)" for r by (simp add: share_of_def entry_def)
  have side: "order_side r = u" if "r \<in> set (b u)" for r u
    using that book_ok_queue [OF assms(2), of u] by (auto simp: queue_ok_def)
  have "distinct (sb_orders sb)" using omap_ok_distinct [OF t(4)] by (simp add: distinct_map)
  then have "resting_shares sb s p = sum (share_of s p) (set (sb_orders sb))"
    by (simp add: resting_shares_sum sum_list_distinct_conv_sum_set)
  also have "\<dots> = (\<Sum>r\<in>book_orders b. if order_side r = s then ?q r else 0)"
    by (simp add: t(3) sum.reindex [OF ent] share)
  also have "\<dots> = (\<Sum>r\<in>set (b s). ?q r)"
  proof (rule sum.mono_neutral_cong_right)
    show "finite (book_orders b)" by (simp add: book_orders_def)
    show "set (b s) \<subseteq> book_orders b" using book_orders_side [where b = b] by blast
    show "\<forall>r\<in>book_orders b - set (b s). (if order_side r = s then ?q r else 0) = 0"
      using side by (fastforce simp: book_orders_def)
    show "(if order_side r = s then ?q r else 0) = ?q r" if "r \<in> set (b s)" for r using side [OF that] by simp
  qed
  also have "\<dots> = sum_list (map ?q (b s))"
    using book_ok_queue [OF assms(2), of s] by (simp add: queue_ok_def distinct_map sum_list_distinct_conv_sum_set)
  also have "\<dots> = (\<Sum>r\<leftarrow>filter (\<lambda>r. order_price r = p) (b s). unat (order_quantity r))"
    by (simp add: sum_list_map_filter')
  finally show ?thesis .
qed

lemma of_nat_shares: "of_nat (\<Sum>r\<leftarrow>rs. unat (order_quantity r)) = (\<Sum>r\<leftarrow>rs. order_quantity r)"
  by (induction rs) simp_all

lemma tracked_level:
  assumes "builder_tracks n b sb" "book_ok b" "(p, q) \<in> set (best_first s sb)"
  shows "q = (\<Sum>r\<leftarrow>filter (\<lambda>r. order_price r = p) (b s). order_quantity r)" "\<exists>r\<in>set (b s). order_price r = p"
proof -
  note t = builder_tracksD [OF assms(1)]
  have q: "unat q = (\<Sum>r\<leftarrow>filter (\<lambda>r. order_price r = p) (b s). unat (order_quantity r))"
    using level_shown [OF t(1) assms(3)] tracked_shares [OF assms(1,2)] by simp
  then have "of_nat (unat q) = (\<Sum>r\<leftarrow>filter (\<lambda>r. order_price r = p) (b s). order_quantity r)"
    by (simp only: of_nat_shares)
  then show "q = (\<Sum>r\<leftarrow>filter (\<lambda>r. order_price r = p) (b s). order_quantity r)" by simp
  have "q \<noteq> 0" using t(2) [of s] assms(3) by (force simp: set_best_first)
  show "\<exists>r\<in>set (b s). order_price r = p"
  proof (rule ccontr)
    assume "\<not> ?thesis"
    then have "filter (\<lambda>r. order_price r = p) (b s) = []" by (auto simp: filter_empty_conv)
    with q \<open>q \<noteq> 0\<close> show False by (simp add: unat_eq_0)
  qed
qed

lemma depth_head:
  assumes "book_ok e" "e s = x # xs"
  shows "spec_depth e s 1 = [\<lparr>level_price = order_price x, level_quantity = (\<Sum>r\<leftarrow>filter (\<lambda>r. order_price r = order_price x) (e s). order_quantity r)\<rparr>]"
proof -
  let ?l = "map (\<lambda>r. (order_price r, order_quantity r)) (e s)"
  obtain l ls where l: "aggregate ?l = l # ls" "level_price l = order_price x"
    using aggregate_head [of ?l] assms(2) by auto
  then have d: "spec_depth e s 1 = [l]" by (simp add: spec_depth_def)
  then show ?thesis using spec_depth_quantity [OF assms(1), of l s 1] l(2) by (cases l) simp
qed

text \<open>What the parity checker compares.\<close>

lemma tracked_tops:
  assumes "builder_tracks n b sb" "engine_tracks f b e" "book_ok e"
  shows "tops_match (map (\<lambda>(p, q). \<lparr>level_price = p, level_quantity = q\<rparr>) (take 1 (best_first s sb))) (spec_depth e s 1)"
proof (cases "b s")
  case Nil
  have ok: "book_ok b" by (rule tracks_book_ok [OF assms(2,3)])
  have "best_first s sb = []"
    using tracked_level(2) [OF assms(1) ok, of _ _ s] Nil by (cases "best_first s sb") auto
  moreover have "e s = []" using tracks_views(1) [OF assms(2), of s] Nil by simp
  ultimately show ?thesis by (simp add: tops_match_def spec_depth_def)
next
  case (Cons r rs)
  note t = builder_tracksD [OF assms(1)]
  have ok: "book_ok b" by (rule tracks_book_ok [OF assms(2,3)])
  obtain x xs where e: "e s = x # xs" "order_price x = order_price r"
    using tracks_views(1) [OF assms(2), of s] Cons by (cases "e s") auto
  have "order_quantity r \<noteq> 0" using book_ok_queue [OF ok, of s] Cons by (auto simp: queue_ok_def)
  then have "0 < resting_shares sb s (order_price r)"
    by (simp add: tracked_shares [OF assms(1) ok] Cons unat_gt_0)
  from shares_shown [OF t(1) this] obtain p q L where L: "best_first s sb = (p, q) # L"
    and r: "order_price r \<in> fst ` set (best_first s sb)" by (cases "best_first s sb") auto
  have "p = order_price r"
  proof (rule ahead_antisym)
    show "ahead s p (order_price r)"
      using best_first_sorted [OF t(5), of s] r by (auto simp: L strictly_ahead_def)
    obtain y where "y \<in> set (b s)" "order_price y = p" using tracked_level(2) [OF assms(1) ok, of p q s] L by auto
    then show "ahead s (order_price r) p" using book_ok_queue [OF ok, of s] by (auto simp: Cons queue_ok_def)
  qed
  moreover have "q = (\<Sum>r\<leftarrow>filter (\<lambda>r. order_price r = p) (b s). order_quantity r)"
    using tracked_level(1) [OF assms(1) ok, of p q s] L by simp
  moreover have "(\<Sum>r\<leftarrow>filter (\<lambda>r. order_price r = p) (b s). order_quantity r) =
      (\<Sum>r\<leftarrow>filter (\<lambda>r. order_price r = p) (e s). order_quantity r)"
  proof -
    let ?F = "\<lambda>rs. sum_list (map snd (filter (\<lambda>z. fst z = p) (map (\<lambda>r. (order_price r, order_quantity r)) rs)))"
    have "?F (b s) = ?F (e s)" by (simp only: tracks_views(5) [OF assms(2)])
    then show ?thesis by (simp add: filter_map comp_def)
  qed
  ultimately show ?thesis by (simp add: tops_match_def L depth_head [OF assms(3) e(1), unfolded One_nat_def] e(2))
qed

end
