(* ===== verification/Feed_Parity.thy ===== *)
theory Feed_Parity
  imports Feed_Market
begin

text \<open>
  When the two books of a replay agree.  \<open>ItchBookBuilder\<close> and \<open>ItchEngineAdapter\<close> on top of the exchange
  (\<open>src/replay/itch_adapter.cpp\<close>) both follow the market of \<open>Feed_Market\<close>, one lemma per message, so that
  \<open>ParityChecker\<close> (\<open>src/replay/parity_checker.cpp\<close>) has nothing to report for what a market sends.  Concrete
  feeds on which the two part are at the end.
\<close>

section \<open>Calls of the registry, seen through its contract\<close>

text \<open>One stock now has the given manager; all else is as before.\<close>

definition registry_with :: "InstrumentRegistry \<Rightarrow> Symbol \<Rightarrow> SpecManager \<Rightarrow> InstrumentRegistry \<Rightarrow> bool" where
  "registry_with R symbol sm R' \<longleftrightarrow> reg_inv R' \<and> reg_book R' = (reg_book R)(symbol := sm_book sm) \<and>
     reg_findOrder R' = (reg_findOrder R)(symbol := sm_orders sm) \<and>
     (\<forall>t. reg_instruments R' t = None \<longleftrightarrow> reg_instruments R t = None)"

abbreviation stock_manager :: "InstrumentRegistry \<Rightarrow> Symbol \<Rightarrow> SpecManager" where
  "stock_manager R symbol \<equiv> \<lparr>sm_book = reg_book R symbol, sm_orders = reg_findOrder R symbol\<rparr>"

lemma route_with:
  assumes "reg_inv R" "reg_instruments R symbol \<noteq> None" "reg_inv R'" "f (stock_manager R symbol) = (r, sm)"
    "ex_route symbol i f ok (reg_spec R) = (r', reg_spec R')"
  shows "r' = r \<and> registry_with R symbol sm R'"
proof -
  obtain inst where i: "reg_instruments R symbol = Some inst" using assms(2) by auto
  have look: "ex_instruments (reg_spec R) symbol = Some (stock_manager R symbol, inst_nextSnapshotSequenceNumber inst)"
    using reg_instD(5) [OF assms(1) i] i by (simp add: reg_lookup inst_spec_def)
  have "ex_instruments (reg_spec R') = ex_instruments (snd (ex_route symbol i f ok (reg_spec R)))" by (simp add: assms(5))
  then have "ex_instruments (reg_spec R') t = None \<longleftrightarrow> ex_instruments (reg_spec R) t = None" for t
    using assms(4) look by (simp add: ex_route_def)
  then have "reg_instruments R' t = None \<longleftrightarrow> reg_instruments R t = None" for t by (simp add: reg_lookup)
  with ex_route_view [OF assms(1,2,4,5)] assms(3) show ?thesis by (simp add: registry_with_def)
qed

lemma submit_with:
  assumes "reg_inv R" "reg_instruments R symbol \<noteq> None" "spec_om_add (stock_manager R symbol) ord = (r, sm)"
  shows "\<exists>R'. reg_submitOrder R symbol ord = Some (r, R') \<and> registry_with R symbol sm R'"
proof -
  obtain r' R' m where R': "reg_submitOrder R symbol ord = Some (r', R')" "reg_inv R'" "mr_accept m = r'"
    "ex_route symbol (order_id ord) (\<lambda>sm. no_trades (spec_om_add sm ord)) (submitted_event symbol ord) (reg_spec R) = (m, reg_spec R')"
    using reg_submit_refines [OF assms(1), of symbol ord] by (auto simp: map_prod_eq)
  with route_with [OF assms(1,2) R'(2) _ R'(4)] assms(3) show ?thesis by (auto simp: no_trades_def)
qed

lemma cancel_with:
  assumes "reg_inv R" "reg_instruments R symbol \<noteq> None" "spec_om_cancel (stock_manager R symbol) i = (r, sm)"
  shows "\<exists>R'. reg_cancelOrder R symbol i = Some (r, R') \<and> registry_with R symbol sm R'"
proof -
  obtain r' R' m where R': "reg_cancelOrder R symbol i = Some (r', R')" "reg_inv R'" "mr_accept m = r'"
    "ex_route symbol i (\<lambda>sm. no_trades (spec_om_cancel sm i)) (OrderCancelled symbol i) (reg_spec R) = (m, reg_spec R')"
    using reg_cancel_refines [OF assms(1), of symbol i] by (auto simp: map_prod_eq)
  with route_with [OF assms(1,2) R'(2) _ R'(4)] assms(3) show ?thesis by (auto simp: no_trades_def)
qed

lemma replace_with:
  assumes "reg_inv R" "reg_instruments R symbol \<noteq> None" "spec_om_replace (stock_manager R symbol) i ord = (r, sm)"
  shows "\<exists>R'. reg_cancelReplace R symbol i ord = Some (r, R') \<and> registry_with R symbol sm R'"
proof -
  obtain r' R' m where R': "reg_cancelReplace R symbol i ord = Some (r', R')" "reg_inv R'" "mr_accept m = r'"
    "ex_route symbol i (\<lambda>sm. no_trades (spec_om_replace sm i ord)) (OrderReplaced symbol i (order_price ord) (order_quantity ord))
      (reg_spec R) = (m, reg_spec R')"
    using reg_replace_refines [OF assms(1), of symbol i ord] by (auto simp: map_prod_eq)
  with route_with [OF assms(1,2) R'(2) _ R'(4)] assms(3) show ?thesis by (auto simp: no_trades_def)
qed

lemma match_with:
  assumes "reg_inv R" "reg_instruments R symbol \<noteq> None" "spec_om_match (stock_manager R symbol) ord = (r, sm)"
  shows "\<exists>R'. reg_matchOrder R symbol ord = Some (mr_trades r, R') \<and> registry_with R symbol sm R'"
proof -
  obtain ts R' m where R': "reg_matchOrder R symbol ord = Some (ts, R')" "reg_inv R'" "mr_trades m = ts"
    "ex_route symbol (order_id ord) (\<lambda>sm. spec_om_match sm ord) (submitted_event symbol ord) (reg_spec R) = (m, reg_spec R')"
    using reg_match_refines [OF assms(1), of symbol ord] by (auto simp: map_prod_eq)
  with route_with [OF assms(1,2) R'(2) _ R'(4)] assms(3) show ?thesis by auto
qed

lemma snapshot_with:
  assumes "reg_inv R" "reg_instruments R symbol \<noteq> None"
  shows "\<exists>s R'. reg_snapshot R symbol n = Some (s, R') \<and> registry_with R symbol (stock_manager R symbol) R' \<and>
    snap_bids s = spec_depth (reg_book R symbol) Buy n \<and> snap_asks s = spec_depth (reg_book R symbol) Sell n"
proof -
  obtain inst where i: "reg_instruments R symbol = Some inst" using assms(2) by auto
  have look: "ex_instruments (reg_spec R) symbol = Some (stock_manager R symbol, inst_nextSnapshotSequenceNumber inst)"
    using reg_instD(5) [OF assms(1) i] i by (simp add: reg_lookup inst_spec_def)
  obtain s R' where R': "reg_snapshot R symbol n = Some (s, R')" "reg_inv R'"
    "ex_call (reg_spec R) (Snapshot symbol n) = (Snapped s, reg_spec R')"
    using reg_snapshot_refines [OF assms(1), of symbol n] by blast
  then have s: "snap_bids s = spec_depth (reg_book R symbol) Buy n" "snap_asks s = spec_depth (reg_book R symbol) Sell n"
    and inst': "reg_spec R' = (reg_spec R)\<lparr>ex_instruments :=
      (ex_instruments (reg_spec R))(symbol \<mapsto> (stock_manager R symbol, inst_nextSnapshotSequenceNumber inst + 1))\<rparr>"
    by (auto simp: look)
  have "ex_instruments (reg_spec R') t = None \<longleftrightarrow> ex_instruments (reg_spec R) t = None" for t
    by (simp add: inst' look)
  then have "reg_instruments R' t = None \<longleftrightarrow> reg_instruments R t = None" for t by (simp add: reg_lookup)
  moreover have "reg_book R' t = reg_book R t" "reg_findOrder R' t = reg_findOrder R t" for t
    by (cases "t = symbol", simp_all add: reg_view_of_spec(1) [of R'] reg_view_of_spec(1) [of R t] inst')
      (cases "t = symbol", simp_all add: reg_view_of_spec(2) [of R'] reg_view_of_spec(2) [of R t] inst' fun_eq_iff)
  ultimately show ?thesis using R'(1,2) s by (simp add: registry_with_def fun_eq_iff)
qed

text \<open>An order that does not cross is accepted and rests.\<close>

lemma add_quiet:
  assumes "mkt_restable e side price shares" "i \<notin> dom orders"
  shows "\<exists>x. spec_om_add \<lparr>sm_book = e, sm_orders = orders\<rparr> (limit_order i side price shares) =
    (accept, \<lparr>sm_book = spec_rest e (limit_order i side price shares), sm_orders = orders(i \<mapsto> x)\<rparr>)"
proof -
  let ?o = "limit_order i side price shares"
  have sw: "stp_sweep side price i 0 shares (e (opposite side)) = ([], e (opposite side), shares)"
    using assms(1) by (cases "e (opposite side)") (auto simp: stp_sweep_simps mkt_restable_def)
  have "remainder ?o shares = ?o" by (simp add: remainder_def limit_order_def)
  with sw assms(1) have "spec_submit e ?o = ([], spec_rest e ?o, shares)"
    by (simp add: spec_submit_def limit_order_def effective_price_def may_rest_def cannot_rest_def mkt_restable_def)
  with assms show ?thesis
    by (simp add: spec_om_add_def spec_om_match_def cannot_rest_def limit_order_def validateNewOrder_def mkt_restable_def)
      blast
qed

section \<open>The invariant of a replay\<close>

definition stock_inv :: "nat \<Rightarrow> Market \<Rightarrow> ItchEngineAdapter \<Rightarrow> Symbol \<Rightarrow> book \<Rightarrow> SymbolBook \<Rightarrow> bool" where
  "stock_inv n M A symbol b sb \<longleftrightarrow> symbol \<in> set (mkt_symbols M) \<and> builder_tracks n b sb \<and>
     engine_tracks (ia_engineIdFor A) b (reg_book (ia_registry A) symbol) \<and> book_ids b \<subseteq> set (mkt_used M)"

text \<open>The ids the adapter makes up for executions.\<close>

definition synthetic_id :: "nat \<Rightarrow> OrderId" where
  "synthetic_id j = of_nat (1000000000 + j)"

lemma unat_synthetic_id:
  assumes "j < 2 ^ 32"
  shows "unat (synthetic_id j) = 1000000000 + j"
  using assms by (simp only: synthetic_id_def unsigned_of_nat) (simp add: take_bit_nat_eq_self)

lemma synthetic_id_facts:
  "j < 2 ^ 32 \<Longrightarrow> first_synthetic \<le> synthetic_id j"
  "j < 2 ^ 32 \<Longrightarrow> k < 2 ^ 32 \<Longrightarrow> synthetic_id k = synthetic_id j \<longleftrightarrow> k = j"
  "synthetic_id (Suc j) = synthetic_id j + 1"
  "synthetic_id 0 = first_synthetic"
proof -
  show "first_synthetic \<le> synthetic_id j" if "j < 2 ^ 32"
    by (simp add: word_le_nat_alt unat_synthetic_id [OF that] first_synthetic_def)
  show "synthetic_id k = synthetic_id j \<longleftrightarrow> k = j" if "j < 2 ^ 32" "k < 2 ^ 32"
    using unat_synthetic_id [OF that(1)] unat_synthetic_id [OF that(2)] by auto
  show "synthetic_id (Suc j) = synthetic_id j + 1" "synthetic_id 0 = first_synthetic"
    by (simp_all add: synthetic_id_def first_synthetic_def)
qed

text \<open>
  Reference numbers, also those an order had before it was replaced, stand for ids in the same range; all other
  ids the exchange has seen are the adapter's own.
\<close>

definition made_up :: "nat \<Rightarrow> Market \<Rightarrow> ItchEngineAdapter \<Rightarrow> bool" where
  "made_up k M A \<longleftrightarrow> ia_nextSyntheticId A = synthetic_id k \<and>
     (\<forall>symbol. \<forall>i\<in>dom (reg_findOrder (ia_registry A) symbol). i \<in> set (mkt_used M) \<or> (\<exists>j<k. i = synthetic_id j))"

definition ids_inv :: "nat \<Rightarrow> Market \<Rightarrow> ItchEngineAdapter \<Rightarrow> bool" where
  "ids_inv n M A \<longleftrightarrow> (\<forall>ref\<in>set (mkt_used M). ref < first_synthetic \<and> ia_engineIdFor A ref \<in> set (mkt_used M)) \<and>
     (\<exists>k\<le>n. made_up k M A)"

definition parity_inv :: "nat \<Rightarrow> Market \<Rightarrow> ItchBookBuilder \<Rightarrow> ItchEngineAdapter \<Rightarrow> bool" where
  "parity_inv n M B A \<longleftrightarrow> reg_inv (ia_registry A) \<and> ia_symbols A = map_option fst \<circ> mkt_books M \<and>
     (\<forall>l. B l = None \<longleftrightarrow> mkt_books M l = None) \<and>
     (\<forall>l l' symbol b b'. mkt_books M l = Some (symbol, b) \<longrightarrow> mkt_books M l' = Some (symbol, b') \<longrightarrow> l = l') \<and>
     (\<forall>symbol. reg_instruments (ia_registry A) symbol \<noteq> None \<longleftrightarrow> symbol \<in> set (mkt_symbols M)) \<and>
     (\<forall>l symbol b sb. mkt_books M l = Some (symbol, b) \<longrightarrow> B l = Some sb \<longrightarrow> stock_inv n M A symbol b sb) \<and> ids_inv n M A"

lemma parity_invD:
  assumes "parity_inv n M B A"
  shows "reg_inv (ia_registry A)" "ia_symbols A l = map_option fst (mkt_books M l)" "B l = None \<longleftrightarrow> mkt_books M l = None"
    "ids_inv n M A" "reg_instruments (ia_registry A) symbol \<noteq> None \<longleftrightarrow> symbol \<in> set (mkt_symbols M)"
    "mkt_books M k = Some (symbol, b) \<Longrightarrow> mkt_books M k' = Some (symbol, b') \<Longrightarrow> k = k'"
    "mkt_books M k = Some (symbol, b) \<Longrightarrow> B k = Some sb \<Longrightarrow> stock_inv n M A symbol b sb"
  using assms by (simp_all add: parity_inv_def)

lemma parity_inv_stock:
  assumes "parity_inv n M B A" "mkt_books M l = Some (symbol, b)"
  obtains sb where "B l = Some sb" "builder_tracks n b sb"
    "engine_tracks (ia_engineIdFor A) b (reg_book (ia_registry A) symbol)" "book_ids b \<subseteq> set (mkt_used M)"
    "reg_instruments (ia_registry A) symbol \<noteq> None" "book_ok (reg_book (ia_registry A) symbol)" "book_ok b"
proof -
  obtain sb where sb: "B l = Some sb" using assms parity_invD(3) [OF assms(1), of l] by auto
  then have st: "stock_inv n M A symbol b sb" using assms by (simp add: parity_inv_def)
  then have "reg_instruments (ia_registry A) symbol \<noteq> None" using assms(1) by (simp add: parity_inv_def stock_inv_def)
  moreover have ok: "book_ok (reg_book (ia_registry A) symbol)" by (rule reg_book_ok [OF parity_invD(1) [OF assms(1)]])
  moreover have "book_ok b" using st tracks_book_ok [OF _ ok] by (auto simp: stock_inv_def)
  ultimately show ?thesis using that sb st by (simp add: stock_inv_def)
qed

lemma parity_inv_empty:
  assumes "reg_inv R" "reg_instruments R = Map.empty" "ia_registry A = R" "ia_symbols A = Map.empty"
    "ia_nextSyntheticId A = first_synthetic"
  shows "parity_inv n empty_Market Map.empty A"
  using assms by (auto simp: parity_inv_def empty_Market_def ids_inv_def made_up_def reg_findOrder_def fun_eq_iff synthetic_id_facts(4) intro!: exI [of _ 0])

lemma ids_inv_mono: "ids_inv n M A \<Longrightarrow> n \<le> k \<Longrightarrow> ids_inv k M A"
  by (auto simp: ids_inv_def intro: order_trans)

lemma stock_inv_mono: "stock_inv n M A symbol b sb \<Longrightarrow> n \<le> k \<Longrightarrow> stock_inv k M A symbol b sb"
  using builder_tracks_mono [of n b sb k] by (simp add: stock_inv_def)

lemma parity_inv_mono: "parity_inv n M B A \<Longrightarrow> n \<le> k \<Longrightarrow> parity_inv k M B A"
  unfolding parity_inv_def using stock_inv_mono [of n M A _ _ _ k] ids_inv_mono [of n M A k] by blast

text \<open>Fresh ids for the exchange.\<close>

lemma ids_inv_fresh:
  assumes "ids_inv n M A" "n < 2 ^ 32"
  shows "mkt_new_ref M ref \<Longrightarrow> ref \<notin> dom (reg_findOrder (ia_registry A) symbol)"
    and "ia_nextSyntheticId A \<notin> dom (reg_findOrder (ia_registry A) symbol)"
proof -
  obtain k where k: "k \<le> n" "ia_nextSyntheticId A = synthetic_id k"
    "\<And>i. i \<in> dom (reg_findOrder (ia_registry A) symbol) \<Longrightarrow> i \<in> set (mkt_used M) \<or> (\<exists>j<k. i = synthetic_id j)"
    using assms(1) by (auto simp: ids_inv_def made_up_def)
  have big: "first_synthetic \<le> synthetic_id j" if "j \<le> k" for j
    using that k(1) assms(2) by (intro synthetic_id_facts) simp
  have used: "r < first_synthetic" if "r \<in> set (mkt_used M)" for r using that assms(1) by (simp add: ids_inv_def)
  show "ref \<notin> dom (reg_findOrder (ia_registry A) symbol)" if "mkt_new_ref M ref"
  proof
    assume "ref \<in> dom (reg_findOrder (ia_registry A) symbol)"
    with k(3) that obtain j where "j < k" "ref = synthetic_id j" by (auto simp: mkt_new_ref_def)
    with big [of j] that show False unfolding mkt_new_ref_def by (simp only:) auto
  qed
  have "ia_nextSyntheticId A \<noteq> synthetic_id j" if "j < k" for j
    using that k(1,2) assms(2) synthetic_id_facts(2) [of j k] by simp
  moreover have "ia_nextSyntheticId A \<notin> set (mkt_used M)" using used [of "ia_nextSyntheticId A"] big [of k] k(2) by fastforce
  ultimately show "ia_nextSyntheticId A \<notin> dom (reg_findOrder (ia_registry A) symbol)" using k(3) by blast
qed

lemma ids_inv_update:
  assumes "ids_inv n M A" "registry_with (ia_registry A) symbol sm (ia_registry A')"
    and "dom (sm_orders sm) \<subseteq> dom (reg_findOrder (ia_registry A) symbol) \<union> set refs \<union> (if d then {ia_nextSyntheticId A} else {})"
    and "ia_nextSyntheticId A' = (if d then ia_nextSyntheticId A + 1 else ia_nextSyntheticId A)"
    and "\<And>ref. ref \<in> set (mkt_used M) \<Longrightarrow> ia_engineIdFor A' ref = ia_engineIdFor A ref"
    and "\<And>ref. ref \<in> set refs \<Longrightarrow> ref < first_synthetic \<and> ia_engineIdFor A' ref \<in> set (refs @ mkt_used M)"
  shows "ids_inv (Suc n) (mkt_put M l symbol b refs) A'"
proof -
  obtain k where k: "k \<le> n" "ia_nextSyntheticId A = synthetic_id k"
    "\<And>symbol i. i \<in> dom (reg_findOrder (ia_registry A) symbol) \<Longrightarrow> i \<in> set (mkt_used M) \<or> (\<exists>j<k. i = synthetic_id j)"
    using assms(1) by (auto simp: ids_inv_def made_up_def)
  have used: "ref < first_synthetic \<and> ia_engineIdFor A' ref \<in> set (refs @ mkt_used M)" if "ref \<in> set (refs @ mkt_used M)" for ref
    using that assms(1,5,6) by (auto simp: ids_inv_def)
  let ?k = "if d then Suc k else k"
  have find: "reg_findOrder (ia_registry A') = (reg_findOrder (ia_registry A))(symbol := sm_orders sm)"
    using assms(2) by (simp add: registry_with_def)
  have "i \<in> set (refs @ mkt_used M) \<or> (\<exists>j<?k. i = synthetic_id j)"
    if i: "i \<in> dom (reg_findOrder (ia_registry A') t)" for i t
  proof -
    have "i \<in> dom (reg_findOrder (ia_registry A) t) \<or> i \<in> set refs \<or> d \<and> i = synthetic_id k"
      using i assms(3) k(2) by (auto simp: find split: if_splits)
    with k(3) [of i t] show ?thesis by (auto simp: less_Suc_eq)
  qed
  moreover have "ia_nextSyntheticId A' = synthetic_id ?k" using assms(4) k(2) by (simp add: synthetic_id_facts(3))
  ultimately have "made_up ?k (mkt_put M l symbol b refs) A'"
    unfolding made_up_def mkt_put_def by simp
  moreover have "?k \<le> Suc n" using k(1) by simp
  ultimately show ?thesis using used unfolding ids_inv_def mkt_put_def by auto
qed

lemma parity_update:
  assumes "parity_inv n M B A" "mkt_books M l = Some (symbol, b)"
    and "registry_with (ia_registry A) symbol sm (ia_registry A')" "ia_symbols A' = ia_symbols A"
    and "builder_tracks (Suc n) b' sb" "engine_tracks (ia_engineIdFor A') b' (sm_book sm)"
    and "book_ids b' \<subseteq> set (refs @ mkt_used M)"
    and "\<And>ref. ref \<in> set (mkt_used M) \<Longrightarrow> ia_engineIdFor A' ref = ia_engineIdFor A ref"
    and "ids_inv (Suc n) (mkt_put M l symbol b' refs) A'"
  shows "parity_inv (Suc n) (mkt_put M l symbol b' refs) (B(l \<mapsto> sb)) A'"
proof -
  have reg: "reg_inv (ia_registry A')" "reg_book (ia_registry A') = (reg_book (ia_registry A))(symbol := sm_book sm)"
    "\<And>t. reg_instruments (ia_registry A') t = None \<longleftrightarrow> reg_instruments (ia_registry A) t = None"
    using assms(3) by (auto simp: registry_with_def)
  have old: "stock_inv n M A t c sc" "t = symbol \<Longrightarrow> k = l" if "mkt_books M k = Some (t, c)" "B k = Some sc" for k t c sc
    using parity_invD(6,7) [OF assms(1)] assms(2) that by blast+
  have symbol: "symbol \<in> set (mkt_symbols M)"
    using assms(1,2) parity_invD(3) [OF assms(1), of l] old(1) [of l symbol b] by (auto simp: stock_inv_def)
  have "stock_inv (Suc n) (mkt_put M l symbol b' refs) A' t c sc"
    if "mkt_books (mkt_put M l symbol b' refs) k = Some (t, c)" "(B(l \<mapsto> sb)) k = Some sc" for k t c sc
  proof (cases "k = l")
    case True
    with that assms(5-7) symbol show ?thesis by (simp add: mkt_put_def stock_inv_def reg(2))
  next
    case False
    with that have k: "mkt_books M k = Some (t, c)" "B k = Some sc" by (simp_all add: mkt_put_def)
    note st = old [OF k]
    have t: "t \<noteq> symbol" using st(2) False by blast
    have c: "engine_tracks (ia_engineIdFor A) c (reg_book (ia_registry A) t)" "book_ids c \<subseteq> set (mkt_used M)"
      using st(1) by (simp_all add: stock_inv_def)
    have "engine_tracks (ia_engineIdFor A') c (reg_book (ia_registry A) t)"
      by (rule tracks_cong [OF c(1) assms(8)]) (use c(2) in blast)
    moreover have "builder_tracks (Suc n) c sc" using st(1) builder_tracks_mono [of n c sc "Suc n"] by (simp add: stock_inv_def)
    moreover have "book_ids c \<subseteq> set (refs @ mkt_used M)" using c(2) by auto
    ultimately show ?thesis using st(1) t by (simp add: stock_inv_def reg(2) mkt_put_def)
  qed
  moreover have "k = k'" if "mkt_books (mkt_put M l symbol b' refs) k = Some (t, c)"
    "mkt_books (mkt_put M l symbol b' refs) k' = Some (t, c')" for k k' t c c'
  proof -
    have "\<exists>c. mkt_books M j = Some (t, c)" if "mkt_books (mkt_put M l symbol b' refs) j = Some (t, d)" for j d
      using that assms(2) by (auto simp: mkt_put_def split: if_splits)
    with that show ?thesis using parity_invD(6) [OF assms(1)] by metis
  qed
  moreover have "ia_symbols A' = map_option fst \<circ> mkt_books (mkt_put M l symbol b' refs)"
    using assms(1,2,4) by (auto simp: parity_inv_def mkt_put_def)
  moreover have "(B(l \<mapsto> sb)) k = None \<longleftrightarrow> mkt_books (mkt_put M l symbol b' refs) k = None" for k
    using parity_invD(3) [OF assms(1), of k] by (simp add: mkt_put_def)
  moreover have "reg_instruments (ia_registry A') t \<noteq> None \<longleftrightarrow> t \<in> set (mkt_symbols (mkt_put M l symbol b' refs))" for t
    using assms(1) reg(3) [of t] by (simp add: parity_inv_def mkt_put_def)
  ultimately show ?thesis using reg(1) assms(9) unfolding parity_inv_def by simp
qed

section \<open>One message\<close>

lemma ucast_nonzero: "(ucast (w :: u32) :: u64) = 0 \<longleftrightarrow> w = 0"
  by transfer (simp add: take_bit_eq_mod)

lemma book_ids_cut: "book_ids (mkt_cut b ref shares) \<subseteq> book_ids b"
  by (auto simp: book_ids_def mkt_cut_def cut_order_def)

text \<open>What both sides do with a message the market can send.\<close>

definition in_step :: "nat \<Rightarrow> Market \<Rightarrow> ItchBookBuilder \<Rightarrow> applied \<Rightarrow> u64 \<Rightarrow> bool" where
  "in_step n M B result volume \<longleftrightarrow> (\<exists>ok A. result = Some (ok, A) \<and> parity_inv n M B A \<and> ia_tradeVolume A = volume)"

lemma in_stepI: "result = Some (ok, A) \<Longrightarrow> parity_inv n M B A \<Longrightarrow> ia_tradeVolume A = volume \<Longrightarrow> in_step n M B result volume"
  by (auto simp: in_step_def)

lemma in_step_same: "parity_inv n M B A \<Longrightarrow> in_step (Suc n) M B (Some (ok, A)) (ia_tradeVolume A)"
  by (auto simp: in_step_def intro: parity_inv_mono)

lemma engineIdFor_upd:
  "ia_engineIdFor (A\<lparr>ia_engineIdForRef := (ia_engineIdForRef A)(ref \<mapsto> i), ia_registry := R\<rparr>) = (ia_engineIdFor A)(ref := i)"
  "ia_engineIdFor (A\<lparr>ia_registry := R, ia_engineIdForRef := (ia_engineIdForRef A)(ref \<mapsto> i)\<rparr>) = (ia_engineIdFor A)(ref := i)"
  "ia_engineIdFor (A\<lparr>ia_registry := R\<rparr>) = ia_engineIdFor A"
  "ia_engineIdFor (A\<lparr>ia_nextSyntheticId := k, ia_registry := R, ia_tradeVolume := v\<rparr>) = ia_engineIdFor A"
  by (auto simp: ia_engineIdFor_def fun_eq_iff)

lemma step_update:
  assumes "parity_inv n M B A" "mkt_books M l = Some (symbol, b)" "registry_with (ia_registry A) symbol sm R'"
    and "ia_registry A' = R'" "ia_symbols A' = ia_symbols A"
    and "ia_nextSyntheticId A' = (if d then ia_nextSyntheticId A + 1 else ia_nextSyntheticId A)"
    and "dom (sm_orders sm) \<subseteq> dom (reg_findOrder (ia_registry A) symbol) \<union> set refs \<union> (if d then {ia_nextSyntheticId A} else {})"
    and "builder_tracks (Suc n) b' sb" "engine_tracks (ia_engineIdFor A') b' (sm_book sm)"
    and "book_ids b' \<subseteq> set refs \<union> book_ids b"
    and "\<And>ref. ref \<in> set (mkt_used M) \<Longrightarrow> ia_engineIdFor A' ref = ia_engineIdFor A ref"
    and "\<And>ref. ref \<in> set refs \<Longrightarrow> ref < first_synthetic \<and> ia_engineIdFor A' ref \<in> set (refs @ mkt_used M)"
  shows "parity_inv (Suc n) (mkt_put M l symbol b' refs) (B(l \<mapsto> sb)) A'"
proof -
  have R': "registry_with (ia_registry A) symbol sm (ia_registry A')" using assms(3,4) by simp
  have "book_ids b \<subseteq> set (mkt_used M)" by (rule parity_inv_stock [OF assms(1,2)])
  then have "book_ids b' \<subseteq> set (refs @ mkt_used M)" using assms(10) by auto
  moreover note ids_inv_update [OF parity_invD(4) [OF assms(1)] R' assms(7,6,11,12)]
  ultimately show ?thesis using parity_update [OF assms(1,2) R' assms(5,8,9) _ assms(11)] by blast
qed

text \<open>The engine's copy of an order, and what the exchange has on record for it.\<close>

lemma engine_order:
  assumes "parity_inv n M B A" "mkt_books M l = Some (symbol, b)" "y \<in> set (b s)"
  obtains r x where "r \<in> set (reg_book (ia_registry A) symbol s)" "plain r = renamed (ia_engineIdFor A) y"
    "reg_findOrder (ia_registry A) symbol (ia_engineIdFor A (order_id y)) = Some x" "plain x = plain r" "\<not> cannot_rest x"
proof -
  let ?R = "ia_registry A" and ?f = "ia_engineIdFor A"
  have tr: "engine_tracks ?f b (reg_book ?R symbol)" by (rule parity_inv_stock [OF assms(1,2)])
  have "renamed ?f y \<in> set (map plain (reg_book ?R symbol s))"
    using tr assms(3) by (simp add: engine_tracks_def)
  then obtain r where r: "r \<in> set (reg_book ?R symbol s)" "plain r = renamed ?f y" by auto
  note inv = parity_invD(1) [OF assms(1)]
  obtain x where x: "reg_findOrder ?R symbol (order_id r) = Some x" "same_order x r" using reg_resting(1) [OF inv r(1)] by blast
  have "\<not> cannot_rest x"
    using reg_resting(2) [OF inv r(1)] same_order_sel(6,7) [OF x(2)] by (simp add: cannot_rest_def)
  moreover have "plain x = plain r" using x(2) by (rule same_order_plain)
  ultimately show ?thesis using that r x(1) plain_renamed(1) [OF r(2)] by metis
qed

text \<open>A new order enters the engine's book under its reference number.\<close>

lemma add_engine:
  assumes "parity_inv n M B A" "mkt_books M l = Some (symbol, b)" "mkt_new_ref M ref" "mkt_restable b side price shares" "n < 2 ^ 32"
  shows "\<exists>sm R'. reg_submitOrder (ia_registry A) symbol (limit_order ref side price shares) = Some (accept, R') \<and>
    registry_with (ia_registry A) symbol sm R' \<and>
    engine_tracks ((ia_engineIdFor A)(ref := ref)) (spec_rest b (limit_order ref side price shares)) (sm_book sm) \<and>
    dom (sm_orders sm) \<subseteq> insert ref (dom (reg_findOrder (ia_registry A) symbol))"
proof -
  let ?R = "ia_registry A" and ?x = "limit_order ref side price shares" and ?g = "(ia_engineIdFor A)(ref := ref)"
  obtain st: "engine_tracks (ia_engineIdFor A) b (reg_book ?R symbol)" "book_ids b \<subseteq> set (mkt_used M)" "reg_instruments ?R symbol \<noteq> None"
    by (rule parity_inv_stock [OF assms(1,2)])
  have "ref \<notin> dom (reg_findOrder ?R symbol)" by (rule ids_inv_fresh(1) [OF parity_invD(4) [OF assms(1)] assms(5,3)])
  moreover have "mkt_restable (reg_book ?R symbol) side price shares"
    using assms(4) tracks_no_cross [OF st(1)] by (simp add: mkt_restable_def)
  ultimately obtain o' R' where R': "reg_submitOrder ?R symbol ?x = Some (accept, R')"
    "registry_with ?R symbol \<lparr>sm_book = spec_rest (reg_book ?R symbol) ?x, sm_orders = (reg_findOrder ?R symbol)(ref \<mapsto> o')\<rparr> R'"
    using add_quiet submit_with [OF parity_invD(1) [OF assms(1)] st(3)] by metis
  have "engine_tracks ?g b (reg_book ?R symbol)"
    by (rule tracks_cong [OF st(1)]) (use st(2) assms(3) in \<open>auto simp: mkt_new_ref_def\<close>)
  then have "engine_tracks ?g (spec_rest b ?x) (spec_rest (reg_book ?R symbol) ?x)"
    by (rule tracks_rest) (simp add: plain_def renamed_def limit_order_def)
  with R' show ?thesis by (intro exI conjI) (assumption, assumption, simp, auto)
qed

lemma add_step:
  assumes "parity_inv n M B A" "mkt_add M m = Some M'" "Suc n < 2 ^ 32"
  shows "in_step (Suc n) M' (ibb_handleAddOrder m B) (ia_handleAddOrder m A) (ia_tradeVolume A)"
proof (cases "mkt_books M (ao_stockLocate m)")
  case None
  then have "ia_handleAddOrder m A = Some (False, A)" "ibb_handleAddOrder m B = B" "M' = M"
    using assms(2) parity_invD(2,3) [OF assms(1), of "ao_stockLocate m"]
    by (simp_all add: ia_handleAddOrder_def ibb_handleAddOrder_def on_book_def mkt_add_def mkt_on_def)
  with in_step_same [OF assms(1)] show ?thesis by simp
next
  case (Some e)
  let ?R = "ia_registry A" and ?l = "ao_stockLocate m"
  obtain symbol b where book: "mkt_books M ?l = Some (symbol, b)" using Some by (cases e) simp
  define side where "side = (if ao_buySellIndicator m = CHR ''B'' then Buy else Sell)"
  define ref where "ref = ao_orderReferenceNumber m"
  define price :: Price where "price = ucast (ao_price m)"
  define shares :: Quantity where "shares = ucast (ao_shares m)"
  note defs = side_def ref_def price_def shares_def
  define b' where "b' = spec_rest b (limit_order ref side price shares)"
  have ok: "mkt_new_ref M ref" "mkt_restable b side price shares" and M': "M' = mkt_put M ?l symbol b' [ref]"
    using assms(2) by (auto simp: mkt_add_def mkt_on_def book Let_def defs b'_def split: if_splits)
  obtain sb where st: "B ?l = Some sb" "builder_tracks n b sb" "book_ids b \<subseteq> set (mkt_used M)"
    by (rule parity_inv_stock [OF assms(1) book])
  have unused: "ref \<notin> set (mkt_used M)" "ref < first_synthetic" using ok(1) by (simp_all add: mkt_new_ref_def)
  obtain sm R' where R': "reg_submitOrder ?R symbol (limit_order ref side price shares) = Some (accept, R')" "registry_with ?R symbol sm R'"
    "engine_tracks ((ia_engineIdFor A)(ref := ref)) b' (sm_book sm)" "dom (sm_orders sm) \<subseteq> insert ref (dom (reg_findOrder ?R symbol))"
    using add_engine [OF assms(1) book ok] assms(3) unfolding b'_def by auto
  define A' where "A' = A\<lparr>ia_engineIdForRef := (ia_engineIdForRef A)(ref \<mapsto> ref), ia_registry := R'\<rparr>"
  have sel: "ia_registry A' = R'" "ia_symbols A' = ia_symbols A" "ia_nextSyntheticId A' = ia_nextSyntheticId A"
    "ia_tradeVolume A' = ia_tradeVolume A" by (simp_all add: A'_def)
  have eid: "ia_engineIdFor A' = (ia_engineIdFor A)(ref := ref)" unfolding A'_def by (rule engineIdFor_upd)
  have bt: "builder_tracks (Suc n) b' (ibb_addOrder sb ref side shares price)"
    unfolding b'_def using st(3) unused(1) ok(2) ucast_shares [of "ao_shares m"] assms(3)
    by (intro builder_add [OF st(2)]) (auto simp: mkt_restable_def shares_def)
  have "parity_inv (Suc n) M' (B(?l \<mapsto> ibb_addOrder sb ref side shares price)) A'"
    unfolding M' by (rule step_update [OF assms(1) book R'(2) _ _ _ _ bt, where d = False])
      (use R'(3,4) unused in \<open>auto simp: sel eid b'_def book_ids_rest limit_order_def\<close>)
  moreover have "ia_handleAddOrder m A = Some (True, A')"
    using R'(1) parity_invD(2) [OF assms(1), of ?l] book by (simp add: ia_handleAddOrder_def Let_def A'_def defs)
  moreover have "ibb_handleAddOrder m B = B(?l \<mapsto> ibb_addOrder sb ref side shares price)"
    by (simp add: ibb_handleAddOrder_def on_book_def st(1) Let_def defs)
  ultimately show ?thesis using sel(4) by (simp add: in_stepI)
qed

text \<open>The adapter's order meets exactly the order at the front.\<close>

lemma execute_engine:
  assumes "parity_inv n M B A" "mkt_books M l = Some (symbol, b)" "b s = y # q" "k \<noteq> 0" "k \<le> order_quantity y"
    and "p \<noteq> 0" "crosses (opposite s) p (order_price y)" "n < 2 ^ 32"
    and "ord = \<lparr>order_id = ia_nextSyntheticId A, order_side = opposite s, order_price = p, order_quantity = k,
      order_accountId = 0, order_type = Limit, order_tif = IOC, order_status = New\<rparr>"
  shows "\<exists>tr sm R'. trade_quantity tr = k \<and> reg_matchOrder (ia_registry A) symbol ord = Some ([tr], R') \<and>
    registry_with (ia_registry A) symbol sm R' \<and>
    engine_tracks (ia_engineIdFor A) (mkt_cut b (order_id y) k) (sm_book sm) \<and>
    dom (sm_orders sm) = insert (ia_nextSyntheticId A) (dom (reg_findOrder (ia_registry A) symbol))"
proof -
  let ?R = "ia_registry A" and ?f = "ia_engineIdFor A"
  obtain st: "engine_tracks ?f b (reg_book ?R symbol)" "reg_instruments ?R symbol \<noteq> None" "book_ok (reg_book ?R symbol)"
    by (rule parity_inv_stock [OF assms(1,2)])
  obtain r q' where es: "reg_book ?R symbol s = r # q'" "plain r = renamed ?f y"
    using st(1) assms(3) by (cases "reg_book ?R symbol s") (auto simp: engine_tracks_def dest!: spec [of _ s])
  note ry = plain_renamed [OF es(2)]
  define tr where "tr = \<lparr>trade_incoming = ia_nextSyntheticId A, trade_resting = order_id r, trade_price = order_price r, trade_quantity = k\<rparr>"
  define e' where "e' = (reg_book ?R symbol)(s := if order_quantity r = k then q' else r\<lparr>order_quantity := order_quantity r - k\<rparr> # q')"
  have sub: "spec_submit (reg_book ?R symbol) ord = ([tr], e', 0)"
    using submit_front [of "reg_book ?R symbol" ord r q'] es(1) assms(4,5,7) ry by (simp add: assms(9) tr_def e'_def)
  have "ia_nextSyntheticId A \<notin> dom (reg_findOrder ?R symbol)"
    by (rule ids_inv_fresh(2) [OF parity_invD(4) [OF assms(1)] assms(8)])
  then have "validateNewOrder ord (dom (reg_findOrder ?R symbol)) = NoReason"
    using assms(4,6) by (simp add: validateNewOrder_def assms(9))
  then obtain sm where sm: "spec_om_match (stock_manager ?R symbol) ord = (\<lparr>mr_trades = [tr], mr_accept = accept\<rparr>, sm)"
    "sm_book sm = e'" "dom (sm_orders sm) = insert (ia_nextSyntheticId A) (dom (reg_findOrder ?R symbol))"
    using sub by (simp add: spec_om_match_def dom_book_trade) (simp add: assms(9))
  obtain R' where R': "reg_matchOrder ?R symbol ord = Some ([tr], R')" "registry_with ?R symbol sm R'"
    using match_with [OF parity_invD(1) [OF assms(1)] st(2) sm(1)] by auto
  have "engine_tracks ?f (mkt_cut b (order_id y) k) e'"
    using tracks_front [OF st(1,3) assms(3) es(1) assms(4,5)] by (simp add: e'_def)
  moreover have "trade_quantity tr = k" by (simp add: tr_def)
  ultimately show ?thesis using R' sm(2,3) by blast
qed

lemma execute_step:
  assumes "parity_inv n M B A" "mkt_execute M l ref shares price = Some M'" "Suc n < 2 ^ 32"
  shows "in_step (Suc n) M' (on_book l (\<lambda>b. ibb_reduceOrder b ref (ucast shares)) B)
    (ia_applyExecuted l ref shares price A) (ia_tradeVolume A + ucast shares)"
proof -
  let ?R = "ia_registry A" and ?f = "ia_engineIdFor A" and ?n = "ucast shares :: Quantity"
  obtain symbol b y where book: "mkt_books M l = Some (symbol, b)" and find: "mkt_find b ref = Some y"
    and front: "hd (b (order_side y)) = y" "shares \<noteq> 0" "?n \<le> order_quantity y"
    and price: "case price of None \<Rightarrow> True | Some p \<Rightarrow> p \<noteq> 0 \<and> crosses (opposite (order_side y)) (ucast p) (order_price y)"
    and M': "M' = mkt_put M l symbol (mkt_cut b ref ?n) []"
    using assms(2) by (auto simp: mkt_execute_def split: option.splits if_splits prod.splits)
  obtain sb where st: "B l = Some sb" "builder_tracks n b sb" "book_ok b" by (rule parity_inv_stock [OF assms(1) book])
  define s where "s = order_side y"
  have y: "y \<in> set (b s)" "order_id y = ref" using mkt_find_Some [OF find st(3)] by (simp_all add: s_def)
  obtain q where bs: "b s = y # q" using y(1) front(1) unfolding s_def by (cases "b (order_side y)") auto
  obtain r x where x: "reg_findOrder ?R symbol (?f ref) = Some x" "plain x = renamed ?f y" "r \<in> set (reg_book ?R symbol s)" "plain x = plain r"
    using engine_order [OF assms(1) book y(1)] y(2) by metis
  note xy = plain_renamed [OF x(2)]
  define p where "p = (case price of Some p \<Rightarrow> ucast p | None \<Rightarrow> order_price x)"
  have nz: "?n \<noteq> 0" using front(2) by (simp add: ucast_nonzero)
  have "order_price x \<noteq> 0"
    using reg_resting(2) [OF parity_invD(1) [OF assms(1)] x(3)] plain_sel(3) [of x] plain_sel(3) [of r] x(4) by simp
  then have p: "p \<noteq> 0" "crosses (opposite s) p (order_price y)"
    using price xy by (auto simp: p_def s_def ucast_nonzero crosses_ahead split: option.splits)
  obtain tr sm R' where R': "trade_quantity tr = ?n" "reg_matchOrder ?R symbol \<lparr>order_id = ia_nextSyntheticId A, order_side = opposite s,
      order_price = p, order_quantity = ?n, order_accountId = 0, order_type = Limit, order_tif = IOC, order_status = New\<rparr> = Some ([tr], R')"
    "registry_with ?R symbol sm R'" "engine_tracks ?f (mkt_cut b ref ?n) (sm_book sm)"
    "dom (sm_orders sm) = insert (ia_nextSyntheticId A) (dom (reg_findOrder ?R symbol))"
    using execute_engine [OF assms(1) book bs nz front(3) p _ refl] assms(3) y(2) by auto
  define A' where "A' = A\<lparr>ia_nextSyntheticId := ia_nextSyntheticId A + 1, ia_registry := R', ia_tradeVolume := ia_tradeVolume A + ?n\<rparr>"
  have sel: "ia_registry A' = R'" "ia_symbols A' = ia_symbols A" "ia_nextSyntheticId A' = ia_nextSyntheticId A + 1"
    "ia_tradeVolume A' = ia_tradeVolume A + ?n" by (simp_all add: A'_def)
  have eid: "ia_engineIdFor A' = ?f" unfolding A'_def by (rule engineIdFor_upd)
  have bt: "builder_tracks (Suc n) (mkt_cut b ref ?n) (ibb_reduceOrder sb ref ?n)"
    using builder_tracks_Suc [OF builder_cut [OF st(2,3) y(1)], of ?n] y(2) by simp
  have "parity_inv (Suc n) M' (B(l \<mapsto> ibb_reduceOrder sb ref ?n)) A'"
    unfolding M' by (rule step_update [OF assms(1) book R'(3) _ _ _ _ bt, where d = True])
      (use R'(4,5) book_ids_cut in \<open>auto simp: sel eid\<close>)
  moreover have "min ?n (order_quantity x) = ?n" "(if order_side x = Buy then Sell else Buy) = opposite s"
    using front(3) xy by (auto simp: s_def min_def split: Side.splits) (cases "order_side y"; simp)+
  then have "ia_applyExecuted l ref shares price A = Some (True, A')"
    using R'(1,2) x(1) parity_invD(2) [OF assms(1), of l] book
    by (simp add: ia_applyExecuted_def Let_def p_def [symmetric] A'_def)
  ultimately show ?thesis using sel(4) st(1) by (simp add: in_stepI on_book_def)
qed

text \<open>An order of the market that is cancelled in the exchange leaves both books.\<close>

lemma cancel_update:
  assumes "parity_inv n M B A" "mkt_books M l = Some (symbol, b)" "y \<in> set (b s)" "builder_tracks (Suc n) (spec_cancel b (order_id y)) sb"
  shows "\<exists>R'. reg_cancelOrder (ia_registry A) symbol (ia_engineIdFor A (order_id y)) = Some (accept, R') \<and>
    parity_inv (Suc n) (mkt_put M l symbol (spec_cancel b (order_id y)) []) (B(l \<mapsto> sb)) (A\<lparr>ia_registry := R'\<rparr>)"
proof -
  let ?R = "ia_registry A" and ?i = "ia_engineIdFor A (order_id y)"
  let ?sm = "\<lparr>sm_book = spec_cancel (reg_book ?R symbol) ?i, sm_orders = (reg_findOrder ?R symbol)
    (?i := map_option (\<lambda>x. x\<lparr>order_status := Cancelled\<rparr>) (reg_findOrder ?R symbol ?i))\<rparr>"
  obtain st: "engine_tracks (ia_engineIdFor A) b (reg_book ?R symbol)" "reg_instruments ?R symbol \<noteq> None"
    "book_ok (reg_book ?R symbol)" by (rule parity_inv_stock [OF assms(1,2)])
  have y: "order_id y \<in> book_ids b" by (rule in_book_ids [where b = b, OF assms(3)])
  then have "?i \<in> book_ids (reg_book ?R symbol)" using tracks_ids [OF st(1)] by simp
  then have "spec_om_cancel (stock_manager ?R symbol) ?i = (accept, ?sm)" by (simp add: spec_om_cancel_def)
  from cancel_with [OF parity_invD(1) [OF assms(1)] st(2) this] obtain R' where
    R': "reg_cancelOrder ?R symbol ?i = Some (accept, R')" "registry_with ?R symbol ?sm R'" by blast
  have "parity_inv (Suc n) (mkt_put M l symbol (spec_cancel b (order_id y)) []) (B(l \<mapsto> sb)) (A\<lparr>ia_registry := R'\<rparr>)"
    by (rule step_update [OF assms(1,2) R'(2) _ _ _ _ assms(4), where d = False])
      (use tracks_cancel [OF st(1,3) y] in \<open>auto simp: engineIdFor_upd book_ids_cancel\<close>)
  with R'(1) show ?thesis by blast
qed

text \<open>An amendment the market allows is accepted.\<close>

lemma amend_accepted:
  assumes "parity_inv n M B A" "mkt_books M l = Some (symbol, b)" "y \<in> set (b s)"
    and "reg_findOrder (ia_registry A) symbol (ia_engineIdFor A (order_id y)) = Some x" "plain x = renamed (ia_engineIdFor A) y"
    and "\<not> cannot_rest x" "mkt_restable b s p q" "i = ia_engineIdFor A (order_id y)"
  shows "replace_reason (stock_manager (ia_registry A) symbol) i (x\<lparr>order_id := i, order_price := p, order_quantity := q\<rparr>) = NoReason"
proof -
  obtain st: "engine_tracks (ia_engineIdFor A) b (reg_book (ia_registry A) symbol)" "book_ok b"
    by (rule parity_inv_stock [OF assms(1,2)])
  have "i \<in> book_ids (reg_book (ia_registry A) symbol)"
    using tracks_ids [OF st(1)] in_book_ids [where b = b, OF assms(3)] assms(8) by simp
  moreover have "order_side y = s" using book_ok_queue [OF st(2), of s] assms(3) by (auto simp: queue_ok_def)
  moreover have "\<forall>r\<in>set (reg_book (ia_registry A) symbol (opposite s)). \<not> crosses s p (order_price r)"
    using assms(7) tracks_no_cross [OF st(1)] by (simp add: mkt_restable_def)
  ultimately show ?thesis
    using assms(6,7) plain_renamed(2) [OF assms(5)]
    by (auto simp: replace_reason_def cannot_rest_def validateNewOrder_def would_cross_def mkt_restable_def)
qed

lemma delete_step:
  assumes "parity_inv n M B A" "mkt_delete M m = Some M'" "Suc n < 2 ^ 32"
  shows "in_step (Suc n) M' (ibb_handleOrderDelete m B) (ia_handleOrderDelete m A) (ia_tradeVolume A)"
proof (cases "mkt_books M (od_stockLocate m)")
  case None
  then have "ia_handleOrderDelete m A = Some (False, A)" "ibb_handleOrderDelete m B = B" "M' = M"
    using assms(2) parity_invD(2,3) [OF assms(1), of "od_stockLocate m"]
    by (simp_all add: ia_handleOrderDelete_def ibb_handleOrderDelete_def on_book_def mkt_delete_def mkt_on_def)
  with in_step_same [OF assms(1)] show ?thesis by simp
next
  case (Some e)
  obtain symbol b where book: "mkt_books M (od_stockLocate m) = Some (symbol, b)" using Some by (cases e) simp
  let ?ref = "od_orderReferenceNumber m" and ?l = "od_stockLocate m"
  obtain y where find: "mkt_find b ?ref = Some y" and M': "M' = mkt_put M ?l symbol (spec_cancel b ?ref) []"
    using assms(2) by (auto simp: mkt_delete_def mkt_on_def book split: if_splits)
  obtain sb where st: "B ?l = Some sb" "builder_tracks n b sb" "book_ok b" by (rule parity_inv_stock [OF assms(1) book])
  note y = mkt_find_Some [OF find st(3)]
  have bt: "builder_tracks (Suc n) (spec_cancel b (order_id y)) (ibb_deleteOrder sb ?ref)"
    using builder_tracks_Suc [OF builder_delete [OF st(2,3) y(1)]] y(2) by simp
  obtain R' where R': "reg_cancelOrder (ia_registry A) symbol (ia_engineIdFor A ?ref) = Some (accept, R')"
    "parity_inv (Suc n) M' (B(?l \<mapsto> ibb_deleteOrder sb ?ref)) (A\<lparr>ia_registry := R'\<rparr>)"
    using cancel_update [OF assms(1) book y(1) bt] unfolding M' y(2) by blast
  have "ia_handleOrderDelete m A = Some (True, A\<lparr>ia_registry := R'\<rparr>)"
    using R'(1) parity_invD(2) [OF assms(1), of ?l] book by (simp add: ia_handleOrderDelete_def)
  moreover have "ibb_handleOrderDelete m B = B(?l \<mapsto> ibb_deleteOrder sb ?ref)"
    by (simp add: ibb_handleOrderDelete_def on_book_def st(1))
  ultimately show ?thesis using R'(2) by (simp add: in_stepI)
qed

lemma cut_update:
  assumes "parity_inv n M B A" "mkt_books M l = Some (symbol, b)" "y \<in> set (b s)" "k < order_quantity y"
    and "builder_tracks (Suc n) (mkt_cut b (order_id y) k) sb" "i = ia_engineIdFor A (order_id y)"
    and "reg_findOrder (ia_registry A) symbol i = Some x" "plain x = renamed (ia_engineIdFor A) y" "\<not> cannot_rest x"
  shows "\<exists>R'. reg_cancelReplace (ia_registry A) symbol i (x\<lparr>order_id := i, order_quantity := order_quantity y - k\<rparr>) = Some (accept, R') \<and>
    parity_inv (Suc n) (mkt_put M l symbol (mkt_cut b (order_id y) k) []) (B(l \<mapsto> sb)) (A\<lparr>ia_registry := R'\<rparr>)"
proof -
  let ?R = "ia_registry A" and ?f = "ia_engineIdFor A"
  obtain st: "engine_tracks ?f b (reg_book ?R symbol)" "reg_instruments ?R symbol \<noteq> None"
    "book_ok (reg_book ?R symbol)" "book_ok b" by (rule parity_inv_stock [OF assms(1,2)])
  note inv = parity_invD(1) [OF assms(1)] and xy = plain_renamed [OF assms(8)]
  define new where "new = x\<lparr>order_id := i, order_quantity := order_quantity y - k\<rparr>"
  define orders where "orders = (reg_findOrder ?R symbol)(i \<mapsto> new\<lparr>order_status := New\<rparr>)"
  let ?e = "spec_rebuild orders s (order_price y) (reg_book ?R symbol)"
  have side: "order_side y = s" using book_ok_queue [OF st(4), of s] assms(3) by (auto simp: queue_ok_def)
  obtain r where r: "r \<in> set (reg_book ?R symbol s)" "plain r = renamed ?f y"
    using engine_order [OF assms(1-3)] by metis
  have "order_price y \<noteq> 0" using reg_resting(2) [OF inv r(1)] plain_renamed(3) [OF r(2)] by simp
  then have "mkt_restable b s (order_price y) (order_quantity y - k)"
    using assms(3,4) st(4) by (auto simp: mkt_restable_def book_ok_sides [of b s])
  from amend_accepted [OF assms(1-3) _ assms(8,9) this assms(6)] assms(6,7)
  have "replace_reason (stock_manager ?R symbol) i (x\<lparr>order_id := i, order_price := order_price y, order_quantity := order_quantity y - k\<rparr>) = NoReason"
    by simp
  moreover have "x\<lparr>order_id := i, order_price := order_price y, order_quantity := order_quantity y - k\<rparr> = new"
    using xy(3) by (cases x) (simp add: new_def)
  ultimately have "spec_om_replace (stock_manager ?R symbol) i new = (accept, \<lparr>sm_book = ?e, sm_orders = orders\<rparr>)"
    using assms(4,7) xy side by (simp add: spec_om_replace_def Let_def orders_def new_def word_sub_le)
  from replace_with [OF inv st(2) this] obtain R' where R': "reg_cancelReplace ?R symbol i new = Some (accept, R')"
    "registry_with ?R symbol \<lparr>sm_book = ?e, sm_orders = orders\<rparr> R'" by blast
  have "engine_tracks ?f (\<lambda>t. map (\<lambda>r. if order_id r = order_id y then r\<lparr>order_quantity := order_quantity y - k\<rparr> else r) (b t)) ?e"
  proof (rule tracks_rebuild [OF st(1,3) assms(3)])
    show "orders (?f (order_id y)) = Some (new\<lparr>order_status := New\<rparr>)" by (simp add: orders_def assms(6))
    show "plain (new\<lparr>order_status := New\<rparr>) = renamed ?f (y\<lparr>order_quantity := order_quantity y - k\<rparr>)"
      using assms(6,8) by (cases x; cases y) (simp add: plain_def renamed_def new_def)
    show "\<exists>z. orders (order_id u) = Some z \<and> plain z = plain u"
      if "u \<in> set (reg_book ?R symbol s)" "order_id u \<noteq> ?f (order_id y)" for u
      using reg_resting(1) [OF inv that(1)] that(2) assms(6) by (force simp: orders_def same_order_plain)
  qed
  then have et: "engine_tracks ?f (mkt_cut b (order_id y) k) ?e" by (simp add: mkt_cut_part [OF st(4) assms(3,4)])
  have "parity_inv (Suc n) (mkt_put M l symbol (mkt_cut b (order_id y) k) []) (B(l \<mapsto> sb)) (A\<lparr>ia_registry := R'\<rparr>)"
    by (rule step_update [OF assms(1,2) R'(2) _ _ _ _ assms(5), where d = False])
      (use et assms(7) book_ids_cut in \<open>auto simp: engineIdFor_upd orders_def\<close>)
  with R'(1) show ?thesis unfolding new_def by blast
qed

lemma cancel_step:
  assumes "parity_inv n M B A" "mkt_cancel M m = Some M'" "Suc n < 2 ^ 32"
  shows "in_step (Suc n) M' (ibb_handleOrderCancel m B) (ia_handleOrderCancel m A) (ia_tradeVolume A)"
proof (cases "mkt_books M (ox_stockLocate m)")
  case None
  then have "ia_handleOrderCancel m A = Some (False, A)" "ibb_handleOrderCancel m B = B" "M' = M"
    using assms(2) parity_invD(2,3) [OF assms(1), of "ox_stockLocate m"]
    by (simp_all add: ia_handleOrderCancel_def ibb_handleOrderCancel_def on_book_def mkt_cancel_def mkt_on_def)
  with in_step_same [OF assms(1)] show ?thesis by simp
next
  case (Some e)
  obtain symbol b where book: "mkt_books M (ox_stockLocate m) = Some (symbol, b)" using Some by (cases e) simp
  let ?R = "ia_registry A" and ?ref = "ox_orderReferenceNumber m" and ?l = "ox_stockLocate m"
    and ?n = "ucast (ox_cancelledShares m) :: Quantity" and ?f = "ia_engineIdFor A"
  obtain y where find: "mkt_find b ?ref = Some y" and M': "M' = mkt_put M ?l symbol (mkt_cut b ?ref ?n) []"
    using assms(2) by (auto simp: mkt_cancel_def mkt_on_def book split: if_splits)
  obtain sb where st: "B ?l = Some sb" "builder_tracks n b sb" "book_ok b" by (rule parity_inv_stock [OF assms(1) book])
  note y = mkt_find_Some [OF find st(3)]
  have bt: "builder_tracks (Suc n) (mkt_cut b (order_id y) ?n) (ibb_reduceOrder sb ?ref ?n)"
    using builder_tracks_Suc [OF builder_cut [OF st(2,3) y(1)], of ?n] y(2) by simp
  have build: "ibb_handleOrderCancel m B = B(?l \<mapsto> ibb_reduceOrder sb ?ref ?n)"
    by (simp add: ibb_handleOrderCancel_def on_book_def st(1))
  obtain x where x: "reg_findOrder ?R symbol (?f ?ref) = Some x" "plain x = renamed ?f y" "\<not> cannot_rest x"
    using engine_order [OF assms(1) book y(1)] y(2) by metis
  note look = parity_invD(2) [OF assms(1), of ?l] book x(1) plain_renamed(4) [OF x(2)]
  show ?thesis
  proof (cases "order_quantity y \<le> ?n")
    case True
    note cut = mkt_cut_all [OF st(3) y(1) True]
    obtain R' where R': "reg_cancelOrder ?R symbol (?f ?ref) = Some (accept, R')"
      "parity_inv (Suc n) M' (B(?l \<mapsto> ibb_reduceOrder sb ?ref ?n)) (A\<lparr>ia_registry := R'\<rparr>)"
      using cancel_update [OF assms(1) book y(1) bt [unfolded cut]] cut unfolding M' y(2) by auto
    have "ia_handleOrderCancel m A = Some (True, A\<lparr>ia_registry := R'\<rparr>)"
      using R'(1) True look by (simp add: ia_handleOrderCancel_def Let_def min_def)
    with R'(2) build show ?thesis by (simp add: in_stepI)
  next
    case False
    then have "?n \<le> order_quantity y" "?n < order_quantity y" by simp_all
    moreover obtain R' where R': "reg_cancelReplace ?R symbol (?f ?ref) (x\<lparr>order_id := ?f ?ref, order_quantity := order_quantity y - ?n\<rparr>) =
        Some (accept, R')" "parity_inv (Suc n) M' (B(?l \<mapsto> ibb_reduceOrder sb ?ref ?n)) (A\<lparr>ia_registry := R'\<rparr>)"
      using cut_update [OF assms(1) book y(1) calculation(2) bt _ _ x(2,3), of "?f ?ref"] x(1) unfolding M' y(2) by auto
    ultimately have "ia_handleOrderCancel m A = Some (True, A\<lparr>ia_registry := R'\<rparr>)"
      using False look by (simp add: ia_handleOrderCancel_def Let_def min_def)
    with R'(2) build show ?thesis by (simp add: in_stepI)
  qed
qed

text \<open>A replaced order goes to the back in the engine too, and keeps its id there.\<close>

lemma replace_engine:
  assumes "parity_inv n M B A" "mkt_books M l = Some (symbol, b)" "y \<in> set (b s)" "mkt_new_ref M ref" "mkt_restable b s price shares"
    and "price \<noteq> order_price y \<or> order_quantity y < shares" "i = ia_engineIdFor A (order_id y)"
  shows "\<exists>x sm R'. reg_findOrder (ia_registry A) symbol i = Some x \<and>
    reg_cancelReplace (ia_registry A) symbol i (x\<lparr>order_id := i, order_price := price, order_quantity := shares\<rparr>) = Some (accept, R') \<and>
    registry_with (ia_registry A) symbol sm R' \<and> dom (sm_orders sm) = dom (reg_findOrder (ia_registry A) symbol) \<and>
    engine_tracks ((ia_engineIdFor A)(ref := i)) (spec_rest (spec_cancel b (order_id y)) (limit_order ref s price shares)) (sm_book sm)"
proof -
  let ?R = "ia_registry A" and ?f = "ia_engineIdFor A"
  obtain st: "engine_tracks ?f b (reg_book ?R symbol)" "book_ids b \<subseteq> set (mkt_used M)" "reg_instruments ?R symbol \<noteq> None"
    "book_ok (reg_book ?R symbol)" "book_ok b" by (rule parity_inv_stock [OF assms(1,2)])
  have side: "order_side y = s" using book_ok_queue [OF st(5), of s] assms(3) by (auto simp: queue_ok_def)
  have known: "order_id y \<in> book_ids b" by (rule in_book_ids [where b = b, OF assms(3)])
  obtain x where x: "reg_findOrder ?R symbol i = Some x" "plain x = renamed ?f y" "\<not> cannot_rest x"
    using engine_order [OF assms(1-3)] assms(7) by metis
  note xy = plain_renamed [OF x(2)]
  define new where "new = x\<lparr>order_id := i, order_price := price, order_quantity := shares\<rparr>"
  define sm where "sm = \<lparr>sm_book = spec_rest (spec_cancel (reg_book ?R symbol) i) (new\<lparr>order_status := New\<rparr>),
    sm_orders = (reg_findOrder ?R symbol)(i \<mapsto> new\<lparr>order_status := New\<rparr>)\<rparr>"
  have "replace_reason (stock_manager ?R symbol) i new = NoReason"
    using amend_accepted [OF assms(1-3) _ x(2,3) assms(5,7)] x(1) assms(7) by (simp add: new_def)
  moreover have "\<not> (price = order_price x \<and> shares \<le> order_quantity x)" using assms(6) xy by auto
  ultimately have "spec_om_replace (stock_manager ?R symbol) i new = (accept, sm)"
    using x(1) by (auto simp: spec_om_replace_def Let_def new_def sm_def)
  from replace_with [OF parity_invD(1) [OF assms(1)] st(3) this] obtain R' where
    R': "reg_cancelReplace ?R symbol i new = Some (accept, R')" "registry_with ?R symbol sm R'" by blast
  have new: "plain (new\<lparr>order_status := New\<rparr>) = limit_order i s price shares"
    using xy(2) side x(3) OrderType.exhaust [of "order_type x"] TimeInForce.exhaust [of "order_tif x"]
    by (cases x) (auto simp: new_def plain_def limit_order_def cannot_rest_def)
  have "engine_tracks (?f(ref := i)) (spec_cancel b (order_id y)) (spec_cancel (reg_book ?R symbol) i)"
    unfolding assms(7) by (rule tracks_cong [OF tracks_cancel [OF st(1,4) known]])
      (use st(2) assms(4) in \<open>auto simp: book_ids_cancel mkt_new_ref_def\<close>)
  then have "engine_tracks (?f(ref := i)) (spec_rest (spec_cancel b (order_id y)) (limit_order ref s price shares)) (sm_book sm)"
    unfolding sm_def by (simp, intro tracks_rest) (use new in \<open>simp_all add: renamed_def limit_order_def\<close>)
  moreover have "dom (sm_orders sm) = dom (reg_findOrder ?R symbol)" using x(1) by (auto simp: sm_def)
  ultimately show ?thesis using R' x(1) unfolding new_def by blast
qed

lemma replace_step:
  assumes "parity_inv n M B A" "mkt_replace M m = Some M'" "Suc n < 2 ^ 32"
  shows "in_step (Suc n) M' (ibb_handleOrderReplace m B) (ia_handleOrderReplace m A) (ia_tradeVolume A)"
proof (cases "mkt_books M (ou_stockLocate m)")
  case None
  then have "ia_handleOrderReplace m A = Some (False, A)" "ibb_handleOrderReplace m B = B" "M' = M"
    using assms(2) parity_invD(2,3) [OF assms(1), of "ou_stockLocate m"]
    by (simp_all add: ia_handleOrderReplace_def ibb_handleOrderReplace_def on_book_def mkt_replace_def mkt_on_def)
  with in_step_same [OF assms(1)] show ?thesis by simp
next
  case (Some e)
  obtain symbol b where book: "mkt_books M (ou_stockLocate m) = Some (symbol, b)" using Some by (cases e) simp
  let ?R = "ia_registry A" and ?old = "ou_originalOrderReferenceNumber m" and ?l = "ou_stockLocate m" and ?f = "ia_engineIdFor A"
  define ref where "ref = ou_newOrderReferenceNumber m"
  define price :: Price where "price = ucast (ou_price m)"
  define shares :: Quantity where "shares = ucast (ou_shares m)"
  note defs = ref_def price_def shares_def
  obtain y where find: "mkt_find b ?old = Some y"
    and ok: "mkt_new_ref M ref" "mkt_restable b (order_side y) price shares" "price \<noteq> order_price y \<or> order_quantity y < shares"
    and M': "M' = mkt_put M ?l symbol (spec_rest (spec_cancel b ?old) (limit_order ref (order_side y) price shares)) [ref]"
    using assms(2) by (auto simp: mkt_replace_def mkt_on_def book Let_def defs split: if_splits option.splits)
  obtain sb where st: "B ?l = Some sb" "builder_tracks n b sb" "book_ids b \<subseteq> set (mkt_used M)" "book_ok b"
    by (rule parity_inv_stock [OF assms(1) book])
  note y = mkt_find_Some [OF find st(4)]
  define b' where "b' = spec_rest (spec_cancel b ?old) (limit_order ref (order_side y) price shares)"
  have unused: "ref \<notin> set (mkt_used M)" "ref < first_synthetic" using ok(1) by (simp_all add: mkt_new_ref_def)
  obtain x sm R' where R': "reg_findOrder ?R symbol (?f ?old) = Some x" "registry_with ?R symbol sm R'"
    "reg_cancelReplace ?R symbol (?f ?old) (x\<lparr>order_id := ?f ?old, order_price := price, order_quantity := shares\<rparr>) = Some (accept, R')"
    "engine_tracks (?f(ref := ?f ?old)) b' (sm_book sm)" "dom (sm_orders sm) = dom (reg_findOrder ?R symbol)"
    using replace_engine [OF assms(1) book y(1) ok] y(2) unfolding b'_def by auto
  define A' where "A' = A\<lparr>ia_registry := R', ia_engineIdForRef := (ia_engineIdForRef A)(ref \<mapsto> ?f ?old)\<rparr>"
  have sel: "ia_registry A' = R'" "ia_symbols A' = ia_symbols A" "ia_nextSyntheticId A' = ia_nextSyntheticId A"
    "ia_tradeVolume A' = ia_tradeVolume A" by (simp_all add: A'_def)
  have eid: "ia_engineIdFor A' = ?f(ref := ?f ?old)" unfolding A'_def by (rule engineIdFor_upd)
  have used: "?f ?old \<in> set (mkt_used M)" using parity_invD(4) [OF assms(1)] st(3) y(3) by (auto simp: ids_inv_def)
  have bt: "builder_tracks (Suc n) b' (ibb_addOrder (ibb_deleteOrder sb ?old) ref (order_side y) shares price)"
    unfolding b'_def using st(3) unused(1) ok(2) ucast_shares [of "ou_shares m"] assms(3) builder_delete [OF st(2,4) y(1)] y(2)
    by (intro builder_add) (auto simp: mkt_restable_def shares_def book_ids_cancel)
  have "parity_inv (Suc n) M' (B(?l \<mapsto> ibb_addOrder (ibb_deleteOrder sb ?old) ref (order_side y) shares price)) A'"
    unfolding M' b'_def [symmetric] by (rule step_update [OF assms(1) book R'(2) _ _ _ _ bt, where d = False])
      (use R'(4,5) unused used in \<open>auto simp: sel eid b'_def book_ids_rest book_ids_cancel limit_order_def\<close>)
  moreover have "ia_handleOrderReplace m A = Some (True, A')"
    using R'(1,3) parity_invD(2) [OF assms(1), of ?l] book
    by (simp add: ia_handleOrderReplace_def Let_def A'_def defs)
  moreover have "ibb_handleOrderReplace m B = B(?l \<mapsto> ibb_addOrder (ibb_deleteOrder sb ?old) ref (order_side y) shares price)"
    using builder_lookup(1) [OF st(2) book_orders_side [where b = b, OF y(1)]] y(2)
    by (simp add: ibb_handleOrderReplace_def on_book_def st(1) defs entry_def)
  ultimately show ?thesis using sel(4) by (simp add: in_stepI)
qed

text \<open>Both sides may count a snapshot or note a name: the invariant does not see it.\<close>

definition same_levels :: "SymbolBook \<Rightarrow> SymbolBook \<Rightarrow> bool" where
  "same_levels sb sb' \<longleftrightarrow> sb_orders sb' = sb_orders sb \<and> sb_bidLevels sb' = sb_bidLevels sb \<and> sb_askLevels sb' = sb_askLevels sb"

definition same_registry :: "InstrumentRegistry \<Rightarrow> InstrumentRegistry \<Rightarrow> bool" where
  "same_registry R R' \<longleftrightarrow> reg_inv R' \<and> reg_book R' = reg_book R \<and> reg_findOrder R' = reg_findOrder R \<and>
     (\<forall>t. reg_instruments R' t = None \<longleftrightarrow> reg_instruments R t = None)"

lemma same_levels_tracks:
  assumes "builder_tracks n b sb" "same_levels sb sb'"
  shows "builder_tracks n b sb'"
proof -
  have o: "sb_orders sb' = sb_orders sb" using assms(2) by (simp add: same_levels_def)
  have l: "sb_levels s sb' = sb_levels s sb" for s using assms(2) by (cases s) (simp_all add: same_levels_def)
  have "resting_shares sb' = resting_shares sb" by (simp add: fun_eq_iff resting_shares_def o)
  then show ?thesis using assms(1) unfolding builder_tracks_def sbook_ok_def l o by simp
qed

lemma parity_same:
  assumes "parity_inv n M B A" "same_registry (ia_registry A) R'"
    and "B l = Some sb" "same_levels sb sb'"
  shows "parity_inv n M (B(l \<mapsto> sb')) (A\<lparr>ia_registry := R'\<rparr>)"
proof -
  let ?A = "A\<lparr>ia_registry := R'\<rparr>"
  have eid: "ia_engineIdFor ?A = ia_engineIdFor A" by (rule engineIdFor_upd)
  have R': "reg_inv R'" "reg_book R' = reg_book (ia_registry A)" "reg_findOrder R' = reg_findOrder (ia_registry A)"
    "\<And>t. reg_instruments R' t = None \<longleftrightarrow> reg_instruments (ia_registry A) t = None"
    using assms(2) by (simp_all add: same_registry_def)
  have "stock_inv n M ?A symbol b sc" if "mkt_books M k = Some (symbol, b)" "(B(l \<mapsto> sb')) k = Some sc" for k symbol b sc
  proof (cases "k = l")
    case True
    then have "stock_inv n M A symbol b sb" "sc = sb'" using that parity_invD(7) [OF assms(1)] assms(3) by auto
    then show ?thesis using same_levels_tracks [OF _ assms(4)] by (simp add: stock_inv_def eid R')
  next
    case False
    then have "stock_inv n M A symbol b sc" using that parity_invD(7) [OF assms(1)] by simp
    then show ?thesis by (simp add: stock_inv_def eid R')
  qed
  moreover have "ids_inv n M ?A" using parity_invD(4) [OF assms(1)] by (simp add: ids_inv_def made_up_def eid R')
  moreover have "(B(l \<mapsto> sb')) k = None \<longleftrightarrow> mkt_books M k = None" for k
    using parity_invD(3) [OF assms(1), of k] parity_invD(3) [OF assms(1), of l] assms(3) by (cases "k = l") auto
  ultimately show ?thesis using assms(1) unfolding parity_inv_def by (simp add: R')
qed

text \<open>A stock that is announced again only has its name set once more.\<close>

lemma register_again:
  assumes "parity_inv n M B A" "mkt_books M (sd_stockLocate m) = Some (trimTrailingSpaces (sd_stock m), b)"
  shows "in_step (Suc n) M (ibb_handleStockDirectory m B) (ia_handleStockDirectory m A) (ia_tradeVolume A)"
proof -
  let ?l = "sd_stockLocate m" and ?s = "trimTrailingSpaces (sd_stock m)" and ?R = "ia_registry A"
  obtain sb where st: "B ?l = Some sb" "reg_instruments ?R ?s \<noteq> None" by (rule parity_inv_stock [OF assms])
  have "same_registry ?R (reg_createInstrument ?R ?s)"
    using st(2) parity_invD(1) [OF assms(1)] by (simp add: same_registry_def reg_createInstrument_def)
  from parity_same [OF assms(1) this st(1), of "sb\<lparr>sb_symbol := ?s\<rparr>"]
  have "parity_inv (Suc n) M (ibb_handleStockDirectory m B) (A\<lparr>ia_registry := reg_createInstrument ?R ?s\<rparr>)"
    using parity_inv_mono [of n M _ _ "Suc n"] by (simp add: same_levels_def ibb_handleStockDirectory_def st(1))
  moreover have "ia_symbols A = (ia_symbols A)(?l \<mapsto> ?s)"
    using parity_invD(2) [OF assms(1), of ?l] assms(2) by auto
  then have "ia_handleStockDirectory m A = Some (True, A\<lparr>ia_registry := reg_createInstrument ?R ?s\<rparr>)"
    unfolding ia_handleStockDirectory_def Let_def by (cases A) simp
  ultimately show ?thesis by (auto simp: in_step_def)
qed

lemma create_view:
  assumes "reg_inv R" "reg_instruments R symbol = None" "R' = reg_createInstrument R symbol"
  shows "reg_inv R'" "reg_book R' = reg_book R" "reg_findOrder R' = reg_findOrder R" "reg_book R symbol = empty_book"
    "reg_instruments R' t \<noteq> None \<longleftrightarrow> t = symbol \<or> reg_instruments R t \<noteq> None"
  using assms new_manager [of R]
  by (auto simp: reg_createInstrument_def reg_inv_def reg_book_def reg_findOrder_def om_spec_def om_find_def fun_eq_iff)

lemma new_book_tracks: "builder_tracks n empty_book (new_SymbolBook\<lparr>sb_symbol := symbol\<rparr>)"
proof -
  have "sb_levels s new_SymbolBook = []" for s by (cases s) (simp_all add: new_SymbolBook_def)
  then have "builder_tracks n empty_book new_SymbolBook"
    using new_SymbolBook_ok [of n] by (simp add: builder_tracks_def) (simp add: new_SymbolBook_def book_orders_def empty_book_def)
  then show ?thesis by (rule same_levels_tracks) (simp add: same_levels_def)
qed

lemma register_new:
  assumes "parity_inv n M B A" "mkt_books M l = None" "symbol \<notin> set (mkt_symbols M)"
    and M': "M' = (mkt_put M l symbol empty_book [])\<lparr>mkt_symbols := symbol # mkt_symbols M\<rparr>"
    and A': "A' = A\<lparr>ia_registry := reg_createInstrument (ia_registry A) symbol, ia_symbols := (ia_symbols A)(l \<mapsto> symbol)\<rparr>"
    and B': "B' = B(l \<mapsto> new_SymbolBook\<lparr>sb_symbol := symbol\<rparr>)"
  shows "parity_inv n M' B' A'"
proof -
  let ?R = "ia_registry A"
  have free: "reg_instruments ?R symbol = None" using parity_invD(5) [OF assms(1), of symbol] assms(3) by auto
  define R' where "R' = reg_createInstrument ?R symbol"
  note R' = create_view [OF parity_invD(1) [OF assms(1)] free R'_def]
  have eid: "ia_engineIdFor A' = ia_engineIdFor A" by (simp add: A' ia_engineIdFor_def fun_eq_iff)
  have sel: "ia_registry A' = R'" "ia_symbols A' = (ia_symbols A)(l \<mapsto> symbol)" "ia_nextSyntheticId A' = ia_nextSyntheticId A"
    by (simp_all add: A' R'_def)
  have unknown: "t \<noteq> symbol" if "mkt_books M k = Some (t, b)" for k t b
    using that assms(3) parity_inv_stock [OF assms(1) that] parity_invD(5) [OF assms(1), of t] by metis
  have "stock_inv n M' A' t b sb" if k: "mkt_books M' k = Some (t, b)" "B' k = Some sb" for k t b sb
  proof (cases "k = l")
    case True
    then have "t = symbol" "b = empty_book" "sb = new_SymbolBook\<lparr>sb_symbol := symbol\<rparr>" using k by (auto simp: M' mkt_put_def B')
    with new_book_tracks show ?thesis
      by (simp add: stock_inv_def sel R'(2,4) M' engine_tracks_def book_ids_two) (simp add: empty_book_def)
  next
    case False
    then have "mkt_books M k = Some (t, b)" "B k = Some sb" using k by (simp_all add: M' mkt_put_def B')
    from parity_invD(7) [OF assms(1) this] show ?thesis by (simp add: stock_inv_def sel R'(2) eid M' mkt_put_def)
  qed
  moreover have "k = k'" if "mkt_books M' k = Some (t, b)" "mkt_books M' k' = Some (t, b')" for k k' t b b'
    using that unknown parity_invD(6) [OF assms(1)] unfolding M' mkt_put_def by (auto split: if_splits)
  moreover have "ids_inv n M' A'"
    using parity_invD(4) [OF assms(1)] by (simp add: ids_inv_def made_up_def sel eid R'(3) M' mkt_put_def)
  moreover have "ia_symbols A' = map_option fst \<circ> mkt_books M'"
    using parity_invD(2) [OF assms(1)] by (auto simp: sel M' mkt_put_def fun_eq_iff)
  moreover have "B' k = None \<longleftrightarrow> mkt_books M' k = None" for k
    using parity_invD(3) [OF assms(1), of k] by (simp add: B' M' mkt_put_def)
  moreover have "reg_instruments (ia_registry A') t \<noteq> None \<longleftrightarrow> t \<in> set (mkt_symbols M')" for t
    using parity_invD(5) [OF assms(1), of t] R'(5) [of t] by (simp add: sel M')
  ultimately show ?thesis using R'(1) unfolding parity_inv_def sel by simp
qed

lemma register_step:
  assumes "parity_inv n M B A" "mkt_register M (sd_stockLocate m) (trimTrailingSpaces (sd_stock m)) = Some M'"
  shows "in_step (Suc n) M' (ibb_handleStockDirectory m B) (ia_handleStockDirectory m A) (ia_tradeVolume A)"
proof (cases "mkt_books M (sd_stockLocate m)")
  case None
  with assms(2) have new: "trimTrailingSpaces (sd_stock m) \<notin> set (mkt_symbols M)"
    "M' = (mkt_put M (sd_stockLocate m) (trimTrailingSpaces (sd_stock m)) empty_book [])
      \<lparr>mkt_symbols := trimTrailingSpaces (sd_stock m) # mkt_symbols M\<rparr>"
    by (auto simp: mkt_register_def split: if_splits)
  from parity_inv_mono [OF register_new [OF assms(1) None new(1,2) refl refl] le_SucI [OF order_refl]]
  show ?thesis using parity_invD(3) [OF assms(1), of "sd_stockLocate m"] None
    by (auto simp: in_step_def ia_handleStockDirectory_def ibb_handleStockDirectory_def Let_def)
next
  case (Some e)
  then obtain b where "mkt_books M (sd_stockLocate m) = Some (trimTrailingSpaces (sd_stock m), b)" "M' = M"
    using assms(2) by (cases e) (auto simp: mkt_register_def split: if_splits)
  with register_again [OF assms(1)] show ?thesis by blast
qed

text \<open>The end of the messages (system event \<open>C\<close>) starts a new session on both sides.\<close>

fun ends_messages :: "ItchMessage \<Rightarrow> bool" where
  "ends_messages (SystemEvent m) \<longleftrightarrow> se_eventCode m = CHR ''C''"
| "ends_messages _ \<longleftrightarrow> False"

definition volume_after :: "u64 \<Rightarrow> ItchMessage \<Rightarrow> u64" where
  "volume_after v m = (if ends_messages m then 0 else v + ucast (executedSharesOf m))"

lemma system_step:
  assumes "parity_inv n M B A"
  shows "in_step (Suc n) (if se_eventCode m = CHR ''C'' then empty_Market else M) (ibb_handleSystemEvent m B)
    (ia_handleSystemEvent m A) (volume_after (ia_tradeVolume A) (SystemEvent m))"
proof (cases "se_eventCode m = CHR ''C''")
  case True
  have "parity_inv (Suc n) empty_Market Map.empty (ia_reset A)"
    by (rule parity_inv_empty [of "reg_reset (ia_registry A)"])
      (simp_all add: ia_reset_def reg_reset_def reg_inv_def first_synthetic_def)
  with True show ?thesis
    by (auto simp: in_step_def ia_handleSystemEvent_def ibb_handleSystemEvent_def ibb_reset_def volume_after_def ia_reset_def)
next
  case False
  with in_step_same [OF assms] show ?thesis
    by (simp add: ia_handleSystemEvent_def ibb_handleSystemEvent_def volume_after_def)
qed

lemma apply_step:
  assumes "parity_inv n M B A" "mkt_step M m = Some M'" "Suc n < 2 ^ 32"
  shows "in_step (Suc n) M' (ibb_apply B m) (ia_apply A m) (volume_after (ia_tradeVolume A) m)"
proof (cases m)
  case (SystemEvent e)
  then show ?thesis using system_step [OF assms(1), of e] assms(2) by simp
next
  case (StockDirectory e)
  then show ?thesis using register_step [OF assms(1), of e] assms(2) by (simp add: volume_after_def)
next
  case (AddOrder e)
  then show ?thesis using add_step [OF assms(1) _ assms(3)] assms(2) by (simp add: volume_after_def)
next
  case (AddOrderMpid e)
  then show ?thesis using add_step [OF assms(1) _ assms(3)] assms(2) by (simp add: volume_after_def)
next
  case (OrderExecuted e)
  then show ?thesis using execute_step [OF assms(1) _ assms(3)] assms(2)
    by (simp add: volume_after_def ibb_handleOrderExecuted_def)
next
  case (OrderExecutedWithPrice e)
  then show ?thesis using execute_step [OF assms(1) _ assms(3)] assms(2)
    by (simp add: volume_after_def ibb_handleOrderExecuted_def)
next
  case (OrderCancel e)
  then show ?thesis using cancel_step [OF assms(1) _ assms(3)] assms(2) by (simp add: volume_after_def)
next
  case (OrderDelete e)
  then show ?thesis using delete_step [OF assms(1) _ assms(3)] assms(2) by (simp add: volume_after_def)
next
  case (OrderReplace e)
  then show ?thesis using replace_step [OF assms(1) _ assms(3)] assms(2) by (simp add: volume_after_def)
next
  case (TimestampSeconds e)
  then show ?thesis using in_step_same [OF assms(1)] assms(2) by (simp add: volume_after_def)
qed

section \<open>The checker finds nothing\<close>

definition checker_inv :: "nat \<Rightarrow> Market \<Rightarrow> ParityChecker \<Rightarrow> bool" where
  "checker_inv n M P \<longleftrightarrow> parity_inv n M (pc_builder P) (pc_adapter P) \<and>
     pr_mismatchCount (pc_report P) = 0 \<and> pr_firstMismatches (pc_report P) = []"

text \<open>A comparison only counts.\<close>

definition same_counts :: "ParityChecker \<Rightarrow> ParityChecker \<Rightarrow> bool" where
  "same_counts P P' \<longleftrightarrow> pc_checkpointInterval P' = pc_checkpointInterval P \<and>
     ia_tradeVolume (pc_adapter P') = ia_tradeVolume (pc_adapter P) \<and>
     pr_messagesProcessed (pc_report P') = pr_messagesProcessed (pc_report P) \<and>
     pr_feedTradeVolume (pc_report P') = pr_feedTradeVolume (pc_report P) \<and>
     pr_engineTradeVolume (pc_report P') = pr_engineTradeVolume (pc_report P)"

lemma compareLocate_quiet:
  assumes "checker_inv n M P"
  shows "\<exists>P'. pc_compareLocate l P = Some P' \<and> checker_inv n M P' \<and> same_counts P P'"
proof (cases "mkt_books M l")
  case None
  have "pc_builder P l = None" using None parity_invD(3) assms unfolding checker_inv_def by blast
  then show ?thesis using assms by (simp add: pc_compareLocate_def ibb_snapshot_def same_counts_def checker_inv_def)
next
  case (Some e)
  let ?A = "pc_adapter P" and ?B = "pc_builder P"
  have inv: "parity_inv n M ?B ?A" using assms by (simp add: checker_inv_def)
  obtain symbol b where book: "mkt_books M l = Some (symbol, b)" using Some by (cases e) simp
  obtain sb where st: "?B l = Some sb" "builder_tracks n b sb" "engine_tracks (ia_engineIdFor ?A) b (reg_book (ia_registry ?A) symbol)"
    "reg_instruments (ia_registry ?A) symbol \<noteq> None" "book_ok (reg_book (ia_registry ?A) symbol)"
    by (rule parity_inv_stock [OF inv book])
  obtain s R' where R': "reg_snapshot (ia_registry ?A) symbol 1 = Some (s, R')"
    "registry_with (ia_registry ?A) symbol (stock_manager (ia_registry ?A) symbol) R'"
    "snap_bids s = spec_depth (reg_book (ia_registry ?A) symbol) Buy 1"
    "snap_asks s = spec_depth (reg_book (ia_registry ?A) symbol) Sell 1"
    using snapshot_with [OF parity_invD(1) [OF inv] st(4), of 1] by blast
  define sb' where "sb' = sb\<lparr>sb_nextSnapshotSequenceNumber := sb_nextSnapshotSequenceNumber sb + 1\<rparr>"
  define f where "f = fst (ibb_snapshot ?B l 1)"
  obtain fs where f: "ibb_snapshot ?B l 1 = (Some fs, ?B(l \<mapsto> sb'))" by (simp add: ibb_snapshot_def st(1) sb'_def)
  have tops: "tops_match (snap_bids fs) (snap_bids s)" "tops_match (snap_asks fs) (snap_asks s)"
    using tracked_tops [OF st(2,3,5)] ibb_snapshot_levels [OF f st(1)] R'(3,4)
    by (metis snap_levels_def Side.simps(3), metis snap_levels_def Side.simps(4))
  have "same_registry (ia_registry ?A) R'" using R'(2) by (simp add: registry_with_def same_registry_def)
  then have inv': "parity_inv n M (?B(l \<mapsto> sb')) (?A\<lparr>ia_registry := R'\<rparr>)"
    by (rule parity_same [OF inv _ st(1)]) (simp add: same_levels_def sb'_def)
  have "ia_snapshot ?A l 1 = Some (s, ?A\<lparr>ia_registry := R'\<rparr>)"
    using R'(1) parity_invD(2) [OF inv, of l] book by (simp add: ia_snapshot_def)
  with f tops have "pc_compareLocate l P = Some (P\<lparr>pc_builder := ?B(l \<mapsto> sb'), pc_adapter := ?A\<lparr>ia_registry := R'\<rparr>,
      pc_report := (pc_report P)\<lparr>pr_checkpointsCompared := pr_checkpointsCompared (pc_report P) + 1\<rparr>\<rparr>)"
    by (simp add: pc_compareLocate_def Let_def)
  then show ?thesis using inv' assms by (simp add: checker_inv_def same_counts_def)
qed

lemma compareLocates_quiet:
  assumes "checker_inv n M P"
  shows "\<exists>P'. pc_compareLocates ls P = Some P' \<and> checker_inv n M P' \<and> same_counts P P'"
  using assms
proof (induction ls arbitrary: P)
  case Nil
  then show ?case by (simp add: same_counts_def)
next
  case (Cons l ls)
  obtain P1 where P1: "pc_compareLocate l P = Some P1" "checker_inv n M P1" "same_counts P P1"
    using compareLocate_quiet [OF Cons.prems] by blast
  obtain P2 where "pc_compareLocates ls P1 = Some P2" "checker_inv n M P2" "same_counts P1 P2"
    using Cons.IH [OF P1(2)] by blast
  with P1 show ?case by (simp add: same_counts_def)
qed

text \<open>The checker after the messages of a market: nothing found, and both volumes as they are.\<close>

definition checker_after :: "nat \<Rightarrow> Market \<Rightarrow> nat \<Rightarrow> u64 \<Rightarrow> u64 \<Rightarrow> ParityChecker \<Rightarrow> bool" where
  "checker_after n M interval feed engine P \<longleftrightarrow> checker_inv n M P \<and> pc_checkpointInterval P = interval \<and>
     pr_messagesProcessed (pc_report P) = n \<and> ia_tradeVolume (pc_adapter P) = engine \<and>
     pr_feedTradeVolume (pc_report P) = feed \<and> pr_engineTradeVolume (pc_report P) = engine"

lemma process_quiet:
  assumes "checker_after n M interval feed engine P" "mkt_step M m = Some M'" "Suc n < 2 ^ 32" "interval \<noteq> 0"
  shows "\<exists>P'. pc_process walk P m = Some P' \<and>
    checker_after (Suc n) M' interval (feed + ucast (executedSharesOf m)) (volume_after engine m) P'"
proof -
  have "parity_inv n M (pc_builder P) (pc_adapter P)" using assms(1) by (simp add: checker_after_def checker_inv_def)
  from apply_step [OF this assms(2,3)] obtain ok A where A: "ia_apply (pc_adapter P) m = Some (ok, A)"
    "parity_inv (Suc n) M' (ibb_apply (pc_builder P) m) A" "ia_tradeVolume A = volume_after engine m"
    using assms(1) by (auto simp: in_step_def checker_after_def)
  define known where "known = (case extractLocate m of None \<Rightarrow> pc_knownLocates P
      | Some l \<Rightarrow> if l \<in> set (pc_knownLocates P) then pc_knownLocates P else pc_knownLocates P @ [l])"
  define P1 where "P1 = P\<lparr>pc_knownLocates := known, pc_builder := ibb_apply (pc_builder P) m, pc_adapter := A,
    pc_report := (pc_report P)\<lparr>pr_feedTradeVolume := feed + ucast (executedSharesOf m),
       pr_engineTradeVolume := ia_tradeVolume A, pr_messagesProcessed := Suc n\<rparr>\<rparr>"
  have P1: "checker_after (Suc n) M' interval (feed + ucast (executedSharesOf m)) (volume_after engine m) P1"
    using A(2,3) assms(1) by (simp add: checker_after_def checker_inv_def P1_def)
  have "pc_process walk P m = (if Suc n mod interval = 0 then pc_compareAllLocates walk P1 else Some P1)"
    using A(1) assms(1,4) by (simp add: pc_process_def known_def P1_def Let_def checker_after_def)
  moreover obtain P2 where "pc_compareAllLocates walk P1 = Some P2" "checker_inv (Suc n) M' P2" "same_counts P1 P2"
    using compareLocates_quiet [of "Suc n" M' P1] P1 by (auto simp: pc_compareAllLocates_def checker_after_def)
  ultimately show ?thesis using P1 by (auto simp: checker_after_def same_counts_def)
qed

definition parsed_ok :: "ItchMessage \<Rightarrow> ItchParseResult" where
  "parsed_ok m = \<lparr>pr_ok = True, pr_rawType = of_char (itch_type m), pr_message = m\<rparr>"

lemma replay_quiet:
  assumes "checker_after n M interval feed engine P" "mkt_run M ms = Some M'" "n + length ms < 2 ^ 32" "interval \<noteq> 0"
  shows "\<exists>P'. replay_loop walk (map parsed_ok ms) P decoded skipped = Some (P', decoded + length ms, skipped) \<and>
    checker_after (n + length ms) M' interval (foldl (\<lambda>v m. v + ucast (executedSharesOf m)) feed ms) (foldl volume_after engine ms) P'"
  using assms(1-3)
proof (induction ms arbitrary: n M feed engine P decoded)
  case Nil
  then show ?case by simp
next
  case (Cons m ms)
  obtain M1 where M1: "mkt_step M m = Some M1" "mkt_run M1 ms = Some M'" using Cons.prems(2) by (auto split: bind_splits)
  obtain P1 where P1: "pc_process walk P m = Some P1"
    "checker_after (Suc n) M1 interval (feed + ucast (executedSharesOf m)) (volume_after engine m) P1"
    using process_quiet [OF Cons.prems(1) M1(1) _ assms(4)] Cons.prems(3) by auto
  with Cons.IH [OF P1(2) M1(2), of "Suc decoded"] Cons.prems(3) show ?case by (simp add: parsed_ok_def)
qed

lemma foldl_sum:
  fixes g :: "'a \<Rightarrow> u64"
  shows "foldl (\<lambda>v m. v + g m) a ms = a + (\<Sum>m\<leftarrow>ms. g m)"
  by (induction ms arbitrary: a) (simp_all add: add.assoc)

lemma volume_no_end:
  assumes "\<forall>m\<in>set ms. \<not> ends_messages m"
  shows "foldl volume_after v ms = foldl (\<lambda>v m. v + ucast (executedSharesOf m)) v ms"
  using assms by (induction ms arbitrary: v) (simp_all add: volume_after_def)

lemma feed_frames:
  assumes "\<forall>m\<in>set ms. itch_wf m"
  shows "parser_feed new_ItchParser (concat (map itch_frame ms)) =
    Some (map parsed_ok ms, \<lparr>ip_buffer = [], ip_messagesDecoded = length ms, ip_messagesSkipped = 0\<rparr>)"
  using stream_round_trip [OF assms, of "[concat (map itch_frame ms)]"]
  by (simp add: parsed_ok_def [abs_def] split: bind_splits)

section \<open>A replay of what a market sends\<close>

text \<open>
  C14. Replaying an orderly feed (\<open>mkt_run\<close>).  A feed is orderly when a stock keeps one locate and
  every reference number is below 1,000,000,000 and used once, over all stocks, between two ends of messages; an added or
  replacing order has a price and shares and does not cross the book; an execution hits the order at the
  front of its side, for no more shares than it has and at a price within its limit; a cancel, delete or replace
  for a stock that was announced names a resting order of it; and a replacement at the same price asks for more shares.  On the frames of fewer than
  \<open>2 ^ 32\<close> such messages, whatever the backend, the checkpoint interval (not zero) and the order in which the known
  stocks are compared, \<open>replayFile\<close> returns, decodes all of them and reports no mismatch
  between the book built from the feed and the book of the exchange.  The feed volume it reports is the sum of all
  executed shares; the engine volume counts those since the last end-of-messages event, so the two are equal when there is
  none.  At the end the exchange holds for every stock the prices and quantities of the market's orders, in
  the market's order.
\<close>

theorem replay_follows_market:
  assumes "mkt_run empty_Market ms = Some M" "\<forall>m\<in>set ms. itch_wf m" "length ms < 2 ^ 32" "interval \<noteq> 0"
  shows "\<exists>result R. replayFile walk interval (new_InstrumentRegistry backend) (concat (map itch_frame ms)) = Some (result, R) \<and>
    rr_messagesDecoded result = length ms \<and> rr_messagesSkipped result = 0 \<and>
    pr_messagesProcessed (rr_parity result) = length ms \<and>
    pr_mismatchCount (rr_parity result) = 0 \<and> pr_firstMismatches (rr_parity result) = [] \<and>
    pr_feedTradeVolume (rr_parity result) = (\<Sum>m\<leftarrow>ms. ucast (executedSharesOf m)) \<and>
    pr_engineTradeVolume (rr_parity result) = foldl volume_after 0 ms \<and>
    ((\<forall>m\<in>set ms. \<not> ends_messages m) \<longrightarrow>
       pr_engineTradeVolume (rr_parity result) = pr_feedTradeVolume (rr_parity result)) \<and>
    (\<forall>l symbol b s. mkt_books M l = Some (symbol, b) \<longrightarrow>
       map (\<lambda>r. (order_price r, order_quantity r)) (reg_book R symbol s) = map (\<lambda>r. (order_price r, order_quantity r)) (b s))"
proof -
  let ?A = "new_ItchEngineAdapter (new_InstrumentRegistry backend)"
  have "parity_inv 0 empty_Market Map.empty ?A"
    by (rule parity_inv_empty [OF reg_inv_new(1) [of backend]])
      (simp_all add: new_ItchEngineAdapter_def first_synthetic_def new_InstrumentRegistry_def)
  then have start: "checker_after 0 empty_Market interval 0 0 (new_ParityChecker ?A interval)"
    by (simp add: checker_after_def checker_inv_def new_ParityChecker_def new_ParityReport_def new_ItchEngineAdapter_def)
  obtain P where P: "replay_loop walk (map parsed_ok ms) (new_ParityChecker ?A interval) 0 0 = Some (P, length ms, 0)"
    "checker_after (length ms) M interval (foldl (\<lambda>v m. v + ucast (executedSharesOf m)) 0 ms) (foldl volume_after 0 ms) P"
    using replay_quiet [OF start assms(1) _ assms(4), of walk 0 0] assms(3) by auto
  let ?R = "ia_registry (pc_adapter P)"
  define result where "result = \<lparr>rr_parity = pc_report P, rr_engineEventLog = reg_eventLog ?R,
    rr_messagesDecoded = length ms, rr_messagesSkipped = 0\<rparr>"
  have run: "replayFile walk interval (new_InstrumentRegistry backend) (concat (map itch_frame ms)) = Some (result, ?R)"
    using P(1) by (simp add: replayFile_def replayMessages_def feed_frames [OF assms(2)] Let_def result_def)
  have "(\<Sum>m\<leftarrow>ms. ucast (executedSharesOf m)) = foldl (\<lambda>v m. v + ucast (executedSharesOf m)) (0 :: u64) ms"
    by (simp add: foldl_sum)
  moreover have "foldl volume_after 0 ms = foldl (\<lambda>v m. v + ucast (executedSharesOf m)) 0 ms"
    if "\<forall>m\<in>set ms. \<not> ends_messages m" by (rule volume_no_end [OF that])
  moreover have inv: "parity_inv (length ms) M (pc_builder P) (pc_adapter P)"
    using P(2) by (simp add: checker_after_def checker_inv_def)
  have "map (\<lambda>r. (order_price r, order_quantity r)) (reg_book ?R symbol s) = map (\<lambda>r. (order_price r, order_quantity r)) (b s)"
    if book: "mkt_books M l = Some (symbol, b)" for l symbol b s
    by (rule parity_inv_stock [OF inv book]) (rule tracks_views(5))
  ultimately show ?thesis
    using run P(2) by (intro exI [of _ result] exI [of _ ?R]) (simp add: result_def checker_after_def checker_inv_def)
qed

definition parity_demo :: "ItchMessage list" where
  "parity_demo = feed_demo @ [feed_add 13 CHR ''S'' 25 60,
     OrderReplace \<lparr>ou_stockLocate = 1, ou_trackingNumber = 0, ou_timestamp = 0, ou_originalOrderReferenceNumber = 10,
       ou_newOrderReferenceNumber = 14, ou_shares = 20, ou_price = 51\<rparr>,
     OrderExecutedWithPrice \<lparr>oc_base = \<lparr>oe_stockLocate = 1, oe_trackingNumber = 0, oe_timestamp = 0, oe_orderReferenceNumber = 14,
       oe_executedShares = 20, oe_matchNumber = 0\<rparr>, oc_printable = CHR ''Y'', oc_executionPrice = 50\<rparr>,
     OrderCancel \<lparr>ox_stockLocate = 1, ox_trackingNumber = 0, ox_timestamp = 0, ox_orderReferenceNumber = 11, ox_cancelledShares = 8\<rparr>,
     OrderDelete \<lparr>od_stockLocate = 1, od_trackingNumber = 0, od_timestamp = 0, od_orderReferenceNumber = 13\<rparr>]"

lemma parity_demo_market:
  "map_option (\<lambda>M. map_option (\<lambda>(symbol, b). (symbol, map (\<lambda>r. (order_price r, order_quantity r)) (b Buy), b Sell)) (mkt_books M 1))
     (mkt_run empty_Market parity_demo) = Some (Some (''ABC'', [(50, 22), (49, 5)], []))"
  by code_simp

theorem replay_follows_market_witness:
  "\<exists>result R. replayFile rev 2 (new_InstrumentRegistry Optimized) (concat (map itch_frame parity_demo)) = Some (result, R) \<and>
    pr_messagesProcessed (rr_parity result) = 10 \<and> pr_mismatchCount (rr_parity result) = 0 \<and>
    pr_engineTradeVolume (rr_parity result) = 60 \<and> pr_feedTradeVolume (rr_parity result) = 60 \<and>
    map (\<lambda>r. (order_price r, order_quantity r)) (reg_book R ''ABC'' Buy) = [(50, 22), (49, 5)]"
proof -
  obtain M b where M: "mkt_run empty_Market parity_demo = Some M" "mkt_books M 1 = Some (''ABC'', b)"
    "map (\<lambda>r. (order_price r, order_quantity r)) (b Buy) = [(50, 22), (49, 5)]"
    using parity_demo_market by auto
  have wf: "\<forall>m\<in>set parity_demo. itch_wf m"
    by (simp add: parity_demo_def feed_demo_def feed_directory_def feed_add_def feed_execute_def timestamp_ok_def)
  have "length parity_demo = 10" "foldl volume_after 0 parity_demo = 60"
    "(\<Sum>m\<leftarrow>parity_demo. ucast (executedSharesOf m)) = (60 :: u64)"
    by (simp_all add: parity_demo_def feed_demo_def feed_directory_def feed_add_def feed_execute_def volume_after_def)
  with replay_follows_market [OF M(1) wf, of 2 rev Optimized] M(2,3) show ?thesis by auto
qed

section \<open>Where the two books part\<close>

text \<open>
  Conditions of \<open>mkt_step\<close> that \<open>docs/itch-notes.md\<close> does not state, but the adapter needs.  What the checker reports
  on messages that break one of them: the mismatches and both volumes after a comparison at every message.
\<close>

definition report_of :: "ItchMessage list \<Rightarrow> (nat \<times> u64 \<times> u64) option" where
  "report_of ms = map_option (\<lambda>(result, R). (pr_mismatchCount (rr_parity result), pr_feedTradeVolume (rr_parity result),
     pr_engineTradeVolume (rr_parity result))) (replayMessages id 1 (new_InstrumentRegistry Reference) (map parsed_ok ms))"

definition feed_replace :: "OrderRefNumber \<Rightarrow> OrderRefNumber \<Rightarrow> u32 \<Rightarrow> u32 \<Rightarrow> ItchMessage" where
  "feed_replace old ref shares price = OrderReplace
     \<lparr>ou_stockLocate = 1, ou_trackingNumber = 0, ou_timestamp = 0, ou_originalOrderReferenceNumber = old,
      ou_newOrderReferenceNumber = ref, ou_shares = shares, ou_price = price\<rparr>"

definition feed_delete :: "OrderRefNumber \<Rightarrow> ItchMessage" where
  "feed_delete ref = OrderDelete
     \<lparr>od_stockLocate = 1, od_trackingNumber = 0, od_timestamp = 0, od_orderReferenceNumber = ref\<rparr>"

definition feed_end :: ItchMessage where
  "feed_end = SystemEvent \<lparr>se_stockLocate = 0, se_trackingNumber = 0, se_timestamp = 0, se_eventCode = CHR ''C''\<rparr>"

text \<open>The end of the messages takes the volume of the engine back to zero, not that of the feed.\<close>

lemma volume_lost_at_end: "report_of (feed_demo @ [feed_end]) = Some (0, 40, 0)"
  by code_simp

text \<open>
  A replacement at the same price for fewer shares is a new order behind the others for the feed,
  but keeps its place in the engine: the next execution of the order that is now first hits it.
\<close>

lemma replace_in_place_diverges:
  "report_of [feed_directory, feed_add 1 CHR ''B'' 10 50, feed_add 2 CHR ''B'' 10 50, feed_replace 1 3 5 50,
     feed_execute 2 10, feed_delete 3] = Some (1, 10, 10)"
  by code_simp

text \<open>
  Reference numbers are unique per stock (\<open>docs/itch-notes.md\<close>), but the adapter has one map for all:
  an order of a second stock takes over the entry of a replaced order of the first.
\<close>

lemma shared_reference_diverges:
  "report_of [feed_directory,
     StockDirectory \<lparr>sd_stockLocate = 2, sd_trackingNumber = 0, sd_timestamp = 0, sd_stock = ''XYZ     '',
      sd_marketCategory = CHR ''Q'', sd_financialStatus = CHR ''N'', sd_roundLotSize = 100,
      sd_roundLotsOnly = CHR ''N'', sd_issueClassification = CHR ''C'', sd_issueSubType = ''Z '',
      sd_authenticity = CHR ''P'', sd_shortSaleThreshold = CHR ''N'', sd_ipoFlag = CHR ''N'',
      sd_luldRefPriceTier = CHR ''1'', sd_etpFlag = CHR ''N'', sd_etpLeverageFactor = 0,
      sd_inverseIndicator = CHR ''N''\<rparr>,
     feed_add 5 CHR ''B'' 10 50, feed_replace 5 7 10 51,
     AddOrder \<lparr>ao_stockLocate = 2, ao_trackingNumber = 0, ao_timestamp = 0, ao_orderReferenceNumber = 7,
      ao_buySellIndicator = CHR ''B'', ao_shares = 10, ao_stock = ''XYZ     '', ao_price = 20\<rparr>,
     feed_delete 7] = Some (1, 0, 0)"
  by code_simp

text \<open>
  They are unique for the life of the resting order only, but the exchange never forgets an id: an order that takes
  the number of a deleted one is in the feed's book and is refused by the engine as a duplicate.
\<close>

lemma reused_reference_diverges:
  "report_of [feed_directory, feed_add 1 CHR ''B'' 10 50, feed_delete 1, feed_add 1 CHR ''B'' 10 50] = Some (1, 0, 0)"
  by code_simp

text \<open>A reference number in the range of the adapter's own ids makes an execution a duplicate.\<close>

lemma synthetic_range_diverges:
  "report_of [feed_directory, feed_add 1000000000 CHR ''B'' 10 50, feed_execute 1000000000 10] = Some (1, 10, 0)"
  by code_simp

end
