(* ===== verification/Feed_Lifecycle.thy ===== *)
theory Feed_Lifecycle
  imports Socket_Feed
begin

text \<open>
  The threads of a live feed.  \<open>SocketFeedReader\<close> (\<open>feed/tcp/socket_feed.cpp\<close>) starts a thread that
  runs \<open>recvLoop\<close>, and its owner calls \<open>start\<close>, \<open>stop\<close>, \<open>join\<close> and the destructor; both touch the
  atomic members and the socket.  Here they are step relations, one atomic operation or system call a
  step, that interleave in any order; \<open>ItchSocketPipeline\<close> passes these calls on.  The body of the loop is
  the one of \<open>Socket_Feed\<close>.  The owner is one thread, and creating a thread succeeds.
\<close>

section \<open>The state\<close>

text \<open>
  Where a thread that runs \<open>recvLoop\<close> is: not there (or joined), before the load of the descriptor, at the
  head of the loop, in \<open>poll\<close> or \<open>recv\<close>, before \<open>close\<close>, before the two stores that follow it, or done but
  not joined.
\<close>

datatype ReaderPc = NoThread | AtBegin | AtLoop int | AtPoll int | AtClose int | AtStoreFd | AtStoreRunning | Exited

text \<open>
  Where the owner is.  In \<open>start\<close>: going through the addresses, with a socket that is not connected yet, before the
  stores of \<open>socketFd_\<close> and of \<open>running_\<close>, before it creates the thread, and before it assigns a thread it has created
  to \<open>thread_\<close> where another one still is.  In \<open>stop\<close> (the flag tells that the destructor has called it): before the
  load of the descriptor, before \<open>shutdown\<close>, and in \<open>join\<close>.  \<open>Terminated\<close> is the end of the process by \<open>std::terminate\<close>.
\<close>

datatype OwnerPc = Idle
  | Connecting | Trying int | StoringFd int | StoringRunning int | Spawning int | Assigning
  | StopLoad bool | StopShut bool int | Joining bool | Terminated | Destroyed

datatype SysCall = SysShutdown int | SysClose int

text \<open>
  Besides the members of the reader: the thread \<open>thread_\<close> stands for, a second thread that a second \<open>start\<close> has
  created, the descriptors of this reader that are open, the calls made on descriptors, each with whether it was open,
  what \<open>recv\<close> returned and what the callback was given.
\<close>

record FeedWorld =
  fw_reader :: SocketFeedReader
  fw_thread :: ReaderPc
  fw_second :: ReaderPc
  fw_owner :: OwnerPc
  fw_open :: "int list"
  fw_calls :: "(SysCall \<times> bool) list"
  fw_chunks :: "u8 list list"
  fw_delivered :: "ItchMessage list"

definition fw_init :: "TcpFeedConfig \<Rightarrow> FeedWorld" where
  "fw_init config = \<lparr>fw_reader = new_SocketFeedReader config, fw_thread = NoThread, fw_second = NoThread, fw_owner = Idle,
     fw_open = [], fw_calls = [], fw_chunks = [], fw_delivered = []\<rparr>"

definition fw_call :: "SysCall \<Rightarrow> int \<Rightarrow> FeedWorld \<Rightarrow> FeedWorld" where
  "fw_call c fd W = W\<lparr>fw_calls := fw_calls W @ [(c, fd \<in> set (fw_open W))]\<rparr>"

definition fw_close :: "int \<Rightarrow> FeedWorld \<Rightarrow> FeedWorld" where
  "fw_close fd W = (fw_call (SysClose fd) fd W)\<lparr>fw_open := remove1 fd (fw_open W)\<rparr>"

definition joinable :: "FeedWorld \<Rightarrow> bool" where
  "joinable W \<longleftrightarrow> fw_thread W \<noteq> NoThread"

section \<open>A thread in \<open>recvLoop\<close>\<close>

definition record_message :: "ItchMessage \<Rightarrow> ItchMessage list \<Rightarrow> ItchMessage list option" where
  "record_message m ms = Some (ms @ [m])"

text \<open>From which place to which other one, and what the step does to the rest.\<close>

inductive reader_step :: "ReaderPc \<Rightarrow> FeedWorld \<Rightarrow> ReaderPc \<Rightarrow> FeedWorld \<Rightarrow> bool" where
  load_fd: "reader_step AtBegin W (AtLoop (sfr_socketFd (fw_reader W))) W"
| test_stop: "reader_step (AtLoop fd) W (if sfr_stop (fw_reader W) then AtClose fd else AtPoll fd) W"
| poll_timeout: "reader_step (AtPoll fd) W (AtLoop fd) W"
| poll_or_recv_ends: "reader_step (AtPoll fd) W (AtClose fd) W"
| recv_bytes: "bytes \<noteq> [] \<Longrightarrow> length bytes \<le> tfc_recvBufferSize (sfr_config (fw_reader W)) \<Longrightarrow>
    parser_feed (sfr_parser (fw_reader W)) bytes = Some (results, parser) \<Longrightarrow>
    deliver (Some record_message) results (fw_delivered W) = Some delivered \<Longrightarrow>
    reader_step (AtPoll fd) W (AtLoop fd) (W\<lparr>fw_chunks := fw_chunks W @ [bytes], fw_delivered := delivered,
      fw_reader := (fw_reader W)\<lparr>sfr_bytesReceived := sfr_bytesReceived (fw_reader W) + length bytes, sfr_parser := parser\<rparr>\<rparr>)"
| close_fd: "reader_step (AtClose fd) W AtStoreFd (fw_close fd W)"
| store_fd: "reader_step AtStoreFd W AtStoreRunning (W\<lparr>fw_reader := (fw_reader W)\<lparr>sfr_socketFd := -1\<rparr>\<rparr>)"
| store_running: "reader_step AtStoreRunning W Exited (W\<lparr>fw_reader := (fw_reader W)\<lparr>sfr_running := False\<rparr>\<rparr>)"

section \<open>The owner\<close>

text \<open>
  \<open>connectSocket\<close>: for every address a socket, whose descriptor is one that is not open; it is closed
  again when it cannot be connected.  Without an address, or after the last one, \<open>start\<close> returns false.  A call of
  \<open>socket\<close> that fails leaves everything as it is.
\<close>

inductive connect_step :: "FeedWorld \<Rightarrow> FeedWorld \<Rightarrow> bool" where
  no_address: "fw_owner W = Connecting \<Longrightarrow> connect_step W (W\<lparr>fw_owner := Idle\<rparr>)"
| open_socket: "fw_owner W = Connecting \<Longrightarrow> 0 \<le> fd \<Longrightarrow> fd \<notin> set (fw_open W) \<Longrightarrow>
    connect_step W (W\<lparr>fw_open := fd # fw_open W, fw_owner := Trying fd\<rparr>)"
| connect_fails: "fw_owner W = Trying fd \<Longrightarrow> connect_step W ((fw_close fd W)\<lparr>fw_owner := Connecting\<rparr>)"
| connected: "fw_owner W = Trying fd \<Longrightarrow> connect_step W (W\<lparr>fw_owner := StoringFd fd\<rparr>)"

text \<open>
  The rest of \<open>start\<close>.  Nothing in it asks whether there is a thread already: the members are overwritten, the new thread
  begins to run, and moving it over one that is joinable terminates the process.
\<close>

inductive start_step :: "FeedWorld \<Rightarrow> FeedWorld \<Rightarrow> bool" where
  call_start: "fw_owner W = Idle \<Longrightarrow> start_step W (W\<lparr>fw_owner := Connecting\<rparr>)"
| store_socketFd: "fw_owner W = StoringFd fd \<Longrightarrow>
    start_step W (W\<lparr>fw_reader := (fw_reader W)\<lparr>sfr_socketFd := fd\<rparr>, fw_owner := StoringRunning fd\<rparr>)"
| set_running: "fw_owner W = StoringRunning fd \<Longrightarrow>
    start_step W (W\<lparr>fw_reader := (fw_reader W)\<lparr>sfr_running := True\<rparr>, fw_owner := Spawning fd\<rparr>)"
| spawn: "fw_owner W = Spawning fd \<Longrightarrow> \<not> joinable W \<Longrightarrow> start_step W (W\<lparr>fw_thread := AtBegin, fw_owner := Idle\<rparr>)"
| spawn_second: "fw_owner W = Spawning fd \<Longrightarrow> joinable W \<Longrightarrow> start_step W (W\<lparr>fw_second := AtBegin, fw_owner := Assigning\<rparr>)"
| assign_over_joinable: "fw_owner W = Assigning \<Longrightarrow> start_step W (W\<lparr>fw_owner := Terminated\<rparr>)"

text \<open>\<open>stop\<close> up to the store of the flag, and the destructor, which calls it when the thread is joinable.\<close>

definition fw_beginStop :: "bool \<Rightarrow> FeedWorld \<Rightarrow> FeedWorld" where
  "fw_beginStop d W = W\<lparr>fw_reader := sfr_requestStop (fw_reader W), fw_owner := StopLoad d\<rparr>"

definition fw_destructor :: "FeedWorld \<Rightarrow> FeedWorld" where
  "fw_destructor W = (if joinable W then fw_beginStop True W else W\<lparr>fw_owner := Destroyed\<rparr>)"

inductive owner_step :: "FeedWorld \<Rightarrow> FeedWorld \<Rightarrow> bool" where
  in_connect: "connect_step W W' \<Longrightarrow> owner_step W W'"
| in_start: "start_step W W' \<Longrightarrow> owner_step W W'"
| call_stop: "fw_owner W = Idle \<Longrightarrow> owner_step W (fw_beginStop False W)"
| destroy: "fw_owner W = Idle \<Longrightarrow> owner_step W (fw_destructor W)"
| stop_load: "fw_owner W = StopLoad d \<Longrightarrow>
    owner_step W (W\<lparr>fw_owner := if 0 \<le> sfr_socketFd (fw_reader W) then StopShut d (sfr_socketFd (fw_reader W)) else Joining d\<rparr>)"
| stop_shutdown: "fw_owner W = StopShut d fd \<Longrightarrow> owner_step W ((fw_call (SysShutdown fd) fd W)\<lparr>fw_owner := Joining d\<rparr>)"
| call_join: "fw_owner W = Idle \<Longrightarrow> owner_step W (W\<lparr>fw_owner := Joining False\<rparr>)"
| joined: "fw_owner W = Joining d \<Longrightarrow> fw_thread W \<in> {NoThread, Exited} \<Longrightarrow>
    owner_step W (W\<lparr>fw_thread := NoThread, fw_owner := if d then Destroyed else Idle\<rparr>)"

inductive feed_step :: "FeedWorld \<Rightarrow> FeedWorld \<Rightarrow> bool" where
  by_thread: "fw_owner W \<noteq> Terminated \<Longrightarrow> reader_step (fw_thread W) W pc V \<Longrightarrow> feed_step W (V\<lparr>fw_thread := pc\<rparr>)"
| by_second: "fw_owner W \<noteq> Terminated \<Longrightarrow> reader_step (fw_second W) W pc V \<Longrightarrow> feed_step W (V\<lparr>fw_second := pc\<rparr>)"
| by_owner: "owner_step W V \<Longrightarrow> feed_step W V"

abbreviation feed_reach :: "TcpFeedConfig \<Rightarrow> FeedWorld \<Rightarrow> bool" where
  "feed_reach config \<equiv> rtranclp feed_step (fw_init config)"

text \<open>
  A second \<open>start\<close> that gets a connection while the thread is joinable is the one misuse; one that is refused
  does no harm.
\<close>

definition overwrites :: "FeedWorld \<Rightarrow> bool" where
  "overwrites W \<longleftrightarrow> joinable W \<and> (\<exists>fd. fw_owner W = StoringFd fd)"

definition proper_step :: "FeedWorld \<Rightarrow> FeedWorld \<Rightarrow> bool" where
  "proper_step W W' \<longleftrightarrow> feed_step W W' \<and> \<not> overwrites W"

abbreviation proper_reach :: "TcpFeedConfig \<Rightarrow> FeedWorld \<Rightarrow> bool" where
  "proper_reach config \<equiv> rtranclp proper_step (fw_init config)"

section \<open>The invariant\<close>

text \<open>The descriptor the thread still has to close, and the one \<open>start\<close> has not handed over yet.\<close>

fun owed :: "ReaderPc \<Rightarrow> int \<Rightarrow> int list" where
  "owed AtBegin fd = [fd]"
| "owed (AtLoop fd) _ = [fd]"
| "owed (AtPoll fd) _ = [fd]"
| "owed (AtClose fd) _ = [fd]"
| "owed _ _ = []"

fun starting :: "OwnerPc \<Rightarrow> int list" where
  "starting (Trying fd) = [fd]"
| "starting (StoringFd fd) = [fd]"
| "starting (StoringRunning fd) = [fd]"
| "starting (Spawning fd) = [fd]"
| "starting _ = []"

text \<open>The stores of \<open>start\<close> that have been made already.\<close>

fun stored_fd :: "OwnerPc \<Rightarrow> int option" where
  "stored_fd (StoringRunning fd) = Some fd"
| "stored_fd (Spawning fd) = Some fd"
| "stored_fd _ = None"

definition fds_inv :: "FeedWorld \<Rightarrow> bool" where
  "fds_inv W \<longleftrightarrow> fw_open W = starting (fw_owner W) @ owed (fw_thread W) (sfr_socketFd (fw_reader W)) \<and>
     distinct (fw_open W) \<and>
     (case stored_fd (fw_owner W) of
        Some fd \<Rightarrow> fw_thread W = NoThread \<and> sfr_socketFd (fw_reader W) = fd
      | None \<Rightarrow> fw_thread W \<in> {NoThread, Exited, AtStoreRunning} \<longrightarrow> sfr_socketFd (fw_reader W) = -1) \<and>
     (sfr_running (fw_reader W) \<longleftrightarrow> fw_thread W \<notin> {NoThread, Exited} \<or> (\<exists>fd. fw_owner W = Spawning fd)) \<and>
     fw_second W = NoThread \<and> fw_owner W \<noteq> Assigning \<and> fw_owner W \<noteq> Terminated \<and>
     (\<forall>fd. (SysClose fd, False) \<notin> set (fw_calls W))"

definition owner_inv :: "FeedWorld \<Rightarrow> bool" where
  "owner_inv W \<longleftrightarrow> (case fw_owner W of StopLoad _ \<Rightarrow> sfr_stop (fw_reader W) | StopShut _ _ \<Rightarrow> sfr_stop (fw_reader W)
     | Joining d \<Rightarrow> d \<longrightarrow> sfr_stop (fw_reader W) | Destroyed \<Rightarrow> fw_thread W = NoThread | _ \<Rightarrow> True)"

definition bytes_inv :: "FeedWorld \<Rightarrow> bool" where
  "bytes_inv W \<longleftrightarrow> sfr_bytesReceived (fw_reader W) = length (concat (fw_chunks W)) \<and>
     (\<exists>results. feed_chunks new_ItchParser (fw_chunks W) = Some (results, sfr_parser (fw_reader W)) \<and>
        fw_delivered W = map pr_message (filter pr_ok results))"

lemma deliver_record: "deliver (Some record_message) results ms = Some (ms @ map pr_message (filter pr_ok results))"
  by (induction results arbitrary: ms) (simp_all add: record_message_def)

lemma feed_chunks_snoc:
  "feed_chunks P cs = Some (rs, P1) \<Longrightarrow> parser_feed P1 c = Some (rs', P2) \<Longrightarrow> feed_chunks P (cs @ [c]) = Some (rs @ rs', P2)"
  by (induction cs arbitrary: P rs) (auto simp: bind_eq_Some_conv)

lemma inv_init: "fds_inv (fw_init config)" "owner_inv (fw_init config)" "bytes_inv (fw_init config)"
  by (simp_all add: fds_inv_def owner_inv_def bytes_inv_def fw_init_def new_SocketFeedReader_def)

lemma fw_close_sel [simp]:
  "fw_reader (fw_close fd W) = fw_reader W" "fw_thread (fw_close fd W) = fw_thread W" "fw_second (fw_close fd W) = fw_second W"
  "fw_owner (fw_close fd W) = fw_owner W" "fw_open (fw_close fd W) = remove1 fd (fw_open W)"
  "fw_calls (fw_close fd W) = fw_calls W @ [(SysClose fd, fd \<in> set (fw_open W))]"
  "fw_chunks (fw_close fd W) = fw_chunks W" "fw_delivered (fw_close fd W) = fw_delivered W"
  by (simp_all add: fw_close_def fw_call_def)

lemma fw_call_sel [simp]:
  "fw_reader (fw_call c fd W) = fw_reader W" "fw_thread (fw_call c fd W) = fw_thread W" "fw_second (fw_call c fd W) = fw_second W"
  "fw_owner (fw_call c fd W) = fw_owner W" "fw_open (fw_call c fd W) = fw_open W"
  "fw_calls (fw_call c fd W) = fw_calls W @ [(c, fd \<in> set (fw_open W))]"
  "fw_chunks (fw_call c fd W) = fw_chunks W" "fw_delivered (fw_call c fd W) = fw_delivered W"
  by (simp_all add: fw_call_def)

lemma starting_length: "length (starting ow) \<le> 1"
  by (cases ow) simp_all

lemma owed_length: "length (owed t fd) \<le> 1"
  by (cases t) simp_all

lemma owed_distinct [simp]: "distinct (owed t fd)"
  by (cases t) simp_all

lemma fds_inv_thread:
  assumes "reader_step (fw_thread W) W pc V" "fds_inv W"
  shows "fds_inv (V\<lparr>fw_thread := pc\<rparr>)"
  using assms(1)
proof cases
  case (close_fd fd)
  then have ow: "stored_fd (fw_owner W) = None" "fw_open W = starting (fw_owner W) @ [fd]" "distinct (fw_open W)"
    using assms(2) by (auto simp: fds_inv_def split: option.splits)
  then have "remove1 fd (fw_open W) = starting (fw_owner W)" by (simp add: remove1_append)
  with close_fd ow assms(2) show ?thesis by (auto simp: fds_inv_def)
qed (use assms(2) in \<open>auto simp: fds_inv_def split: option.splits\<close>)

lemma fds_inv_connect:
  assumes "connect_step W W'" "fds_inv W"
  shows "fds_inv W'"
  using assms(1)
proof cases
  case (open_socket fd)
  with assms(2) show ?thesis by (simp add: fds_inv_def)
next
  case (connect_fails fd)
  with assms(2) show ?thesis by (simp add: fds_inv_def)
qed (use assms(2) in \<open>auto simp: fds_inv_def\<close>)

lemma fds_inv_start:
  assumes "start_step W W'" "fds_inv W" "\<not> overwrites W"
  shows "fds_inv W'"
  using assms(1) assms(2,3) by cases (auto simp: fds_inv_def overwrites_def joinable_def)

lemma fds_inv_owner:
  assumes "owner_step W W'" "fds_inv W" "\<not> overwrites W"
  shows "fds_inv W'"
  using assms(1)
proof cases
  case in_connect
  then show ?thesis using fds_inv_connect assms(2) by blast
next
  case in_start
  then show ?thesis using fds_inv_start assms(2,3) by blast
qed (use assms(2) in \<open>auto simp: fds_inv_def sfr_requestStop_def fw_beginStop_def fw_destructor_def\<close>)

lemma no_second: "\<not> reader_step NoThread W pc V" "\<not> reader_step Exited W pc V"
  by (auto elim: reader_step.cases)

lemma fds_inv_step:
  assumes "feed_step W W'" "fds_inv W" "\<not> overwrites W"
  shows "fds_inv W'"
  using assms(1)
proof cases
  case (by_thread pc V)
  then show ?thesis using fds_inv_thread assms(2) by blast
next
  case (by_second pc V)
  moreover have "fw_second W = NoThread" using assms(2) by (simp add: fds_inv_def)
  ultimately show ?thesis using no_second by simp
next
  case by_owner
  then show ?thesis using fds_inv_owner assms(2,3) by blast
qed

lemma reader_step_keeps:
  assumes "reader_step pc W pc' V"
  shows "fw_owner V = fw_owner W" "sfr_stop (fw_reader V) = sfr_stop (fw_reader W)" "fw_thread V = fw_thread W" "pc \<noteq> NoThread"
    "fw_second V = fw_second W"
  using assms by (cases; simp)+

lemma start_step_keeps:
  assumes "connect_step W W' \<or> start_step W W'"
  shows "sfr_stop (fw_reader W') = sfr_stop (fw_reader W)"
    "fw_owner W' \<in> {Idle, Connecting, Assigning, Terminated} \<or> (\<exists>fd. fw_owner W' \<in> {Trying fd, StoringFd fd, StoringRunning fd, Spawning fd})"
    "sfr_bytesReceived (fw_reader W') = sfr_bytesReceived (fw_reader W)" "sfr_parser (fw_reader W') = sfr_parser (fw_reader W)"
    "fw_chunks W' = fw_chunks W" "fw_delivered W' = fw_delivered W"
  using assms by (auto elim!: connect_step.cases start_step.cases)

lemma owner_inv_step:
  assumes "feed_step W W'" "owner_inv W"
  shows "owner_inv W'"
  using assms(1)
proof cases
  case (by_thread pc V)
  then show ?thesis using assms(2) reader_step_keeps [OF by_thread(3)]
    by (auto simp: owner_inv_def split: OwnerPc.splits)
next
  case (by_second pc V)
  then show ?thesis using assms(2) reader_step_keeps [OF by_second(3)]
    by (auto simp: owner_inv_def split: OwnerPc.splits)
next
  case by_owner
  then show ?thesis
  proof cases
    case in_connect
    then show ?thesis using start_step_keeps(2) [of W W'] by (auto simp: owner_inv_def)
  next
    case in_start
    then show ?thesis using start_step_keeps(2) [of W W'] by (auto simp: owner_inv_def)
  qed (use assms(2) in \<open>auto simp: owner_inv_def sfr_requestStop_def fw_beginStop_def fw_destructor_def joinable_def\<close>)
qed

lemma bytes_inv_reader:
  assumes "reader_step pc W pc' V" "bytes_inv W"
  shows "bytes_inv (V\<lparr>fw_thread := t\<rparr>)" "bytes_inv (V\<lparr>fw_second := t\<rparr>)"
  using assms by (cases; auto simp: bytes_inv_def deliver_record dest: feed_chunks_snoc)+

lemma bytes_inv_step:
  assumes "feed_step W W'" "bytes_inv W"
  shows "bytes_inv W'"
  using assms(1)
proof cases
  case by_owner
  then show ?thesis
  proof cases
    case in_connect
    then show ?thesis using start_step_keeps [of W W'] assms(2) by (simp add: bytes_inv_def)
  next
    case in_start
    then show ?thesis using start_step_keeps [of W W'] assms(2) by (simp add: bytes_inv_def)
  qed (use assms(2) in \<open>auto simp: bytes_inv_def sfr_requestStop_def fw_beginStop_def fw_destructor_def\<close>)
qed (use bytes_inv_reader [OF _ assms(2)] in auto)

lemma reach_inv:
  assumes "proper_reach config W"
  shows "fds_inv W \<and> owner_inv W \<and> bytes_inv W"
  using assms
  by (induction rule: rtranclp_induct)
    (auto simp: proper_step_def intro: inv_init fds_inv_step owner_inv_step bytes_inv_step)

section \<open>Stopping\<close>

definition stopping :: "FeedWorld \<Rightarrow> bool" where
  "stopping W \<longleftrightarrow> (case fw_owner W of StopLoad _ \<Rightarrow> True | StopShut _ _ \<Rightarrow> True | Joining _ \<Rightarrow> sfr_stop (fw_reader W) | _ \<Rightarrow> False)"

definition stop_returned :: "FeedWorld \<Rightarrow> bool" where
  "stop_returned W \<longleftrightarrow> fw_owner W \<in> {Idle, Destroyed} \<and> fw_thread W = NoThread \<and> fw_open W = [] \<and>
     \<not> sfr_running (fw_reader W) \<and> sfr_socketFd (fw_reader W) = -1"

text \<open>How many steps are left: with the flag up, the loop is left at its next test.\<close>

fun reader_budget :: "ReaderPc \<Rightarrow> nat" where
  "reader_budget AtBegin = 5"
| "reader_budget (AtPoll fd) = 5"
| "reader_budget (AtLoop fd) = 4"
| "reader_budget (AtClose fd) = 3"
| "reader_budget AtStoreFd = 2"
| "reader_budget AtStoreRunning = 1"
| "reader_budget Exited = 0"
| "reader_budget NoThread = 0"

fun owner_budget :: "OwnerPc \<Rightarrow> nat" where
  "owner_budget (StopLoad d) = 3"
| "owner_budget (StopShut d fd) = 2"
| "owner_budget (Joining d) = 1"
| "owner_budget _ = 0"

definition stop_budget :: "FeedWorld \<Rightarrow> nat" where
  "stop_budget W = reader_budget (fw_thread W) + owner_budget (fw_owner W)"

lemma stop_budget_le: "stop_budget W \<le> 8"
  by (cases "fw_thread W"; cases "fw_owner W") (simp_all add: stop_budget_def)

lemma stop_budget_pos: "stopping W \<Longrightarrow> 0 < stop_budget W"
  by (auto simp: stop_budget_def stopping_def split: OwnerPc.splits)

lemma stopping_flag: "owner_inv W \<Longrightarrow> stopping W \<Longrightarrow> sfr_stop (fw_reader W)"
  by (auto simp: owner_inv_def stopping_def split: OwnerPc.splits)

lemma reader_step_budget:
  assumes "reader_step pc W pc' V" "sfr_stop (fw_reader W)"
  shows "reader_budget pc' < reader_budget pc"
  using assms by cases auto

lemma stopping_step:
  assumes "feed_step W W'" "fds_inv W" "owner_inv W" "stopping W"
  shows "stop_returned W' \<or> stopping W' \<and> stop_budget W' < stop_budget W"
  using assms(1)
proof cases
  case (by_thread pc V)
  then show ?thesis
    using reader_step_keeps [OF by_thread(3)] reader_step_budget [OF by_thread(3) stopping_flag [OF assms(3,4)]] assms(4)
    by (auto simp: stopping_def stop_budget_def split: OwnerPc.splits)
next
  case (by_second pc V)
  then show ?thesis using assms(2) no_second by (simp add: fds_inv_def)
next
  case by_owner
  then show ?thesis
  proof cases
    case in_connect
    then show ?thesis using assms(4) by cases (simp_all add: stopping_def)
  next
    case in_start
    then show ?thesis using assms(4) by cases (simp_all add: stopping_def)
  qed (use assms(2,4) stopping_flag [OF assms(3,4)] in \<open>auto simp: stopping_def stop_budget_def stop_returned_def fds_inv_def\<close>)
qed

lemma stopping_progress:
  assumes "stopping W"
  shows "\<exists>W'. feed_step W W'"
proof -
  consider (load) d where "fw_owner W = StopLoad d" | (shut) d fd where "fw_owner W = StopShut d fd"
    | (join) d where "fw_owner W = Joining d"
    using assms by (auto simp: stopping_def split: OwnerPc.splits)
  then show ?thesis
  proof cases
    case (join d)
    then have live: "fw_owner W \<noteq> Terminated" by simp
    show ?thesis
    proof (cases "fw_thread W \<in> {NoThread, Exited}")
      case True
      then show ?thesis using owner_step.joined [OF join] by (blast intro: by_owner)
    next
      case False
      then have "\<exists>pc V. reader_step (fw_thread W) W pc V" by (cases "fw_thread W") (auto intro: reader_step.intros)
      then show ?thesis using live by (blast intro: by_thread)
    qed
  qed (blast intro: by_owner owner_step.intros)+
qed

text \<open>A run that has not come to the end of \<open>stop\<close> is shorter than the budget by what is left of it.\<close>

lemma stopping_run:
  assumes "fds_inv (run 0)" "owner_inv (run 0)" "stopping (run 0)"
    "\<forall>i<n. feed_step (run i) (run (Suc i)) \<and> \<not> stop_returned (run i)"
  shows "stop_returned (run n) \<and> n \<le> stop_budget (run 0) \<or>
    stopping (run n) \<and> fds_inv (run n) \<and> owner_inv (run n) \<and> n + stop_budget (run n) \<le> stop_budget (run 0)"
  using assms(4)
proof (induction n)
  case 0
  then show ?case using assms(1-3) by simp
next
  case (Suc n)
  from Suc.prems have step: "feed_step (run n) (run (Suc n))" and going: "\<not> stop_returned (run n)" by auto
  from Suc going have IH: "stopping (run n)" "fds_inv (run n)" "owner_inv (run n)" "n + stop_budget (run n) \<le> stop_budget (run 0)"
    by auto
  have "\<not> overwrites (run n)" using IH(1) by (auto simp: stopping_def overwrites_def)
  then show ?case
    using stopping_step [OF step IH(2,3,1)] fds_inv_step [OF step IH(2)] owner_inv_step [OF step IH(3)] IH(4) stop_budget_pos [OF IH(1)]
    by auto
qed

section \<open>Properties\<close>

text \<open>
  C20. Safety of the threads, in every interleaving of the reader's loop with any calls of its owner in which no
  \<open>start\<close> gets a connection while there is still a thread to join: at most one descriptor belongs to the reader's
  thread and at most one to a \<open>start\<close> that is under way, they are different, and no other is open; \<open>close\<close> is only called on
  an open one; outside \<open>start\<close> none is left and \<open>running\<close> is false once the loop has ended;
  the process is not terminated and no reader is destroyed with its thread running; every byte received is counted, and the
  callback got exactly the messages of these bytes, in order.
\<close>

theorem feed_threads_safe:
  assumes "proper_reach config W"
  shows "fw_open W = starting (fw_owner W) @ owed (fw_thread W) (sfr_socketFd (fw_reader W)) \<and>
    length (starting (fw_owner W)) \<le> 1 \<and> length (owed (fw_thread W) (sfr_socketFd (fw_reader W))) \<le> 1 \<and> distinct (fw_open W) \<and>
    (\<forall>fd. (SysClose fd, False) \<notin> set (fw_calls W)) \<and>
    (fw_thread W \<in> {NoThread, Exited} \<and> starting (fw_owner W) = [] \<longrightarrow>
       fw_open W = [] \<and> \<not> sfr_running (fw_reader W) \<and> sfr_socketFd (fw_reader W) = -1) \<and>
    fw_owner W \<noteq> Terminated \<and> (fw_owner W = Destroyed \<longrightarrow> \<not> joinable W) \<and>
    sfr_bytesReceived (fw_reader W) = length (concat (fw_chunks W)) \<and>
    (\<exists>results. feed_chunks new_ItchParser (fw_chunks W) = Some (results, sfr_parser (fw_reader W)) \<and>
       fw_delivered W = map pr_message (filter pr_ok results))"
proof -
  have inv: "fds_inv W" "owner_inv W" "bytes_inv W" using reach_inv [OF assms] by simp_all
  have "fw_open W = [] \<and> \<not> sfr_running (fw_reader W) \<and> sfr_socketFd (fw_reader W) = -1"
    if "fw_thread W \<in> {NoThread, Exited}" "starting (fw_owner W) = []"
    using that inv(1) by (cases "fw_owner W") (auto simp: fds_inv_def)
  moreover have "fw_owner W = Destroyed \<longrightarrow> \<not> joinable W" using inv(2) by (auto simp: owner_inv_def joinable_def)
  moreover have "length (starting (fw_owner W)) \<le> 1" "length (owed (fw_thread W) (sfr_socketFd (fw_reader W))) \<le> 1"
    by (rule starting_length owed_length)+
  ultimately show ?thesis using inv(1,3) unfolding fds_inv_def bytes_inv_def by blast
qed

text \<open>
  C33. \<open>stop\<close>, called by the owner or by the destructor, returns: consider any schedule of the threads from the call of
  \<open>stop\<close> on, with any answers of the socket, of \<open>n\<close> steps before which it had not returned.  Then \<open>n\<close> is at most
  eight, and after these steps \<open>stop\<close> has returned, with the thread joined, the descriptor closed and \<open>running\<close>
  false, or there is a further step and \<open>n\<close> is less than eight.
\<close>

theorem stop_returns:
  assumes "proper_reach config W" "stopping W" "run 0 = W"
    "\<forall>i<n. feed_step (run i) (run (Suc i)) \<and> \<not> stop_returned (run i)"
  shows "n \<le> 8 \<and> (stop_returned (run n) \<or> n < 8 \<and> (\<exists>V. feed_step (run n) V))"
proof -
  have "fds_inv (run 0)" "owner_inv (run 0)" "stopping (run 0)" using reach_inv [OF assms(1)] assms(2,3) by auto
  from stopping_run [OF this assms(4)] show ?thesis
    using stop_budget_le [of "run 0"] stop_budget_pos [of "run n"] stopping_progress [of "run n"] by auto
qed

section \<open>Concrete runs\<close>

lemma proper_owner: "owner_step W V \<Longrightarrow> \<not> overwrites W \<Longrightarrow> proper_step W V"
  by (simp add: proper_step_def by_owner)

text \<open>The steps of a \<open>start\<close> that is not disturbed add up to the one of \<open>Socket_Feed\<close>.\<close>

lemma start_steps:
  assumes "fw_owner W = Idle" "\<not> joinable W" "fd \<notin> set (fw_open W)" "sfr_start fd (fw_reader W) = (True, S)"
  shows "rtranclp proper_step W (W\<lparr>fw_reader := S, fw_thread := AtBegin, fw_open := fd # fw_open W\<rparr>)"
proof -
  have fd: "0 \<le> fd" "S = (fw_reader W)\<lparr>sfr_socketFd := fd, sfr_running := True\<rparr>"
    using assms(4) by (auto simp: sfr_start_def split: if_splits)
  let ?W1 = "W\<lparr>fw_owner := Connecting\<rparr>"
  let ?W2 = "W\<lparr>fw_open := fd # fw_open W, fw_owner := Trying fd\<rparr>"
  let ?W3 = "W\<lparr>fw_open := fd # fw_open W, fw_owner := StoringFd fd\<rparr>"
  let ?W4 = "W\<lparr>fw_reader := (fw_reader W)\<lparr>sfr_socketFd := fd\<rparr>, fw_open := fd # fw_open W, fw_owner := StoringRunning fd\<rparr>"
  let ?W5 = "W\<lparr>fw_reader := S, fw_open := fd # fw_open W, fw_owner := Spawning fd\<rparr>"
  have 1: "proper_step W ?W1" using proper_owner [OF in_start [OF call_start]] assms by (simp add: overwrites_def)
  have 2: "proper_step ?W1 ?W2"
    using proper_owner [OF in_connect [OF open_socket [of ?W1 fd]]] assms fd by (simp add: overwrites_def)
  have 3: "proper_step ?W2 ?W3" using proper_owner [OF in_connect [OF connected [of ?W2 fd]]] by (simp add: overwrites_def)
  have 4: "proper_step ?W3 ?W4"
    using proper_owner [OF in_start [OF store_socketFd [of ?W3 fd]]] assms(2) by (cases W) (simp add: overwrites_def joinable_def)
  have 5: "proper_step ?W4 ?W5"
    using proper_owner [OF in_start [OF set_running [of ?W4 fd]]] by (cases W) (simp add: overwrites_def fd(2))
  have 6: "proper_step ?W5 (W\<lparr>fw_reader := S, fw_thread := AtBegin, fw_open := fd # fw_open W\<rparr>)"
    using proper_owner [OF in_start [OF spawn [of ?W5 fd]]] assms(1,2) by (cases W) (simp add: overwrites_def joinable_def)
  from 1 2 3 4 5 6 show ?thesis by (meson converse_rtranclp_into_rtranclp rtranclp.rtrancl_refl)
qed

definition fw_demo :: "ReaderPc \<Rightarrow> OwnerPc \<Rightarrow> int list \<Rightarrow> (SysCall \<times> bool) list \<Rightarrow> bool \<Rightarrow> FeedWorld" where
  "fw_demo t ow open calls stop = \<lparr>fw_reader = \<lparr>sfr_config = \<lparr>tfc_host = ''localhost'', tfc_port = 9000, tfc_recvBufferSize = 65536\<rparr>,
     sfr_parser = new_ItchParser, sfr_stop = stop, sfr_running = t \<noteq> NoThread, sfr_bytesReceived = 0,
     sfr_socketFd = if t = NoThread then -1 else 3\<rparr>, fw_thread = t, fw_second = NoThread, fw_owner = ow, fw_open = open,
     fw_calls = calls, fw_chunks = [], fw_delivered = []\<rparr>"

abbreviation demo_config :: TcpFeedConfig where
  "demo_config \<equiv> \<lparr>tfc_host = ''localhost'', tfc_port = 9000, tfc_recvBufferSize = 65536\<rparr>"

lemma reach_reader:
  assumes "proper_reach config W" "reader_step pc W pc' V" "fw_thread W = pc" "\<not> overwrites W" "fw_owner W \<noteq> Terminated"
    "U = V\<lparr>fw_thread := pc'\<rparr>"
  shows "proper_reach config U"
proof -
  have "proper_step W U" using assms(2-6) by_thread [of W pc' V] by (simp add: proper_step_def)
  with assms(1) show ?thesis by (rule rtranclp.rtrancl_into_rtrancl)
qed

lemma reach_owner: "proper_reach config W \<Longrightarrow> \<not> overwrites W \<Longrightarrow> owner_step W V \<Longrightarrow> proper_reach config V"
  by (erule rtranclp.rtrancl_into_rtrancl) (rule proper_owner)

lemma demo_reach:
  "proper_reach demo_config (fw_demo (AtPoll 3) Idle [3] [] False)"
  "proper_reach demo_config (fw_demo (AtPoll 3) (StopLoad False) [3] [] True)"
  "proper_reach demo_config (fw_demo (AtLoop 3) (StopLoad True) [3] [] True)"
  "proper_reach demo_config (fw_demo AtStoreFd (Joining False) [] [(SysClose 3, True), (SysShutdown 3, False)] True)"
proof -
  note defs = fw_demo_def overwrites_def
  have 0: "proper_reach demo_config (fw_demo NoThread Idle [] [] False)"
    by (simp add: fw_init_def fw_demo_def new_SocketFeedReader_def)
  have 1: "proper_reach demo_config (fw_demo AtBegin Idle [3] [] False)"
    using rtranclp_trans [OF 0 start_steps [of _ 3]] by (simp add: fw_demo_def joinable_def sfr_start_def)
  have 2: "proper_reach demo_config (fw_demo (AtLoop 3) Idle [3] [] False)"
    by (rule reach_reader [OF 1 load_fd]) (simp_all add: defs)
  show 3: "proper_reach demo_config (fw_demo (AtPoll 3) Idle [3] [] False)"
    by (rule reach_reader [OF 2 test_stop]) (simp_all add: defs)
  show 4: "proper_reach demo_config (fw_demo (AtPoll 3) (StopLoad False) [3] [] True)"
    using reach_owner [OF 3 _ call_stop] by (simp add: defs fw_beginStop_def sfr_requestStop_def)
  show "proper_reach demo_config (fw_demo (AtLoop 3) (StopLoad True) [3] [] True)"
    using reach_owner [OF 2 _ destroy] by (simp add: defs fw_destructor_def joinable_def fw_beginStop_def sfr_requestStop_def)
  have 5: "proper_reach demo_config (fw_demo (AtPoll 3) (StopShut False 3) [3] [] True)"
    using reach_owner [OF 4 _ stop_load [of _ False]] by (simp add: defs)
  have 6: "proper_reach demo_config (fw_demo (AtClose 3) (StopShut False 3) [3] [] True)"
    by (rule reach_reader [OF 5 poll_or_recv_ends]) (simp_all add: defs)
  have 7: "proper_reach demo_config (fw_demo AtStoreFd (StopShut False 3) [] [(SysClose 3, True)] True)"
    by (rule reach_reader [OF 6 close_fd]) (simp_all add: defs fw_close_def fw_call_def)
  show "proper_reach demo_config (fw_demo AtStoreFd (Joining False) [] [(SysClose 3, True), (SysShutdown 3, False)] True)"
    using reach_owner [OF 7 _ stop_shutdown [of _ False]] by (simp add: defs fw_call_def)
qed

theorem feed_threads_safe_witness:
  "\<exists>W. proper_reach demo_config W \<and> fw_thread W = AtPoll 3 \<and>
    fw_open W = starting (fw_owner W) @ owed (fw_thread W) (sfr_socketFd (fw_reader W)) \<and> fw_open W = [3] \<and>
    sfr_bytesReceived (fw_reader W) = length (concat (fw_chunks W))"
  using feed_threads_safe [OF demo_reach(1)] demo_reach(1)
  by (intro exI [of _ "fw_demo (AtPoll 3) Idle [3] [] False"]) (simp add: fw_demo_def)

text \<open>From a call of \<open>stop\<close> with the reader in \<open>poll\<close>, and from the destructor's with the reader at the head of its loop.\<close>

theorem stop_returns_witness:
  "\<exists>W W'. proper_reach demo_config W \<and> fw_owner W = StopLoad False \<and> \<not> stop_returned W \<and> (\<exists>V. feed_step W V) \<and>
     (\<forall>run n. run 0 = W \<longrightarrow> (\<forall>i<n. feed_step (run i) (run (Suc i)) \<and> \<not> stop_returned (run i)) \<longrightarrow>
       n \<le> 8 \<and> (stop_returned (run n) \<or> n < 8 \<and> (\<exists>V. feed_step (run n) V))) \<and>
     proper_reach demo_config W' \<and> fw_owner W' = StopLoad True \<and> \<not> stop_returned W' \<and> (\<exists>V. feed_step W' V) \<and>
     (\<forall>run n. run 0 = W' \<longrightarrow> (\<forall>i<n. feed_step (run i) (run (Suc i)) \<and> \<not> stop_returned (run i)) \<longrightarrow>
       n \<le> 8 \<and> (stop_returned (run n) \<or> n < 8 \<and> (\<exists>V. feed_step (run n) V)))"
proof -
  let ?W = "fw_demo (AtPoll 3) (StopLoad False) [3] [] True" and ?W' = "fw_demo (AtLoop 3) (StopLoad True) [3] [] True"
  have all: "(\<forall>run n. run 0 = U \<longrightarrow> (\<forall>i<n. feed_step (run i) (run (Suc i)) \<and> \<not> stop_returned (run i)) \<longrightarrow>
       n \<le> 8 \<and> (stop_returned (run n) \<or> n < 8 \<and> (\<exists>V. feed_step (run n) V))) \<and> (\<not> stop_returned U \<longrightarrow> (\<exists>V. feed_step U V))"
    if "proper_reach demo_config U" "stopping U" for U
    using stop_returns [OF that] stop_returns [OF that, of "\<lambda>_. U" 0] by auto
  have s: "stopping ?W" "stopping ?W'" "\<not> stop_returned ?W" "\<not> stop_returned ?W'" "fw_owner ?W = StopLoad False" "fw_owner ?W' = StopLoad True"
    by (simp_all add: stopping_def stop_returned_def fw_demo_def)
  from all [OF demo_reach(2) s(1)] all [OF demo_reach(3) s(2)] s(3-6) demo_reach(2,3) show ?thesis by blast
qed

text \<open>
  \<open>stop\<close> may load the descriptor before the reader closes it and call \<open>shutdown\<close> after: by then
  the number is free, and the system may have given it to another socket of the process.
\<close>

lemma shutdown_of_closed_descriptor:
  "\<exists>W. proper_reach demo_config W \<and> (SysShutdown 3, False) \<in> set (fw_calls W)"
  using demo_reach(4) by (intro exI [of _ "fw_demo AtStoreFd (Joining False) [] [(SysClose 3, True), (SysShutdown 3, False)] True"])
    (simp add: fw_demo_def)

text \<open>
  The misuse: \<open>start\<close> while the reader runs on descriptor 3.  It opens a second descriptor, 4, puts it in the place of
  the first one, so that \<open>stop\<close> could not wake the reader any more, starts a second thread on the same parser and terminates
  the process, with both descriptors open.
\<close>

lemma proper_feed_reach: "proper_reach config W \<Longrightarrow> feed_reach config W"
  by (erule rtranclp_mono [THEN predicate2D, rotated]) (auto simp: proper_step_def)

lemma feed_owner: "feed_reach config W \<Longrightarrow> owner_step W V \<Longrightarrow> V = U \<Longrightarrow> feed_reach config U"
  by (metis by_owner rtranclp.rtrancl_into_rtrancl)

lemma second_start_terminates:
  "\<exists>W. feed_reach demo_config W \<and> fw_owner W = Terminated \<and> fw_thread W = AtPoll 3 \<and> fw_second W = AtBegin \<and>
     fw_open W = [4, 3] \<and> sfr_socketFd (fw_reader W) = 4"
proof -
  let ?W = "fw_demo (AtPoll 3) Idle [3] [] False"
  let ?V = "\<lambda>ow fd t. ?W\<lparr>fw_owner := ow, fw_open := [4, 3], fw_reader := (fw_reader ?W)\<lparr>sfr_socketFd := fd\<rparr>, fw_second := t\<rparr>"
  have 0: "feed_reach demo_config ?W" by (rule proper_feed_reach [OF demo_reach(1)])
  have 1: "feed_reach demo_config (?W\<lparr>fw_owner := Connecting\<rparr>)"
    by (rule feed_owner [OF 0 in_start [OF call_start]]) (simp_all add: fw_demo_def)
  have 2: "feed_reach demo_config (?V (Trying 4) 3 NoThread)"
    by (rule feed_owner [OF 1 in_connect [OF open_socket [where fd = 4]]]) (simp_all add: fw_demo_def)
  have 3: "feed_reach demo_config (?V (StoringFd 4) 3 NoThread)"
    by (rule feed_owner [OF 2 in_connect [OF connected [where fd = 4]]]) (simp_all add: fw_demo_def)
  have 4: "feed_reach demo_config (?V (StoringRunning 4) 4 NoThread)"
    by (rule feed_owner [OF 3 in_start [OF store_socketFd [where fd = 4]]]) (simp_all add: fw_demo_def)
  have 5: "feed_reach demo_config (?V (Spawning 4) 4 NoThread)"
    by (rule feed_owner [OF 4 in_start [OF set_running [where fd = 4]]]) (simp_all add: fw_demo_def)
  have 6: "feed_reach demo_config (?V Assigning 4 AtBegin)"
    by (rule feed_owner [OF 5 in_start [OF spawn_second [where fd = 4]]]) (simp_all add: fw_demo_def joinable_def)
  have 7: "feed_reach demo_config (?V Terminated 4 AtBegin)"
    by (rule feed_owner [OF 6 in_start [OF assign_over_joinable]]) (simp_all add: fw_demo_def)
  then show ?thesis by (intro exI [of _ "?V Terminated 4 AtBegin"]) (simp add: fw_demo_def)
qed

text \<open>
  Nothing lowers the flag again: a reader that is started after a \<open>stop\<close> connects and runs, but
  leaves its loop before it receives anything.
\<close>

lemma restarted_reader_receives_nothing:
  assumes "rtranclp proper_step W W'" "fds_inv W" "stop_returned W" "sfr_stop (fw_reader W)"
  shows "fw_chunks W' = fw_chunks W \<and> fw_delivered W' = fw_delivered W"
proof -
  have "fds_inv W' \<and> sfr_stop (fw_reader W') \<and> (\<forall>fd. fw_thread W' \<noteq> AtPoll fd) \<and> fw_chunks W' = fw_chunks W \<and> fw_delivered W' = fw_delivered W"
    using assms(1)
  proof (induction rule: rtranclp_induct)
    case base
    then show ?case using assms(2-4) by (simp add: stop_returned_def)
  next
    case (step V V')
    from step.hyps(2) have hyp: "feed_step V V'" "fds_inv V'" using step.IH fds_inv_step by (auto simp: proper_step_def)
    from hyp(1) have "sfr_stop (fw_reader V') \<and> (\<forall>fd. fw_thread V' \<noteq> AtPoll fd) \<and> fw_chunks V' = fw_chunks V \<and> fw_delivered V' = fw_delivered V"
    proof cases
      case (by_thread pc U)
      from by_thread(3) show ?thesis using step.IH by_thread(1) by cases auto
    next
      case (by_second pc U)
      then show ?thesis using step.IH no_second by (simp add: fds_inv_def)
    next
      case by_owner
      then show ?thesis
        by cases (use step.IH in \<open>auto simp: sfr_requestStop_def fw_beginStop_def fw_destructor_def elim!: connect_step.cases start_step.cases\<close>)
    qed
    then show ?case using step.IH hyp(2) by simp
  qed
  then show ?thesis by simp
qed

end
