(* ===== verification/Bench_Scenario.thy ===== *)
theory Bench_Scenario
  imports Titan_Types Text_Numbers Complex_Main
begin

text \<open>
  The workloads of the benchmarks (\<open>include/titan/bench/scenario.hpp\<close>, \<open>src/bench/scenario.cpp\<close>): a
  scenario is read from a text of \<open>key=value\<close> lines, and a sequence of operations is drawn from
  it.  A \<open>double\<close> is a real number and every operation on doubles rounds its exact result with
  \<open>rnd\<close>, a parameter (infinities and NaN have no model).  What the random engine and the distributions
  return in one iteration is a \<open>Draw\<close>.
\<close>

section \<open>Scenarios\<close>

record Scenario =
  scn_name :: string
  scn_symbolCount :: u32
  scn_orderCount :: u64
  scn_seed :: u32
  scn_addWeight :: real
  scn_cancelWeight :: real
  scn_matchWeight :: real
  scn_snapshotWeight :: real

definition new_Scenario :: Scenario where
  "new_Scenario = \<lparr>scn_name = '''', scn_symbolCount = 1, scn_orderCount = 0, scn_seed = 0, scn_addWeight = 1,
     scn_cancelWeight = 0, scn_matchWeight = 0, scn_snapshotWeight = 0\<rparr>"

text \<open>
  \<open>std::stod\<close> on decimal notation: digits with an optional fraction and exponent, rounded.  It throws
  \<open>out_of_range\<close> when the result is beyond the largest double, or is below the smallest normal one
  and inexact (the C library's \<open>ERANGE\<close>).  The other notations \<open>strtod\<close> accepts (hexadecimal, \<open>inf\<close>, \<open>nan\<close>) have no model.
\<close>

definition dbl_max :: real where "dbl_max = (2 ^ 53 - 1) * 2 ^ 971"

definition dbl_min :: real where "dbl_min = 1 / 2 ^ 1022"

definition scan_exponent :: "string \<Rightarrow> int" where
  "scan_exponent t =
     (case t of
        [] \<Rightarrow> 0
      | c # cs \<Rightarrow>
          if c = CHR ''e'' \<or> c = CHR ''E'' then
            (let (negative, u) = scan_sign cs; (n, v, rest) = scan_digits 0 0 u
             in if negative then - int v else int v)
          else 0)"

definition stod :: "(real \<Rightarrow> real) \<Rightarrow> string \<Rightarrow> StdError + real" where
  "stod rnd s =
     (let (negative, t) = scan_sign (dropWhile is_space s);
          (n, v, rest) = scan_digits 0 0 t;
          (k, f, rest') = (case rest of c # cs \<Rightarrow> if c = CHR ''.'' then scan_digits 0 0 cs else (0, 0, rest) | [] \<Rightarrow> (0, 0, []));
          magnitude = (real v + real f / 10 ^ k) * (10 powi (scan_exponent rest'));
          exact = (if negative then - magnitude else magnitude);
          result = rnd exact
      in if n = 0 \<and> k = 0 then Inl InvalidArgument
         else if \<bar>result\<bar> > dbl_max \<or> \<bar>result\<bar> < dbl_min \<and> result \<noteq> exact then Inl OutOfRange
         else Inr result)"

text \<open>\<open>std::getline\<close> until the end of the file: what follows the last newline is a line unless it is empty.\<close>

fun getlines :: "string \<Rightarrow> string list" where
  "getlines [] = []"
| "getlines (c # cs) =
     (if c = CHR 0x0A then [] # getlines cs
      else (case getlines cs of
              [] \<Rightarrow> [[c]]
            | l # ls \<Rightarrow> (c # l) # ls))"

text \<open>The chain of comparisons of the key; a key that is not listed is ignored.\<close>

definition scenario_set :: "(real \<Rightarrow> real) \<Rightarrow> string \<Rightarrow> string \<Rightarrow> Scenario \<Rightarrow> StdError + Scenario" where
  "scenario_set rnd key val sc =
     (if key = ''name'' then Inr (sc\<lparr>scn_name := val\<rparr>)
      else if key = ''symbolCount'' then map_sum id (\<lambda>n. sc\<lparr>scn_symbolCount := ucast n\<rparr>) (stoull val)
      else if key = ''orderCount'' then map_sum id (\<lambda>n. sc\<lparr>scn_orderCount := n\<rparr>) (stoull val)
      else if key = ''seed'' then map_sum id (\<lambda>n. sc\<lparr>scn_seed := ucast n\<rparr>) (stoull val)
      else if key = ''addWeight'' then map_sum id (\<lambda>w. sc\<lparr>scn_addWeight := w\<rparr>) (stod rnd val)
      else if key = ''cancelWeight'' then map_sum id (\<lambda>w. sc\<lparr>scn_cancelWeight := w\<rparr>) (stod rnd val)
      else if key = ''matchWeight'' then map_sum id (\<lambda>w. sc\<lparr>scn_matchWeight := w\<rparr>) (stod rnd val)
      else if key = ''snapshotWeight'' then map_sum id (\<lambda>w. sc\<lparr>scn_snapshotWeight := w\<rparr>) (stod rnd val)
      else Inr sc)"

definition scenario_line :: "(real \<Rightarrow> real) \<Rightarrow> string \<Rightarrow> Scenario \<Rightarrow> StdError + Scenario" where
  "scenario_line rnd line sc =
     (if line = [] \<or> hd line = CHR ''#'' then Inr sc
      else if CHR ''='' \<notin> set line then Inr sc
      else scenario_set rnd (takeWhile (\<lambda>c. c \<noteq> CHR ''='') line) (tl (dropWhile (\<lambda>c. c \<noteq> CHR ''='') line)) sc)"

fun scenario_lines :: "(real \<Rightarrow> real) \<Rightarrow> string list \<Rightarrow> Scenario \<Rightarrow> StdError + Scenario" where
  "scenario_lines rnd [] sc = Inr sc"
| "scenario_lines rnd (line # lines) sc =
     (case scenario_line rnd line sc of Inl e \<Rightarrow> Inl e | Inr sc' \<Rightarrow> scenario_lines rnd lines sc')"

text \<open>\<open>contents\<close> is the text of the file, if it can be opened.\<close>

definition loadScenario :: "(real \<Rightarrow> real) \<Rightarrow> string \<Rightarrow> string option \<Rightarrow> StdError + Scenario" where
  "loadScenario rnd path contents =
     (case contents of
        None \<Rightarrow> Inl (RuntimeError (''cannot open scenario file: '' @ path))
      | Some text \<Rightarrow> scenario_lines rnd (getlines text) new_Scenario)"

section \<open>Generated workloads\<close>

datatype ScenarioOpType = OpAdd | OpCancel | OpMatch | OpSnapshot

record ScenarioOp =
  op_type :: ScenarioOpType
  op_symbolIndex :: u32
  op_orderId :: OrderId
  op_side :: Side
  op_price :: Price
  op_quantity :: Quantity

text \<open>The values drawn in one iteration, in the order they are drawn.\<close>

record Draw =
  draw_symbol :: u32
  draw_unit :: real
  draw_side :: u32
  draw_price :: u64
  draw_quantity :: u64

definition total_weight :: "(real \<Rightarrow> real) \<Rightarrow> Scenario \<Rightarrow> real" where
  "total_weight rnd sc =
     rnd (rnd (rnd (scn_addWeight sc + scn_cancelWeight sc) + scn_matchWeight sc) + scn_snapshotWeight sc)"

text \<open>The type of the operation; \<open>none\<close> tells that the symbol has no active ids.\<close>

definition draw_type :: "(real \<Rightarrow> real) \<Rightarrow> Scenario \<Rightarrow> real \<Rightarrow> bool \<Rightarrow> ScenarioOpType" where
  "draw_type rnd sc u none =
     (let total = total_weight rnd sc;
          roll = (if total > 0 then rnd (u * total) else 0);
          cumulative = scn_addWeight sc
      in if roll < cumulative then OpAdd
         else
           let cumulative = rnd (cumulative + scn_cancelWeight sc) in
           if roll < cumulative \<and> \<not> none then OpCancel
           else
             let cumulative = rnd (cumulative + scn_matchWeight sc) in
             if roll < cumulative then OpMatch else OpSnapshot)"

text \<open>
  The loop for \<open>n\<close> more operations: the active ids per symbol, the last one at the end, and the next id.
  \<open>i\<close> counts the iterations.
\<close>

fun generate_loop :: "(real \<Rightarrow> real) \<Rightarrow> Scenario \<Rightarrow> u32 \<Rightarrow> (nat \<Rightarrow> Draw) \<Rightarrow> nat \<Rightarrow> nat \<Rightarrow> OrderId list list \<Rightarrow> OrderId \<Rightarrow> ScenarioOp list" where
  "generate_loop rnd sc symbols draws i 0 active nextId = []"
| "generate_loop rnd sc symbols draws i (Suc n) active nextId =
     (let d = draws i;
          symbolIndex = draw_symbol d mod symbols;
          s = unat symbolIndex;
          activeIds = active ! s;
          type = draw_type rnd sc (draw_unit d) (activeIds = []);
          op = \<lparr>op_type = type, op_symbolIndex = symbolIndex, op_orderId = 0,
                op_side = (if draw_side d mod 2 = 0 then Buy else Sell),
                op_price = draw_price d, op_quantity = draw_quantity d\<rparr>
      in if type = OpCancel \<and> activeIds \<noteq> [] then
           op\<lparr>op_orderId := last activeIds\<rparr> #
           generate_loop rnd sc symbols draws (Suc i) n (active[s := butlast activeIds]) nextId
         else
           op\<lparr>op_orderId := nextId\<rparr> #
           generate_loop rnd sc symbols draws (Suc i) n
             (if type = OpAdd then active[s := activeIds @ [nextId]] else active) (nextId + 1))"

definition generateOrders :: "(real \<Rightarrow> real) \<Rightarrow> Scenario \<Rightarrow> (nat \<Rightarrow> Draw) \<Rightarrow> ScenarioOp list" where
  "generateOrders rnd sc draws =
     (let symbols = (if scn_symbolCount sc > 0 then scn_symbolCount sc else 1)
      in generate_loop rnd sc symbols draws 0 (unat (scn_orderCount sc)) (replicate (unat symbols) []) 1)"

section \<open>Meaningful workloads\<close>

text \<open>
  What a consumer of the operations relies on: fresh ids are consecutive, and a cancel names an order that
  was added for its symbol and has not been cancelled.
\<close>

fun workload_ok :: "OrderId \<Rightarrow> (u32 \<Rightarrow> OrderId set) \<Rightarrow> ScenarioOp list \<Rightarrow> bool" where
  "workload_ok fresh live [] \<longleftrightarrow> True"
| "workload_ok fresh live (x # xs) \<longleftrightarrow>
     (let s = op_symbolIndex x; i = op_orderId x in
      case op_type x of
        OpCancel \<Rightarrow> i \<in> live s \<and> workload_ok fresh (live(s := live s - {i})) xs
      | OpAdd \<Rightarrow> i = fresh \<and> workload_ok (fresh + 1) (live(s := insert i (live s))) xs
      | _ \<Rightarrow> i = fresh \<and> workload_ok (fresh + 1) live xs)"

text \<open>The stacks of active ids hold exactly the live orders, each once.\<close>

definition stacks_ok :: "u32 \<Rightarrow> OrderId list list \<Rightarrow> (u32 \<Rightarrow> OrderId set) \<Rightarrow> bool" where
  "stacks_ok symbols active live \<longleftrightarrow> length active = unat symbols \<and>
     (\<forall>s < symbols. distinct (active ! unat s) \<and> live s = set (active ! unat s))"

lemma stacks_ok_update:
  assumes "stacks_ok symbols active live" "s < symbols" "distinct ids"
  shows "stacks_ok symbols (active[unat s := ids]) (live(s := set ids))"
  using assms by (auto simp: stacks_ok_def nth_list_update word_less_nat_alt word_unat_eq_iff)

text \<open>Ids handed out so far lie below the next one, which therefore is fresh.\<close>

definition ids_below :: "nat \<Rightarrow> u32 \<Rightarrow> OrderId list list \<Rightarrow> bool" where
  "ids_below k symbols active \<longleftrightarrow> (\<forall>s < symbols. set (active ! unat s) \<subseteq> of_nat ` {1..<k})"

lemma ids_below_fresh:
  assumes "ids_below k symbols active" "s < symbols" "k < 2 ^ 64"
  shows "(of_nat k :: OrderId) \<notin> set (active ! unat s)"
proof
  assume "of_nat k \<in> set (active ! unat s)"
  then obtain j where "(of_nat j :: OrderId) = of_nat k" "j < k" using assms(1,2) by (force simp: ids_below_def)
  with assms(3) show False by (simp add: word_of_nat_eq_iff take_bit_nat_eq_self)
qed

lemma ids_below_update:
  assumes "ids_below k symbols active" "k \<le> k'" "length active = unat symbols" "s < symbols" "set ids \<subseteq> of_nat ` {1..<k'}"
  shows "ids_below k' symbols (active[unat s := ids])"
  unfolding ids_below_def
proof (intro allI impI)
  fix t assume t: "t < symbols"
  have "of_nat ` {1..<k} \<subseteq> (of_nat ` {1..<k'} :: OrderId set)" using assms(2) by auto
  moreover have "unat t \<noteq> unat s" if "t \<noteq> s" using that by (simp add: word_unat_eq_iff)
  moreover have "unat s < length active" using assms(3,4) by (simp add: word_less_nat_alt)
  ultimately show "set (active[unat s := ids] ! unat t) \<subseteq> of_nat ` {1..<k'}"
    using assms(1,5) t by (cases "t = s") (force simp: ids_below_def)+
qed

lemma draw_type_Cancel: "draw_type rnd sc u True \<noteq> OpCancel"
  by (simp add: draw_type_def Let_def)

text \<open>One iteration: a cancel pops the last id of its symbol, any other operation takes the next id, and
  only an add leaves that id on the stack.\<close>

lemma generate_cancel_state:
  assumes "stacks_ok symbols active live" "ids_below k symbols active" "s < symbols"
    and "ids = active ! unat s" "ids \<noteq> []"
  shows "stacks_ok symbols (active[unat s := butlast ids]) (live(s := live s - {last ids}))"
    and "ids_below k symbols (active[unat s := butlast ids])"
proof -
  have live: "live s = set ids" "distinct ids" using assms(1,3,4) by (auto simp: stacks_ok_def)
  then have rest: "distinct (butlast ids)" "set (butlast ids) = set ids - {last ids}"
    using assms(5) by (cases ids rule: rev_cases; simp)+
  show "stacks_ok symbols (active[unat s := butlast ids]) (live(s := live s - {last ids}))"
    using stacks_ok_update [OF assms(1,3) rest(1)] rest(2) live(1) by simp
  have "set ids \<subseteq> of_nat ` {1..<k}" using assms(2-4) by (simp add: ids_below_def)
  with rest(2) assms(1) show "ids_below k symbols (active[unat s := butlast ids])"
    by (intro ids_below_update [OF assms(2) order_refl _ assms(3)]) (auto simp: stacks_ok_def)
qed

lemma generate_fresh_state:
  assumes "stacks_ok symbols active live" "ids_below k symbols active" "s < symbols"
    and "ids = active ! unat s" "1 \<le> k" "k < 2 ^ 64"
  shows "stacks_ok symbols (if b then active[unat s := ids @ [of_nat k]] else active)
      (if b then live(s := insert (of_nat k) (live s)) else live)"
    and "ids_below (Suc k) symbols (if b then active[unat s := ids @ [of_nat k]] else active)"
proof -
  have live: "live s = set ids" "distinct ids" using assms(1,3,4) by (auto simp: stacks_ok_def)
  have len: "length active = unat symbols" using assms(1) by (simp add: stacks_ok_def)
  have below: "set ids \<subseteq> of_nat ` {1..<k}" using assms(2-4) by (simp add: ids_below_def)
  note up = ids_below_update [OF assms(2) le_SucI [OF order_refl] len assms(3)]
  show "stacks_ok symbols (if b then active[unat s := ids @ [of_nat k]] else active)
      (if b then live(s := insert (of_nat k) (live s)) else live)"
    using assms(1) stacks_ok_update [OF assms(1,3), of "ids @ [of_nat k]"] live
      ids_below_fresh [OF assms(2,3,6)] assms(4) by auto
  show "ids_below (Suc k) symbols (if b then active[unat s := ids @ [of_nat k]] else active)"
    using up [of ids] up [of "ids @ [of_nat k]"] below assms(4,5) by force
qed

lemma generate_loop_ok:
  assumes "stacks_ok symbols active live" "ids_below k symbols active" "0 < symbols" "1 \<le> k" "k + n \<le> 2 ^ 64"
  shows "workload_ok (of_nat k) live (generate_loop rnd sc symbols draws i n active (of_nat k)) \<and>
    length (generate_loop rnd sc symbols draws i n active (of_nat k)) = n \<and>
    (\<forall>x\<in>set (generate_loop rnd sc symbols draws i n active (of_nat k)). op_symbolIndex x < symbols)"
  using assms
proof (induction n arbitrary: i active live k)
  case (Suc n)
  define s where "s = draw_symbol (draws i) mod symbols"
  define ids where "ids = active ! unat s"
  define type where "type = draw_type rnd sc (draw_unit (draws i)) (ids = [])"
  have s: "s < symbols" using Suc.prems(3) by (simp add: s_def word_mod_less_divisor)
  have live: "live s = set ids" using Suc.prems(1) s by (auto simp: stacks_ok_def ids_def)
  show ?case
  proof (cases "type = OpCancel")
    case True
    then have ne: "ids \<noteq> []" using draw_type_Cancel by (auto simp: type_def)
    have eq: "generate_loop rnd sc symbols draws i (Suc n) active (of_nat k) =
        \<lparr>op_type = OpCancel, op_symbolIndex = s, op_orderId = last ids,
         op_side = (if draw_side (draws i) mod 2 = 0 then Buy else Sell),
         op_price = draw_price (draws i), op_quantity = draw_quantity (draws i)\<rparr> #
        generate_loop rnd sc symbols draws (Suc i) n (active[unat s := butlast ids]) (of_nat k)"
      using True ne by (simp add: Let_def s_def ids_def type_def)
    from Suc.IH [OF generate_cancel_state [OF Suc.prems(1,2) s ids_def ne] Suc.prems(3,4), of "Suc i"] show ?thesis
      unfolding eq using Suc.prems(5) live ne s by (simp add: Let_def del: generate_loop.simps fun_upd_apply)
  next
    case False
    let ?active = "if type = OpAdd then active[unat s := ids @ [of_nat k]] else active"
    have eq: "generate_loop rnd sc symbols draws i (Suc n) active (of_nat k) =
        \<lparr>op_type = type, op_symbolIndex = s, op_orderId = of_nat k,
         op_side = (if draw_side (draws i) mod 2 = 0 then Buy else Sell),
         op_price = draw_price (draws i), op_quantity = draw_quantity (draws i)\<rparr> #
        generate_loop rnd sc symbols draws (Suc i) n ?active (of_nat (Suc k))"
      using False by (simp add: Let_def s_def ids_def type_def add.commute)
    have k: "k < 2 ^ 64" "1 \<le> Suc k" "Suc k + n \<le> 2 ^ 64" using Suc.prems(5) by simp_all
    note st = generate_fresh_state [OF Suc.prems(1,2) s ids_def Suc.prems(4) k(1), of "type = OpAdd"]
    from Suc.IH [OF st Suc.prems(3) k(2,3), of "Suc i"] show ?thesis
      unfolding eq using False s
      by (cases type) (simp_all add: Let_def add.commute del: generate_loop.simps fun_upd_apply)
  qed
qed simp

section \<open>Printed scenarios\<close>

text \<open>
  The entries of a scenario as a file of the benchmark directory writes them, one per line; the weights are
  given as text.
\<close>

definition scenario_entries :: "Scenario \<Rightarrow> string \<Rightarrow> string \<Rightarrow> string \<Rightarrow> string \<Rightarrow> string list" where
  "scenario_entries sc add cancel match snapshot = map (\<lambda>(k, v). k @ ''='' @ v)
     [(''name'', scn_name sc), (''symbolCount'', decimal (unat (scn_symbolCount sc))),
      (''orderCount'', decimal (unat (scn_orderCount sc))), (''seed'', decimal (unat (scn_seed sc))),
      (''addWeight'', add), (''cancelWeight'', cancel), (''matchWeight'', match), (''snapshotWeight'', snapshot)]"

text \<open>What else a file may hold: empty lines, comments, lines that are no entry and entries with another key.\<close>

definition ignored_line :: "string \<Rightarrow> bool" where
  "ignored_line l \<longleftrightarrow> l = [] \<or> hd l = CHR ''#'' \<or> CHR ''='' \<notin> set l \<or>
     takeWhile (\<lambda>c. c \<noteq> CHR ''='') l \<notin> {''name'', ''symbolCount'', ''orderCount'', ''seed'',
       ''addWeight'', ''cancelWeight'', ''matchWeight'', ''snapshotWeight''}"

lemma scenario_lines_filter:
  "scenario_lines rnd lines sc = scenario_lines rnd (filter (\<lambda>l. \<not> ignored_line l) lines) sc"
proof (induction lines arbitrary: sc)
  case (Cons l lines)
  have "scenario_line rnd l sc = Inr sc" if "ignored_line l"
    using that by (auto simp: ignored_line_def scenario_line_def scenario_set_def)
  with Cons show ?case by (auto split: sum.splits)
qed simp

lemma getlines_line:
  assumes "CHR 0x0A \<notin> set l"
  shows "getlines (l @ CHR 0x0A # cs) = l # getlines cs"
  using assms by (induction l) auto

lemma getlines_lines:
  assumes "\<forall>l\<in>set ls. CHR 0x0A \<notin> set l"
  shows "getlines (concat (map (\<lambda>l. l @ [CHR 0x0A]) ls)) = ls"
  using assms by (induction ls) (auto simp: getlines_line)

lemma decimal_no_newline: "CHR 0x0A \<notin> set (decimal n)"
  using decimal_digits(1) [of n] by (auto simp: is_digit_def)

lemma stoull_unat:
  "stoull (decimal (unat (w :: u64))) = Inr w" "stoull (decimal (unat (v :: u32))) = Inr (ucast v)"
proof -
  have "unat w < 2 ^ 64" using unsigned_less [of w, where ?'a = nat] by simp
  then show "stoull (decimal (unat w)) = Inr w" by (simp add: stoull_decimal)
  have "unat v < 2 ^ 32" using unsigned_less [of v, where ?'a = nat] by simp
  then show "stoull (decimal (unat v)) = Inr (ucast v)" by (simp add: stoull_decimal unsigned_ucast_eq)
qed

lemma ucast_round: "ucast (ucast (v :: u32) :: u64) = v"
  by transfer simp

section \<open>Properties\<close>

text \<open>
  A generated workload makes sense: whatever the weights, the rounding and the values drawn, it
  has exactly the requested number of operations on existing symbols, the ids of all operations but
  cancels are 1, 2, 3, and so on, and every cancel names an order that was added for the same symbol
  and not cancelled before.
\<close>

theorem generated_workload_ok:
  "length (generateOrders rnd sc draws) = unat (scn_orderCount sc) \<and>
   (\<forall>x\<in>set (generateOrders rnd sc draws). op_symbolIndex x < max 1 (scn_symbolCount sc)) \<and>
   workload_ok 1 (\<lambda>_. {}) (generateOrders rnd sc draws)"
proof -
  define symbols where "symbols = (if scn_symbolCount sc > 0 then scn_symbolCount sc else 1)"
  have "symbols = max 1 (scn_symbolCount sc)" "0 < symbols"
    by (auto simp: symbols_def max_def word_le_nat_alt word_less_nat_alt)
  moreover have "stacks_ok symbols (replicate (unat symbols) []) (\<lambda>_. {})" "ids_below 1 symbols (replicate (unat symbols) [])"
    by (auto simp: stacks_ok_def ids_below_def word_less_nat_alt)
  moreover have "1 + unat (scn_orderCount sc) \<le> 2 ^ 64"
    using unsigned_less [of "scn_orderCount sc", where ?'a = nat] by simp
  ultimately show ?thesis
    using generate_loop_ok [of symbols "replicate (unat symbols) []" "\<lambda>_. {}" 1 "unat (scn_orderCount sc)" rnd sc draws 0]
    by (simp add: generateOrders_def symbols_def Let_def)
qed

text \<open>
  C22. Round trip of scenario files: a file whose entries are those of a scenario loads to exactly that
  scenario, whatever empty lines, comments, lines without an equals sign and entries with an unknown key
  stand before, between and after them; the name has to be one line and the texts of the weights
  have to denote them.
\<close>

theorem load_printed_scenario:
  assumes "\<forall>l\<in>set lines. CHR 0x0A \<notin> set l"
    and "filter (\<lambda>l. \<not> ignored_line l) lines = scenario_entries sc a c m s"
    and "stod rnd a = Inr (scn_addWeight sc)" "stod rnd c = Inr (scn_cancelWeight sc)"
    and "stod rnd m = Inr (scn_matchWeight sc)" "stod rnd s = Inr (scn_snapshotWeight sc)"
  shows "loadScenario rnd path (Some (concat (map (\<lambda>l. l @ [CHR 0x0A]) lines))) = Inr sc"
proof -
  have "scenario_lines rnd (scenario_entries sc a c m s) new_Scenario = Inr sc"
    using assms(3-6)
    by (cases sc) (simp add: scenario_entries_def scenario_line_def scenario_set_def stoull_unat ucast_round new_Scenario_def)
  then show ?thesis
    using scenario_lines_filter [of rnd lines new_Scenario] assms(2) by (simp add: loadScenario_def getlines_lines [OF assms(1)])
qed

theorem load_printed_scenario_witness:
  "loadScenario id ''mixed.txt'' (Some (concat (map (\<lambda>l. l @ [CHR 0x0A])
      [''# orders'', ''name=mixed'', ''symbolCount=4'', ''orderCount=1000'', [], ''seed=42'', ''# weights, in parts'', ''addWeight=0.5'',
       ''cancelWeight=.25'', ''about=nothing'', ''matchWeight=2e1'', ''snapshotWeight=0'', ''the end'']))) =
   Inr \<lparr>scn_name = ''mixed'', scn_symbolCount = 4, scn_orderCount = 1000, scn_seed = 42, scn_addWeight = 1 / 2,
        scn_cancelWeight = 1 / 4, scn_matchWeight = 20, scn_snapshotWeight = 0\<rparr>"
proof -
  let ?sc = "\<lparr>scn_name = ''mixed'', scn_symbolCount = 4, scn_orderCount = 1000, scn_seed = 42, scn_addWeight = 1 / 2 :: real,
        scn_cancelWeight = 1 / 4, scn_matchWeight = 20, scn_snapshotWeight = 0\<rparr>"
  let ?lines = "[''# orders'', ''name=mixed'', ''symbolCount=4'', ''orderCount=1000'', [], ''seed=42'', ''# weights, in parts'', ''addWeight=0.5'',
       ''cancelWeight=.25'', ''about=nothing'', ''matchWeight=2e1'', ''snapshotWeight=0'', ''the end'']"
  have "stod id ''0.5'' = Inr (1 / 2)" "stod id ''.25'' = Inr (1 / 4)" "stod id ''2e1'' = Inr 20" "stod id ''0'' = Inr 0"
    by (simp_all add: stod_def scan_exponent_def is_space_def is_digit_def digit_val_def dbl_max_def dbl_min_def)
  moreover have "filter (\<lambda>l. \<not> ignored_line l) ?lines = scenario_entries ?sc ''0.5'' ''.25'' ''2e1'' ''0''"
    by code_simp
  ultimately show ?thesis
    using load_printed_scenario [of ?lines ?sc "''0.5''" "''.25''" "''2e1''" "''0''" id "''mixed.txt''"] by simp
qed

theorem generated_workload_ok_witness:
  "length (generateOrders id (new_Scenario\<lparr>scn_orderCount := 3, scn_cancelWeight := 1\<rparr>)
      (\<lambda>i. \<lparr>draw_symbol = 7, draw_unit = of_nat i / 4, draw_side = 1, draw_price = 100, draw_quantity = 5\<rparr>)) = 3 \<and>
   workload_ok 1 (\<lambda>_. {}) (generateOrders id (new_Scenario\<lparr>scn_orderCount := 3, scn_cancelWeight := 1\<rparr>)
      (\<lambda>i. \<lparr>draw_symbol = 7, draw_unit = of_nat i / 4, draw_side = 1, draw_price = 100, draw_quantity = 5\<rparr>))"
  using generated_workload_ok [of id "new_Scenario\<lparr>scn_orderCount := 3, scn_cancelWeight := 1\<rparr>"
      "\<lambda>i. \<lparr>draw_symbol = 7, draw_unit = of_nat i / 4, draw_side = 1, draw_price = 100, draw_quantity = 5\<rparr>"]
  by simp

end
