(* ===== verification/Latency_Histogram.thy ===== *)
theory Latency_Histogram
  imports Titan_Prelude Complex_Main "HOL-Library.Multiset"
begin

text \<open>
  Measuring (\<open>include/titan/bench/latency_histogram.hpp\<close>, \<open>harness.hpp\<close>, and their sources): a histogram
  that keeps all samples and sorts them on the first query, and the loop that fills one.  Doubles
  are real numbers with a rounding \<open>rnd\<close> after every operation; converting a double to \<open>size_t\<close> has no
  result when its integral part does not fit.  The clock is a parameter.
\<close>

section \<open>The histogram\<close>

record LatencyHistogram =
  lh_samples :: "u64 list"
  lh_sorted :: bool
  lh_sum :: u64

definition new_LatencyHistogram :: LatencyHistogram where
  "new_LatencyHistogram = \<lparr>lh_samples = [], lh_sorted = True, lh_sum = 0\<rparr>"

definition lh_record :: "u64 \<Rightarrow> LatencyHistogram \<Rightarrow> LatencyHistogram" where
  "lh_record ns h = \<lparr>lh_samples = lh_samples h @ [ns], lh_sorted = False, lh_sum = lh_sum h + ns\<rparr>"

definition lh_ensureSorted :: "LatencyHistogram \<Rightarrow> LatencyHistogram" where
  "lh_ensureSorted h = (if \<not> lh_sorted h then h\<lparr>lh_samples := sort (lh_samples h), lh_sorted := True\<rparr> else h)"

definition to_size_t :: "real \<Rightarrow> nat option" where
  "to_size_t x = (if -1 < x \<and> x < 2 ^ 64 then Some (nat \<lfloor>x\<rfloor>) else None)"

text \<open>The members are \<open>mutable\<close>: a query returns the histogram it leaves as well.\<close>

definition lh_percentile :: "(real \<Rightarrow> real) \<Rightarrow> real \<Rightarrow> LatencyHistogram \<Rightarrow> (real \<times> LatencyHistogram) option" where
  "lh_percentile rnd p h =
     (if lh_samples h = [] then Some (0, h)
      else do {
        let h1 = lh_ensureSorted h;
        let rank = rnd (rnd (p / 100) * rnd (real (length (lh_samples h1))));
        idx \<leftarrow> to_size_t (of_int \<lceil>rank\<rceil>);
        let idx = (if idx = 0 then 0 else idx - 1);
        let idx = (if idx \<ge> length (lh_samples h1) then length (lh_samples h1) - 1 else idx);
        Some (rnd (real (unat (lh_samples h1 ! idx))), h1) })"

definition lh_clear :: "LatencyHistogram \<Rightarrow> LatencyHistogram" where
  "lh_clear h = \<lparr>lh_samples = [], lh_sorted = True, lh_sum = 0\<rparr>"

definition lh_count :: "LatencyHistogram \<Rightarrow> nat" where
  "lh_count h = length (lh_samples h)"

definition lh_mean :: "(real \<Rightarrow> real) \<Rightarrow> LatencyHistogram \<Rightarrow> real" where
  "lh_mean rnd h =
     (if lh_samples h = [] then 0 else rnd (rnd (real (unat (lh_sum h))) / rnd (real (length (lh_samples h)))))"

section \<open>The harness\<close>

record BenchConfig =
  bc_warmupIters :: nat
  bc_measureIters :: nat

record BenchResult =
  bres_ops :: u64
  bres_opsPerSec :: real
  bres_latency :: LatencyHistogram

text \<open>\<open>op\<close> acts on the state of its caller.  \<open>clock i\<close> is the time before, and \<open>clock' i\<close> the time after, iteration \<open>i\<close>.\<close>

fun bench_warmup :: "('s \<Rightarrow> 's) \<Rightarrow> nat \<Rightarrow> 's \<Rightarrow> 's" where
  "bench_warmup act 0 s = s"
| "bench_warmup act (Suc n) s = bench_warmup act n (act s)"

fun bench_measure :: "('s \<Rightarrow> 's) \<Rightarrow> (nat \<Rightarrow> u64) \<Rightarrow> (nat \<Rightarrow> u64) \<Rightarrow> nat \<Rightarrow> nat \<Rightarrow> LatencyHistogram \<Rightarrow> 's \<Rightarrow> LatencyHistogram \<times> 's" where
  "bench_measure act clock clock' i 0 h s = (h, s)"
| "bench_measure act clock clock' i (Suc n) h s =
     bench_measure act clock clock' (Suc i) n (lh_record (clock' i - clock i) h) (act s)"

definition bench_run :: "(real \<Rightarrow> real) \<Rightarrow> BenchConfig \<Rightarrow> ('s \<Rightarrow> 's) \<Rightarrow> (nat \<Rightarrow> u64) \<Rightarrow> (nat \<Rightarrow> u64) \<Rightarrow> real \<Rightarrow> 's \<Rightarrow> BenchResult \<times> 's" where
  "bench_run rnd config act clock clock' totalSeconds s =
     (let s1 = bench_warmup act (bc_warmupIters config) s;
          (h, s2) = bench_measure act clock clock' 0 (bc_measureIters config) new_LatencyHistogram s1
      in (\<lparr>bres_ops = of_nat (bc_measureIters config),
           bres_opsPerSec = (if totalSeconds > 0 then rnd (rnd (real (bc_measureIters config)) / totalSeconds) else 0),
           bres_latency = h\<rparr>, s2))"

section \<open>Invariant\<close>

text \<open>The flag is not set on an unsorted vector.\<close>

definition lh_inv :: "LatencyHistogram \<Rightarrow> bool" where
  "lh_inv h \<longleftrightarrow> (lh_sorted h \<longrightarrow> sorted (lh_samples h))"

lemma lh_inv_ops [simp, intro]:
  "lh_inv new_LatencyHistogram" "lh_inv (lh_record ns h)" "lh_inv (lh_clear h)"
  by (simp_all add: lh_inv_def new_LatencyHistogram_def lh_record_def lh_clear_def)

lemma lh_ensureSorted_sorts:
  assumes "lh_inv h"
  shows "lh_samples (lh_ensureSorted h) = sort (lh_samples h)" "lh_inv (lh_ensureSorted h)" "lh_sum (lh_ensureSorted h) = lh_sum h"
  using assms by (auto simp: lh_ensureSorted_def lh_inv_def sorted_sort_id)

lemma bench_measure_eq:
  "fst (bench_measure act clock clock' i n h s) = fold lh_record (map (\<lambda>j. clock' j - clock j) [i..<i + n]) h"
  "snd (bench_measure act clock clock' i n h s) = (act ^^ n) s"
  by (induction n arbitrary: i h s) (simp_all add: upt_conv_Cons funpow_swap1 del: upt_Suc)

lemma lh_record_fold: "lh_samples (fold lh_record xs h) = lh_samples h @ xs"
  by (induction xs arbitrary: h) (simp_all add: lh_record_def)

section \<open>Ranks\<close>

lemma length_filter_mset: "mset xs = mset ys \<Longrightarrow> length (filter P xs) = length (filter P ys)"
  by (metis mset_filter size_mset)

lemma sorted_rank:
  fixes xs :: "'a :: linorder list"
  assumes "sorted xs" "i < length xs"
  shows "Suc i \<le> length (filter (\<lambda>x. x \<le> xs ! i) xs)" "length (filter (\<lambda>x. x < xs ! i) xs) \<le> i"
proof -
  have cut: "length (filter P xs) = length (filter P (take k xs)) + length (filter P (drop k xs))" for P k
    by (metis append_take_drop_id filter_append length_append)
  have "filter (\<lambda>x. x \<le> xs ! i) (take (Suc i) xs) = take (Suc i) xs"
    using sorted_nth_mono [OF assms(1) _ assms(2)] assms(2) by (auto simp: filter_id_conv in_set_conv_nth less_Suc_eq_le)
  then have "length (filter (\<lambda>x. x \<le> xs ! i) xs) = Suc i + length (filter (\<lambda>x. x \<le> xs ! i) (drop (Suc i) xs))"
    using assms(2) by (simp add: cut [of _ "Suc i"])
  then show "Suc i \<le> length (filter (\<lambda>x. x \<le> xs ! i) xs)" by simp
  have "xs ! i \<le> y" if "y \<in> set (drop i xs)" for y
    using that assms by (auto simp: in_set_conv_nth intro!: sorted_nth_mono)
  then have "filter (\<lambda>x. x < xs ! i) (drop i xs) = []" by (auto simp: filter_empty_conv not_less)
  then have "length (filter (\<lambda>x. x < xs ! i) xs) = length (filter (\<lambda>x. x < xs ! i) (take i xs))"
    by (simp add: cut [of _ i])
  also have "\<dots> \<le> i" using length_filter_le [of _ "take i xs"] by (rule order_trans) simp
  finally show "length (filter (\<lambda>x. x < xs ! i) xs) \<le> i" .
qed

lemma rank_in_range:
  assumes "mono rnd" "\<forall>k::nat. k \<le> 2 ^ 53 \<longrightarrow> rnd (real k) = real k" "0 \<le> p" "p \<le> 100" "n \<le> 2 ^ 53"
  shows "0 \<le> rnd (rnd (p / 100) * real n)" "rnd (rnd (p / 100) * real n) \<le> real n"
proof -
  have e: "rnd 0 = 0" "rnd 1 = 1" "rnd (real n) = real n"
    using assms(2) [rule_format, of 0] assms(2) [rule_format, of 1] assms(2,5) by auto
  have f: "0 \<le> rnd (p / 100)" "rnd (p / 100) \<le> 1"
    using monoD [OF assms(1), of 0 "p / 100"] monoD [OF assms(1), of "p / 100" 1] assms(3,4) e by auto
  then have "0 \<le> rnd (p / 100) * real n" "rnd (p / 100) * real n \<le> real n"
    by (auto intro: mult_left_le_one_le)
  then show "0 \<le> rnd (rnd (p / 100) * real n)" "rnd (rnd (p / 100) * real n) \<le> real n"
    using monoD [OF assms(1), of 0 "rnd (p / 100) * real n"] monoD [OF assms(1), of "rnd (p / 100) * real n" "real n"] e by auto
qed

section \<open>Properties\<close>

text \<open>
  C15. \<open>percentile\<close> is the nearest-rank percentile: for \<open>p\<close> between 0 and 100 it returns, and what it
  returns is a recorded sample such that at least as many samples as the (rounded) rank \<open>p / 100 * n\<close>
  are no larger, and fewer than that are smaller; for the rank zero it is the smallest sample.
  The query keeps all samples.  Of the rounding only monotonicity and exactness on the integers up to
  \<open>2\<^sup>5\<^sup>3\<close> are used.
\<close>

theorem percentile_nearest_rank:
  assumes "mono rnd" "\<forall>k::nat. k \<le> 2 ^ 53 \<longrightarrow> rnd (real k) = real k" "0 \<le> p" "p \<le> 100"
    and "lh_inv h" "lh_samples h \<noteq> []" "length (lh_samples h) \<le> 2 ^ 53"
    and "rank = rnd (rnd (p / 100) * real (length (lh_samples h)))"
  shows "\<exists>v h1. lh_percentile rnd p h = Some (rnd (real (unat v)), h1) \<and> v \<in> set (lh_samples h) \<and>
    rank \<le> real (length (filter (\<lambda>x. x \<le> v) (lh_samples h))) \<and>
    (real (length (filter (\<lambda>x. x < v) (lh_samples h))) < rank \<or> rank = 0 \<and> v = Min (set (lh_samples h))) \<and>
    mset (lh_samples h1) = mset (lh_samples h) \<and> lh_inv h1"
proof -
  define n where "n = length (lh_samples h)"
  define h1 where "h1 = lh_ensureSorted h"
  define xs where "xs = lh_samples h1"
  define i where "i = nat \<lceil>rank\<rceil> - 1"
  note s = lh_ensureSorted_sorts [OF assms(5), folded h1_def]
  have xs: "mset xs = mset (lh_samples h)" "sorted xs" "length xs = n" by (simp_all add: xs_def s n_def)
  have r: "0 \<le> rank" "rank \<le> real n" using rank_in_range [OF assms(1-4,7)] by (simp_all add: assms(8) n_def)
  then have c: "0 \<le> \<lceil>rank\<rceil>" "\<lceil>rank\<rceil> \<le> int n" by (simp_all add: ceiling_le_iff)
  have n: "0 < n" "n \<le> 2 ^ 53" using assms(6,7) by (simp_all add: n_def)
  have i: "i < length xs" using c(2) n(1) by (simp add: i_def xs(3) nat_le_iff)
  have "real n \<le> 2 ^ 53" using n(2) by (metis of_nat_le_iff of_nat_numeral of_nat_power)
  moreover have "real_of_int \<lceil>rank\<rceil> \<le> real n" using c(2) by linarith
  moreover have "(2 :: real) ^ 53 < 2 ^ 64" by simp
  ultimately have "real_of_int \<lceil>rank\<rceil> < 2 ^ 64" by (metis le_less_trans)
  moreover have "-1 < real_of_int \<lceil>rank\<rceil>" using c(1) by linarith
  ultimately have "to_size_t (of_int \<lceil>rank\<rceil>) = Some (nat \<lceil>rank\<rceil>)" unfolding to_size_t_def by simp
  moreover have "rnd (rnd (p / 100) * rnd (real n)) = rank" using assms(2,8) n(2) by (simp add: n_def)
  ultimately have eq: "lh_percentile rnd p h = Some (rnd (real (unat (xs ! i))), h1)"
    using assms(6) i xs(3) by (auto simp: lh_percentile_def h1_def [symmetric] xs_def [symmetric] i_def Let_def)
  have cnt: "length (filter P xs) = length (filter P (lh_samples h))" for P by (rule length_filter_mset [OF xs(1)])
  have "rank \<le> real (Suc i)" using r(1) by (simp add: i_def) linarith
  then have "rank \<le> real (length (filter (\<lambda>x. x \<le> xs ! i) (lh_samples h)))"
    using sorted_rank(1) [OF xs(2) i] cnt by (metis of_nat_le_iff order_trans)
  moreover have "real (length (filter (\<lambda>x. x < xs ! i) (lh_samples h))) < rank" if "rank \<noteq> 0"
  proof -
    have "0 < \<lceil>rank\<rceil>" using that r(1) by simp
    then have "real i < rank" by (simp add: i_def) linarith
    then show ?thesis using sorted_rank(2) [OF xs(2) i] cnt by (metis of_nat_le_iff order_le_less_trans)
  qed
  moreover have "xs ! i = Min (set (lh_samples h))" if "rank = 0"
  proof -
    have "xs ! i = hd xs" using that i by (simp add: i_def hd_conv_nth)
    also have "\<dots> = Min (set xs)" using xs(2) i by (cases xs) (auto intro!: Min_eqI [symmetric])
    finally show ?thesis using xs(1) by (metis set_mset_mset)
  qed
  moreover have "xs ! i \<in> set (lh_samples h)" using nth_mem [OF i] xs(1) by (metis set_mset_mset)
  ultimately show ?thesis using eq xs(1) s(2) unfolding xs_def by blast
qed

theorem percentile_nearest_rank_witness:
  "\<exists>(v :: u64) h1. lh_percentile id 50 (fold lh_record [30, 10, 20, 40] new_LatencyHistogram) = Some (real (unat v), h1) \<and>
     v \<in> {10, 20, 30, 40} \<and> 2 \<le> length (filter (\<lambda>x. x \<le> v) [30, 10, 20, 40]) \<and> length (filter (\<lambda>x. x < v) [30, 10, 20, 40]) < 2"
proof -
  define h where "h = fold lh_record [30, 10, 20, 40] new_LatencyHistogram"
  have s: "lh_samples h = [30, 10, 20, 40]" by (simp add: h_def lh_record_def new_LatencyHistogram_def)
  have inv: "lh_inv h" by (simp add: h_def lh_inv_def lh_record_def)
  have "\<exists>v h1. lh_percentile id 50 h = Some (id (real (unat v)), h1) \<and> v \<in> set (lh_samples h) \<and>
    2 \<le> real (length (filter (\<lambda>x. x \<le> v) (lh_samples h))) \<and>
    (real (length (filter (\<lambda>x. x < v) (lh_samples h))) < 2 \<or> (2 :: real) = 0 \<and> v = Min (set (lh_samples h))) \<and>
    mset (lh_samples h1) = mset (lh_samples h) \<and> lh_inv h1"
    by (rule percentile_nearest_rank [OF _ _ _ _ inv]) (simp_all add: mono_def s)
  then obtain v h1 where v: "lh_percentile id 50 h = Some (id (real (unat v)), h1)" "v \<in> set (lh_samples h)"
    "2 \<le> length (filter (\<lambda>x. x \<le> v) (lh_samples h))" "length (filter (\<lambda>x. x < v) (lh_samples h)) < 2"
    by auto
  from v(2) have "v \<in> {10, 20, 30, 40}" unfolding s by auto
  with v(1,3,4) show ?thesis unfolding s id_def h_def [symmetric] by blast
qed

end
