(* ===== verification/Bench_Programs.thy ===== *)
theory Bench_Programs
  imports Bench_Scenario Latency_Histogram Staged_Processor
begin

text \<open>
  The benchmark programs (\<open>benchmarks/*.cpp\<close>): how each of them plays a generated workload into an order
  manager, a registry or the pipeline.  What the heap, the clocks and the scheduler do are parameters or have
  no model; shown is that the measured calls are the ones meant: no pass of the allocation benchmark is refused as
  a repetition of an earlier one, the cancels of the cancel benchmark stay away from the seeded orders, both
  matchers are driven through the same states, and so are the direct and the pipelined exchange.
\<close>

section \<open>Replaying on an order manager\<close>

definition op_order :: "ScenarioOp \<Rightarrow> Order" where
  "op_order x = limit_order (op_orderId x) (op_side x) (op_price x) (op_quantity x)"

definition replay_op :: "'m IMatcher \<Rightarrow> 'm OrderManager \<Rightarrow> ScenarioOp \<Rightarrow> 'm OrderManager option" where
  "replay_op M om x =
     (case op_type x of
        OpAdd \<Rightarrow> map_option snd (om_addOrder M om (op_order x))
      | OpCancel \<Rightarrow> map_option snd (om_cancelOrder M om (op_orderId x))
      | OpMatch \<Rightarrow> map_option snd (om_matchOrder M om (op_order x))
      | OpSnapshot \<Rightarrow> Some om)"

fun bench_replay :: "'m IMatcher \<Rightarrow> 'm OrderManager \<Rightarrow> ScenarioOp list \<Rightarrow> 'm OrderManager option" where
  "bench_replay M om [] = Some om"
| "bench_replay M om (x # xs) = do { om' \<leftarrow> replay_op M om x; bench_replay M om' xs }"

text \<open>The allocation benchmark: every pass is the workload with its ids moved on.\<close>

definition offsetIds :: "ScenarioOp list \<Rightarrow> u64 \<Rightarrow> ScenarioOp list" where
  "offsetIds ops offset = map (\<lambda>x. x\<lparr>op_orderId := op_orderId x + offset\<rparr>) ops"

definition kIdSpace :: u64 where "kIdSpace = 1000000"

fun replay_passes :: "'m IMatcher \<Rightarrow> 'm OrderManager \<Rightarrow> ScenarioOp list list \<Rightarrow> 'm OrderManager option" where
  "replay_passes M om [] = Some om"
| "replay_passes M om (ops # passes) = do { om' \<leftarrow> bench_replay M om ops; replay_passes M om' passes }"

text \<open>What \<open>measureAllocs\<close> does to its manager before the counters are read and in between.\<close>

definition measureAllocs :: "'m IMatcher \<Rightarrow> 'm \<Rightarrow> ScenarioOp list \<Rightarrow> nat \<Rightarrow> nat \<Rightarrow> ('m OrderManager \<times> 'm OrderManager) option" where
  "measureAllocs M matcher baseOps warmupPasses measuredPasses = do {
     let manager = new_OrderManager matcher;
     warm \<leftarrow> replay_passes M manager (map (\<lambda>pass. offsetIds baseOps (of_nat pass * kIdSpace)) [0..<warmupPasses]);
     let measuredOps = map (\<lambda>pass. offsetIds baseOps (of_nat (warmupPasses + pass) * kIdSpace)) [0..<measuredPasses];
     finished \<leftarrow> replay_passes M warm measuredOps;
     Some (warm, finished) }"

text \<open>The cancel benchmark.\<close>

definition kSeedOrders :: u64 where "kSeedOrders = 5000"

definition kIdOffset :: u64 where "kIdOffset = kSeedOrders + 1"

definition seed_order :: "u64 \<Rightarrow> Order" where
  "seed_order i =
     (let side = (if i mod 2 = 0 then Buy else Sell);
          price = (if side = Buy then 90 + i mod 10 else 110 + i mod 10)
      in limit_order (i + 1) side price 10)"

fun seed_loop :: "'m IMatcher \<Rightarrow> 'm OrderManager \<Rightarrow> nat list \<Rightarrow> 'm OrderManager option" where
  "seed_loop M om [] = Some om"
| "seed_loop M om (i # is) = do { (_, om') \<leftarrow> om_addOrder M om (seed_order (of_nat i)); seed_loop M om' is }"

definition seedBook :: "'m IMatcher \<Rightarrow> 'm OrderManager \<Rightarrow> 'm OrderManager option" where
  "seedBook M om = seed_loop M om [0..<unat kSeedOrders]"

fun replayOnSeededBook :: "'m IMatcher \<Rightarrow> 'm OrderManager \<Rightarrow> ScenarioOp list \<Rightarrow> 'm OrderManager option" where
  "replayOnSeededBook M om [] = Some om"
| "replayOnSeededBook M om (x # xs) = do {
     let i = op_orderId x + kIdOffset;
     om' \<leftarrow> (if op_type x = OpAdd then map_option snd (om_addOrder M om (limit_order i (op_side x) (op_price x) (op_quantity x)))
             else if op_type x = OpCancel then map_option snd (om_cancelOrder M om i)
             else Some om);
     replayOnSeededBook M om' xs }"

section \<open>Replaying on a registry\<close>

definition makeSymbols :: "u32 \<Rightarrow> Symbol list" where
  "makeSymbols symbolCount = map (\<lambda>i. ''SYM'' @ decimal i) [0..<unat symbolCount]"

text \<open>An empty list of symbols divides by zero.\<close>

definition multi_call :: "Symbol list \<Rightarrow> ScenarioOp \<Rightarrow> RegistryCall option" where
  "multi_call symbols x =
     (if symbols = [] then None
      else let symbol = symbols ! (unat (op_symbolIndex x) mod length symbols) in
        Some (case op_type x of
          OpAdd \<Rightarrow> SubmitOrder symbol (op_order x)
        | OpCancel \<Rightarrow> CancelOrder symbol (op_orderId x)
        | OpMatch \<Rightarrow> MatchOrder symbol (op_order x)
        | OpSnapshot \<Rightarrow> Snapshot symbol 10))"

fun multi_replay :: "InstrumentRegistry \<Rightarrow> Symbol list \<Rightarrow> ScenarioOp list \<Rightarrow> InstrumentRegistry option" where
  "multi_replay R symbols [] = Some R"
| "multi_replay R symbols (x # xs) = do {
     c \<leftarrow> multi_call symbols x;
     (_, R') \<leftarrow> reg_call R c;
     multi_replay R' symbols xs }"

definition multi_symbol_run :: "MatcherBackend \<Rightarrow> u32 \<Rightarrow> ScenarioOp list \<Rightarrow> InstrumentRegistry option" where
  "multi_symbol_run backend symbolCount ops =
     multi_replay (foldl reg_createInstrument (new_InstrumentRegistry backend) (makeSymbols symbolCount)) (makeSymbols symbolCount) ops"

text \<open>The snapshot benchmark's book: ten levels a side.\<close>

fun submit_all :: "InstrumentRegistry \<Rightarrow> Symbol \<Rightarrow> Order list \<Rightarrow> InstrumentRegistry option" where
  "submit_all R symbol [] = Some R"
| "submit_all R symbol (x # xs) = do { (_, R') \<leftarrow> reg_submitOrder R symbol x; submit_all R' symbol xs }"

definition seedTwentyLevels :: "InstrumentRegistry \<Rightarrow> Symbol \<Rightarrow> InstrumentRegistry option" where
  "seedTwentyLevels R symbol = submit_all R symbol
     (map (\<lambda>i. limit_order (of_nat (1 + i)) Buy (of_int (100 - int i)) 10) [0..<10] @
      map (\<lambda>i. limit_order (of_nat (11 + i)) Sell (of_int (110 + int i)) 10) [0..<10])"

section \<open>Direct calls against the pipeline\<close>

record RunSummary =
  rs_throughputOpsPerSec :: real
  rs_latency :: LatencyHistogram

definition direct_op :: "Symbol \<Rightarrow> InstrumentRegistry \<Rightarrow> ScenarioOp \<Rightarrow> InstrumentRegistry option" where
  "direct_op symbol R x =
     (case op_type x of
        OpAdd \<Rightarrow> map_option snd (reg_submitOrder R symbol (op_order x))
      | OpCancel \<Rightarrow> map_option snd (reg_cancelOrder R symbol (op_orderId x))
      | OpMatch \<Rightarrow> map_option snd (reg_matchOrder R symbol (op_order x))
      | OpSnapshot \<Rightarrow> Some R)"

text \<open>\<open>clock i\<close> and \<open>clock' i\<close> are the readings before and after operation \<open>i\<close>.\<close>

fun direct_loop :: "(nat \<Rightarrow> u64) \<Rightarrow> (nat \<Rightarrow> u64) \<Rightarrow> Symbol \<Rightarrow> nat \<Rightarrow> ScenarioOp list \<Rightarrow> InstrumentRegistry \<Rightarrow> LatencyHistogram \<Rightarrow>
    (InstrumentRegistry \<times> LatencyHistogram) option" where
  "direct_loop clock clock' symbol i [] R h = Some (R, h)"
| "direct_loop clock clock' symbol i (x # xs) R h = do {
     R' \<leftarrow> direct_op symbol R x;
     direct_loop clock clock' symbol (Suc i) xs R' (lh_record (clock' i - clock i) h) }"

text \<open>The registry is returned as well, for comparison; \<open>seconds\<close> is the time of the whole loop.\<close>

definition runDirect :: "(real \<Rightarrow> real) \<Rightarrow> (nat \<Rightarrow> u64) \<Rightarrow> (nat \<Rightarrow> u64) \<Rightarrow> real \<Rightarrow> ScenarioOp list \<Rightarrow> Symbol \<Rightarrow> (RunSummary \<times> InstrumentRegistry) option" where
  "runDirect rnd clock clock' seconds ops symbol = do {
     let R = reg_createInstrument (new_InstrumentRegistry Optimized) symbol;
     (R', h) \<leftarrow> direct_loop clock clock' symbol 0 ops R new_LatencyHistogram;
     Some (\<lparr>rs_throughputOpsPerSec = rnd (rnd (real (length ops)) / seconds), rs_latency = h\<rparr>, R') }"

text \<open>What the producer thread enqueues; \<open>now\<close> is its clock.\<close>

fun producer_events :: "(u64 \<Rightarrow> u64) \<Rightarrow> Symbol \<Rightarrow> u64 \<Rightarrow> ScenarioOp list \<Rightarrow> PipelineEvent list" where
  "producer_events now symbol sequence [] = []"
| "producer_events now symbol sequence (x # xs) =
     (case op_type x of
        OpAdd \<Rightarrow> enqueueSubmit_event (now sequence) symbol (op_order x) sequence # producer_events now symbol (sequence + 1) xs
      | OpCancel \<Rightarrow> enqueueCancel_event (now sequence) symbol (op_orderId x) sequence # producer_events now symbol (sequence + 1) xs
      | OpMatch \<Rightarrow> enqueueMatch_event (now sequence) symbol (op_order x) sequence # producer_events now symbol (sequence + 1) xs
      | OpSnapshot \<Rightarrow> producer_events now symbol sequence xs)"

text \<open>The summary of a pipeline whose consumer has ended in the given state: the callback recorded its latencies.\<close>

definition runPipeline :: "(real \<Rightarrow> real) \<Rightarrow> real \<Rightarrow> ScenarioOp list \<Rightarrow> StagedConsumer \<Rightarrow> RunSummary" where
  "runPipeline rnd seconds ops c =
     \<lparr>rs_throughputOpsPerSec = rnd (rnd (real (length ops)) / seconds),
      rs_latency = fold (\<lambda>(_, _, ns). lh_record ns) (sc_callbacks c) new_LatencyHistogram\<rparr>"

section \<open>The ids of a workload\<close>

definition names_new :: "ScenarioOp \<Rightarrow> bool" where
  "names_new x \<longleftrightarrow> op_type x \<noteq> OpCancel"

lemma workload_ids:
  "workload_ok (of_nat k) live ops \<Longrightarrow>
    map op_orderId (filter names_new ops) = map of_nat [k..<k + length (filter names_new ops)]"
proof (induction ops arbitrary: k live)
  case (Cons x ops)
  show ?case
  proof (cases "op_type x = OpCancel")
    case True
    with Cons.prems obtain live' where "workload_ok (of_nat k) live' ops" by (auto simp: Let_def)
    with Cons.IH True show ?thesis by (simp add: names_new_def)
  next
    case False
    with Cons.prems obtain live' where "op_orderId x = of_nat k" "workload_ok (of_nat (Suc k)) live' ops"
      by (cases "op_type x") (auto simp: Let_def add.commute)
    with Cons.IH [of "Suc k"] False show ?thesis by (simp add: names_new_def upt_conv_Cons del: upt_Suc)
  qed
qed simp

lemma workload_range:
  assumes "workload_ok (of_nat k) live ops" "\<And>s. live s \<subseteq> of_nat ` {1..<k}" "1 \<le> k" "x \<in> set ops"
  shows "op_orderId x \<in> of_nat ` {1..<k + length ops}"
  using assms
proof (induction ops arbitrary: k live)
  case (Cons y ops)
  have mono: "of_nat ` {1..<k} \<subseteq> (of_nat ` {1..<k + length (y # ops)} :: u64 set)" by auto
  show ?case
  proof (cases "op_type y = OpCancel")
    case True
    with Cons.prems(1) have y: "op_orderId y \<in> live (op_symbolIndex y)"
      "workload_ok (of_nat k) (live(op_symbolIndex y := live (op_symbolIndex y) - {op_orderId y})) ops" by (simp_all add: Let_def)
    have "(live(op_symbolIndex y := live (op_symbolIndex y) - {op_orderId y})) s \<subseteq> of_nat ` {1..<k}" for s
      using Cons.prems(2) [of s] by auto
    from Cons.IH [OF y(2) this Cons.prems(3)] have "op_orderId x \<in> of_nat ` {1..<k + length ops}" if "x \<in> set ops" using that by simp
    then show ?thesis using y(1) Cons.prems(2,4) mono by fastforce
  next
    case False
    then obtain live' where y: "op_orderId y = of_nat k" "workload_ok (of_nat (Suc k)) live' ops"
      "\<And>s. live' s \<subseteq> insert (of_nat k) (live s)"
    proof (cases "op_type y")
      case OpAdd
      with Cons.prems(1) show ?thesis
        by (intro that [of "live(op_symbolIndex y := insert (op_orderId y) (live (op_symbolIndex y)))"]) (auto simp: Let_def add.commute)
    qed (use Cons.prems(1) False in \<open>auto simp: Let_def add.commute intro!: that [of live]\<close>)
    have "live' s \<subseteq> of_nat ` {1..<Suc k}" for s
      using y(3) [of s] Cons.prems(2) [of s] Cons.prems(3) by fastforce
    from Cons.IH [OF y(2) this] have "op_orderId x \<in> of_nat ` {1..<k + length (y # ops)}" if "x \<in> set ops" using that by simp
    then show ?thesis using y(1) Cons.prems(3,4) by auto
  qed
qed simp

lemma generated_values:
  assumes "x \<in> set (generateOrders rnd sc draws)"
  shows "\<exists>j. op_price x = draw_price (draws j) \<and> op_quantity x = draw_quantity (draws j)"
proof -
  have "\<exists>j. op_price x = draw_price (draws j) \<and> op_quantity x = draw_quantity (draws j)"
    if "x \<in> set (generate_loop rnd sc symbols draws i n active nextId)" for symbols i n active nextId
    using that
  proof (induction n arbitrary: i active nextId)
    case (Suc n)
    then show ?case by (auto simp: Let_def split: if_splits)
  qed simp
  with assms show ?thesis by (auto simp: generateOrders_def Let_def)
qed

text \<open>The passes of the allocation benchmark.\<close>

definition alloc_passes :: "ScenarioOp list \<Rightarrow> nat \<Rightarrow> ScenarioOp list" where
  "alloc_passes ops n = concat (map (\<lambda>pass. offsetIds ops (of_nat pass * kIdSpace)) [0..<n])"

lemma offsetIds_ids:
  "map op_orderId (filter names_new (offsetIds ops k)) = map (\<lambda>i. i + k) (map op_orderId (filter names_new ops))"
  by (simp add: offsetIds_def filter_map comp_def names_new_def [abs_def])

lemma pass_numbers:
  fixes m n :: nat
  assumes "m < 1000000" and f: "f = (\<lambda>p. map (\<lambda>j. p * 1000000 + j) [1..<Suc m])"
  shows "distinct (concat (map f [0..<n])) \<and> (\<forall>i\<in>set (concat (map f [0..<n])). i < n * 1000000)"
proof (induction n)
  case (Suc n)
  have "distinct (f n)" by (simp add: f distinct_map inj_on_def del: upt_Suc)
  moreover have "n * 1000000 < i \<and> i < Suc n * 1000000" if "i \<in> set (f n)" for i
    using that assms(1) by (auto simp: f simp del: upt_Suc)
  ultimately show ?case using Suc by fastforce
qed simp

lemma alloc_ids_distinct:
  assumes "unat (scn_orderCount sc) < 1000000" "n \<le> 18446744073709" "ops = generateOrders rnd sc draws"
  shows "distinct (map op_orderId (filter names_new (alloc_passes ops n)))"
proof -
  define m where "m = length (filter names_new ops)"
  define N where "N = concat (map (\<lambda>p. map (\<lambda>j. p * 1000000 + j) [1..<Suc m]) [0..<n])"
  have w: "workload_ok (of_nat 1) (\<lambda>_. {}) ops" "length ops = unat (scn_orderCount sc)"
    using generated_workload_ok [of rnd sc draws] by (simp_all add: assms(3))
  have m: "m < 1000000" using w(2) assms(1) length_filter_le [of names_new ops] by (simp add: m_def)
  have ids: "map op_orderId (filter names_new ops) = map of_nat [1..<Suc m]"
    using workload_ids [OF w(1)] by (simp add: m_def)
  have "map op_orderId (filter names_new (alloc_passes ops n)) = map of_nat N"
    by (simp add: alloc_passes_def N_def filter_concat map_concat comp_def offsetIds_ids ids kIdSpace_def add.commute del: upt_Suc)
  moreover have "distinct N" "\<forall>i\<in>set N. i < n * 1000000"
    using pass_numbers [OF m refl, of n] unfolding N_def by blast+
  moreover have "inj_on (of_nat :: nat \<Rightarrow> u64) (set N)"
  proof (rule inj_onI)
    fix i j assume ij: "i \<in> set N" "j \<in> set N" "(of_nat i :: u64) = of_nat j"
    have "k < 2 ^ 64" if "k \<in> set N" for k
    proof -
      have "k < n * 1000000" using that \<open>\<forall>i\<in>set N. i < n * 1000000\<close> by blast
      also have "\<dots> \<le> 18446744073709 * 1000000" by (rule mult_le_mono1 [OF assms(2)])
      finally show ?thesis by simp
    qed
    with ij show "i = j" by (simp add: word_of_nat_eq_iff take_bit_nat_eq_self)
  qed
  ultimately show ?thesis by (simp add: distinct_map)
qed

section \<open>The manager during a replay\<close>

text \<open>One operation on the abstract manager.\<close>

definition spec_op :: "SpecManager \<Rightarrow> ScenarioOp \<Rightarrow> SpecManager" where
  "spec_op sm x =
     (case op_type x of
        OpAdd \<Rightarrow> snd (spec_om_add sm (op_order x))
      | OpCancel \<Rightarrow> snd (spec_om_cancel sm (op_orderId x))
      | OpMatch \<Rightarrow> snd (spec_om_match sm (op_order x))
      | OpSnapshot \<Rightarrow> sm)"

lemma spec_op_known:
  "dom (sm_orders (spec_op sm x)) \<subseteq> dom (sm_orders sm) \<union> (if names_new x then {op_orderId x} else {})"
proof -
  have match: "dom (sm_orders (snd (spec_om_match sm ord))) \<subseteq> insert (order_id ord) (dom (sm_orders sm))" for ord
    by (auto simp: spec_om_match_def Let_def dom_book_trades split: prod.splits)
  have "dom (sm_orders (snd (spec_om_add sm ord))) \<subseteq> insert (order_id ord) (dom (sm_orders sm))" for ord
    using match [of ord]
    by (cases "cannot_rest ord"; cases "spec_om_match sm ord") (simp_all add: spec_om_add_def subset_insertI)
  moreover have "dom (sm_orders (snd (spec_om_cancel sm i))) = dom (sm_orders sm)" for i
    by (auto simp: spec_om_cancel_def split: if_splits)
  moreover have "order_id (op_order x) = op_orderId x" by (simp add: op_order_def limit_order_def)
  ultimately show ?thesis using match [of "op_order x"]
    by (cases "op_type x") (auto simp: spec_op_def names_new_def dest: subsetD)
qed

lemma replay_op_spec:
  assumes "om_inv any_inv any_book om"
  shows "\<exists>om'. replay_op AnyMatcher_vtable om x = Some om' \<and> om_inv any_inv any_book om' \<and>
    om_spec any_book om' = spec_op (om_spec any_book om) x"
proof (cases "op_type x")
  case OpAdd
  obtain r sm where sp: "spec_om_add (om_spec any_book om) (op_order x) = (r, sm)" by (metis surj_pair)
  from any.om_addOrder_spec [OF assms this] OpAdd sp show ?thesis by (auto simp: replay_op_def spec_op_def)
next
  case OpCancel
  obtain r sm where sp: "spec_om_cancel (om_spec any_book om) (op_orderId x) = (r, sm)" by (metis surj_pair)
  from any.om_cancelOrder_spec [OF assms this] OpCancel sp show ?thesis by (auto simp: replay_op_def spec_op_def)
next
  case OpMatch
  obtain r sm where sp: "spec_om_match (om_spec any_book om) (op_order x) = (r, sm)" by (metis surj_pair)
  from any.om_matchOrder_spec [OF assms this] OpMatch sp show ?thesis by (auto simp: replay_op_def spec_op_def)
qed (use assms in \<open>simp add: replay_op_def spec_op_def\<close>)

lemma bench_replay_spec:
  assumes "om_inv any_inv any_book om"
  shows "\<exists>om'. bench_replay AnyMatcher_vtable om ops = Some om' \<and> om_inv any_inv any_book om' \<and>
    om_spec any_book om' = foldl spec_op (om_spec any_book om) ops"
  using assms
proof (induction ops arbitrary: om)
  case (Cons x ops)
  obtain om1 where om1: "replay_op AnyMatcher_vtable om x = Some om1" "om_inv any_inv any_book om1"
    "om_spec any_book om1 = spec_op (om_spec any_book om) x" using replay_op_spec [OF Cons.prems] by blast
  from Cons.IH [OF om1(2)] om1 show ?case by simp
qed simp

lemma replay_known: "dom (sm_orders (foldl spec_op sm ops)) \<subseteq> dom (sm_orders sm) \<union> op_orderId ` set (filter names_new ops)"
proof (induction ops arbitrary: sm)
  case (Cons x ops)
  from Cons [of "spec_op sm x"] spec_op_known [of sm x] show ?case by (auto split: if_splits)
qed simp

text \<open>Passes one after the other are one long replay.\<close>

lemma bench_replay_append: "bench_replay M om (xs @ ys) = Option.bind (bench_replay M om xs) (\<lambda>om'. bench_replay M om' ys)"
  by (induction xs arbitrary: om) (auto split: bind_splits)

lemma replay_passes_concat: "replay_passes M om passes = bench_replay M om (concat passes)"
  by (induction passes arbitrary: om) (auto simp: bench_replay_append split: bind_splits)

lemma measureAllocs_passes:
  assumes "bench_replay M (new_OrderManager m) (alloc_passes ops (w + k)) = Some om"
  shows "\<exists>warm. measureAllocs M m ops w k = Some (warm, om)"
proof -
  have "[w..<w + k] = map (\<lambda>pass. w + pass) [0..<k]" using map_add_upt [of w k] by (simp add: add.commute)
  then have "alloc_passes ops (w + k) = alloc_passes ops w @ concat (map (\<lambda>pass. offsetIds ops (of_nat (w + pass) * kIdSpace)) [0..<k])"
    by (simp add: alloc_passes_def upt_add_eq_append [OF le0, of w k] comp_def)
  with assms show ?thesis
    by (auto simp: measureAllocs_def Let_def replay_passes_concat alloc_passes_def bench_replay_append bind_eq_Some_conv)
qed

lemma new_bench_manager:
  assumes "om = new_OrderManager (reg_makeMatcher (new_InstrumentRegistry backend))"
  shows "om_inv any_inv any_book om" "om_spec any_book om = \<lparr>sm_book = empty_book, sm_orders = Map.empty\<rparr>"
  unfolding assms by (rule new_manager)+

section \<open>Properties\<close>

text \<open>
  C24. The allocation benchmark measures what it means to: for a scenario of fewer operations than
  the id space of a pass, whatever is drawn within the ranges of the generator, and on either matcher, \<open>measureAllocs\<close>
  returns, and in every pass, warm-up or measured, every order that is added is accepted; none is refused as
  a repetition of an order of an earlier pass.
\<close>

theorem alloc_passes_accepted:
  assumes "unat (scn_orderCount sc) < 1000000" "warmup + measured \<le> 18446744073709"
    and "\<forall>j. 90 \<le> draw_price (draws j) \<and> draw_price (draws j) \<le> 110 \<and> 1 \<le> draw_quantity (draws j) \<and> draw_quantity (draws j) \<le> 100"
    and "ops = generateOrders rnd sc draws" "matcher = reg_makeMatcher (new_InstrumentRegistry backend)"
  shows "\<exists>warm om. measureAllocs AnyMatcher_vtable matcher ops warmup measured = Some (warm, om) \<and>
    bench_replay AnyMatcher_vtable (new_OrderManager matcher) (alloc_passes ops (warmup + measured)) = Some om \<and>
    (\<forall>xs x ys. alloc_passes ops (warmup + measured) = xs @ x # ys \<longrightarrow> op_type x = OpAdd \<longrightarrow>
       (\<exists>om1 om2. bench_replay AnyMatcher_vtable (new_OrderManager matcher) xs = Some om1 \<and>
          om_addOrder AnyMatcher_vtable om1 (op_order x) = Some (accept, om2)))"
proof -
  let ?om = "new_OrderManager matcher" and ?all = "alloc_passes ops (warmup + measured)"
  note start = new_bench_manager [OF arg_cong [OF assms(5), of new_OrderManager]]
  have accepted: "\<exists>om1 om2. bench_replay AnyMatcher_vtable ?om xs = Some om1 \<and>
      om_addOrder AnyMatcher_vtable om1 (op_order x) = Some (accept, om2)"
    if split: "?all = xs @ x # ys" and add: "op_type x = OpAdd" for xs x ys
  proof -
    obtain om1 where om1: "bench_replay AnyMatcher_vtable ?om xs = Some om1" "om_inv any_inv any_book om1"
      "om_spec any_book om1 = foldl spec_op (om_spec any_book ?om) xs" using bench_replay_spec [OF start(1)] by blast
    have "op_orderId x \<notin> op_orderId ` set (filter names_new xs)"
      using alloc_ids_distinct [OF assms(1,2,4)] add by (simp add: split names_new_def)
    then have "order_id (op_order x) \<notin> dom (sm_orders (om_spec any_book om1))"
      using replay_known [of "om_spec any_book ?om" xs] by (auto simp: om1(3) start(2) op_order_def limit_order_def)
    note fresh = this
    have "x \<in> set ?all" by (simp add: split)
    then obtain y where y: "y \<in> set ops" "op_price x = op_price y" "op_quantity x = op_quantity y"
      by (auto simp: alloc_passes_def offsetIds_def)
    obtain j where "op_price x = draw_price (draws j)" "op_quantity x = draw_quantity (draws j)"
      using generated_values [OF y(1) [unfolded assms(4)]] y(2,3) by auto
    moreover have "draw_price (draws j) \<noteq> 0 \<and> draw_quantity (draws j) \<noteq> 0"
      using spec [OF assms(3), of j] by (auto simp: word_le_nat_alt)
    ultimately have "op_price x \<noteq> 0" "op_quantity x \<noteq> 0" by simp_all
    with fresh have "validateNewOrder (op_order x) (dom (sm_orders (om_spec any_book om1))) = NoReason" "\<not> cannot_rest (op_order x)"
      by (simp_all add: validateNewOrder_def cannot_rest_def op_order_def limit_order_def)
    then obtain sm where "spec_om_add (om_spec any_book om1) (op_order x) = (accept, sm)"
      by (cases "spec_submit (any_book (om_matcher om1)) (op_order x)") (auto simp: spec_om_add_def spec_om_match_def)
    from any.om_addOrder_spec [OF om1(2) this] om1(1) show ?thesis by blast
  qed
  obtain om where om: "bench_replay AnyMatcher_vtable ?om ?all = Some om" using bench_replay_spec [OF start(1)] by blast
  with measureAllocs_passes [OF om] accepted show ?thesis by blast
qed

theorem alloc_passes_accepted_witness:
  "\<exists>warm om. measureAllocs AnyMatcher_vtable (reg_makeMatcher (new_InstrumentRegistry Optimized))
      (generateOrders id (new_Scenario\<lparr>scn_orderCount := 3\<rparr>)
        (\<lambda>j. \<lparr>draw_symbol = 0, draw_unit = 0, draw_side = of_nat j, draw_price = 100, draw_quantity = 5\<rparr>)) 5 10 = Some (warm, om) \<and>
    (\<forall>xs x ys. alloc_passes (generateOrders id (new_Scenario\<lparr>scn_orderCount := 3\<rparr>)
        (\<lambda>j. \<lparr>draw_symbol = 0, draw_unit = 0, draw_side = of_nat j, draw_price = 100, draw_quantity = 5\<rparr>)) 15 = xs @ x # ys \<longrightarrow>
      op_type x = OpAdd \<longrightarrow>
      (\<exists>om1 om2. bench_replay AnyMatcher_vtable (new_OrderManager (reg_makeMatcher (new_InstrumentRegistry Optimized))) xs = Some om1 \<and>
         om_addOrder AnyMatcher_vtable om1 (op_order x) = Some (accept, om2)))"
proof -
  let ?sc = "new_Scenario\<lparr>scn_orderCount := 3\<rparr>"
  let ?draws = "\<lambda>j. \<lparr>draw_symbol = 0, draw_unit = 0, draw_side = of_nat j, draw_price = 100, draw_quantity = 5\<rparr>"
  have "unat (scn_orderCount ?sc) < 1000000" "(5 :: nat) + 10 \<le> 18446744073709"
    "\<forall>j. 90 \<le> draw_price (?draws j) \<and> draw_price (?draws j) \<le> 110 \<and> 1 \<le> draw_quantity (?draws j) \<and> draw_quantity (?draws j) \<le> 100"
    by (simp_all add: new_Scenario_def)
  from alloc_passes_accepted [OF this refl refl, of Optimized id] show ?thesis by auto
qed

text \<open>
  The two matchers are driven through the same states by any workload (\<open>bench_match.cpp\<close> against
  \<open>bench_match_optimized.cpp\<close>).
\<close>

theorem bench_backends_agree:
  "\<exists>om om'. bench_replay AnyMatcher_vtable (new_OrderManager (reg_makeMatcher (new_InstrumentRegistry Reference))) ops = Some om \<and>
     bench_replay AnyMatcher_vtable (new_OrderManager (reg_makeMatcher (new_InstrumentRegistry Optimized))) ops = Some om' \<and>
     om_orders om = om_orders om' \<and> any_book (om_matcher om) = any_book (om_matcher om')"
proof -
  note start = new_bench_manager [OF refl]
  obtain om where om: "bench_replay AnyMatcher_vtable (new_OrderManager (reg_makeMatcher (new_InstrumentRegistry Reference))) ops = Some om"
    "om_spec any_book om = foldl spec_op \<lparr>sm_book = empty_book, sm_orders = Map.empty\<rparr> ops"
    using bench_replay_spec [OF start(1)] start(2) by metis
  obtain om' where om': "bench_replay AnyMatcher_vtable (new_OrderManager (reg_makeMatcher (new_InstrumentRegistry Optimized))) ops = Some om'"
    "om_spec any_book om' = foldl spec_op \<lparr>sm_book = empty_book, sm_orders = Map.empty\<rparr> ops"
    using bench_replay_spec [OF start(1)] start(2) by metis
  have "om_spec any_book om = om_spec any_book om'" using om(2) om'(2) by simp
  then show ?thesis using om(1) om'(1) by (simp add: om_spec_def)
qed

text \<open>
  In the cancel benchmark no operation of the workload names a seeded order, neither to add nor to cancel: the
  ids of the seeded orders end where the ids of the workload start.
\<close>

lemma seeded_orders_untouched:
  assumes "unat (scn_orderCount sc) + 5001 < 2 ^ 64" "x \<in> set (generateOrders rnd sc draws)"
  shows "kSeedOrders < op_orderId x + kIdOffset"
proof -
  have w: "workload_ok (of_nat 1) (\<lambda>_. {}) (generateOrders rnd sc draws)" "length (generateOrders rnd sc draws) = unat (scn_orderCount sc)"
    using generated_workload_ok [of rnd sc draws] by simp_all
  from workload_range [OF w(1) _ _ assms(2)] obtain i where i: "op_orderId x = of_nat i" "1 \<le> i" "i < 1 + unat (scn_orderCount sc)"
    by (auto simp: w(2))
  have "op_orderId x + kIdOffset = of_nat (i + 5001)" by (simp add: i(1) kIdOffset_def kSeedOrders_def)
  moreover have "unat (of_nat (i + 5001) :: u64) = i + 5001"
    using i(3) assms(1) by (simp only: unsigned_of_nat) (simp add: take_bit_nat_eq_self)
  ultimately show ?thesis by (simp only: word_less_nat_alt) (simp add: kSeedOrders_def)
qed

section \<open>Direct and pipelined replay\<close>

lemma reg_run_Cons_Some:
  "reg_run R (c # cs) = Some (rs, R') \<Longrightarrow> \<exists>r R1 rs'. reg_call R c = Some (r, R1) \<and> reg_run R1 cs = Some (rs', R')"
  by (auto simp: bind_eq_Some_conv)

lemma direct_loop_run:
  assumes "reg_run R (map event_call (producer_events now symbol sequence ops)) = Some (rs, R')"
  shows "\<exists>h'. direct_loop clock clock' symbol i ops R h = Some (R', h') \<and> lh_count h' = lh_count h + length ops"
  using assms
proof (induction ops arbitrary: R sequence rs i h)
  case (Cons x ops)
  show ?case
  proof (cases "op_type x = OpSnapshot")
    case True
    with Cons.prems Cons.IH [of R sequence rs "Suc i" "lh_record (clock' i - clock i) h"] show ?thesis
      by (simp add: direct_op_def lh_count_def lh_record_def)
  next
    case False
    then obtain e where e: "producer_events now symbol sequence (x # ops) = e # producer_events now symbol (sequence + 1) ops"
      "direct_op symbol R x = map_option snd (reg_call R (event_call e))"
      by (cases "op_type x") (auto simp: direct_op_def option.map_comp comp_def split_beta enqueueSubmit_event_def
          enqueueCancel_event_def enqueueMatch_event_def)
    obtain r R1 rs' where R1: "reg_call R (event_call e) = Some (r, R1)"
      "reg_run R1 (map event_call (producer_events now symbol (sequence + 1) ops)) = Some (rs', R')"
      using reg_run_Cons_Some Cons.prems unfolding e(1) list.map by blast
    from Cons.IH [OF R1(2), of "Suc i" "lh_record (clock' i - clock i) h"] show ?thesis
      using e(2) R1(1) by (auto simp: lh_count_def lh_record_def simp del: event_call.simps)
  qed
qed (simp add: lh_count_def)

lemma producer_events_kinds: "e \<in> set (producer_events now symbol sequence ops) \<Longrightarrow> pe_kind e \<noteq> KShutdown"
  by (induction ops arbitrary: sequence)
    (auto simp: enqueueSubmit_event_def enqueueCancel_event_def enqueueMatch_event_def split: ScenarioOpType.splits)

lemma producer_events_count: "length (producer_events now symbol sequence ops) = length (filter (\<lambda>x. op_type x \<noteq> OpSnapshot) ops)"
  by (induction ops arbitrary: sequence) (auto split: ScenarioOpType.splits)

lemma pipeline_summary_count: "lh_count (rs_latency (runPipeline rnd seconds ops c)) = length (sc_callbacks c)"
proof -
  have "length (lh_samples (fold (\<lambda>(_, _, ns). lh_record ns) xs h)) = length (lh_samples h) + length xs"
    for xs :: "(u64 \<times> Trade list \<times> u64) list" and h
    by (induction xs arbitrary: h) (auto simp: lh_record_def)
  then show ?thesis by (simp add: runPipeline_def lh_count_def new_LatencyHistogram_def)
qed

text \<open>
  Both halves of \<open>bench_pipeline\<close> do the same work: however producer and consumer are scheduled, when \<open>stop\<close>
  has returned the exchange of the pipeline is the one the direct calls leave, event log included, and both
  histograms have a sample for every call made.
\<close>

theorem bench_pipeline_same_work:
  assumes "pipeline_reach kPipelineQueueCapacity (producer_events now symbol 0 ops)
      (reg_createInstrument (new_InstrumentRegistry Optimized) symbol) s" "pl_exited s"
  shows "\<exists>summary. runDirect rnd clock clock' seconds ops symbol = Some (summary, sc_registry (pl_consumer s)) \<and>
    lh_count (rs_latency summary) = length ops \<and>
    lh_count (rs_latency (runPipeline rnd seconds' ops (pl_consumer s))) = length (filter (\<lambda>x. op_type x \<noteq> OpSnapshot) ops)"
proof -
  let ?es = "producer_events now symbol 0 ops" and ?R = "reg_createInstrument (new_InstrumentRegistry Optimized) symbol"
  have "pipeline_inv kPipelineQueueCapacity ?es ?R s"
    using pipeline_reach_inv [OF assms(1) kPipelineQueueCapacity_ok] producer_events_kinds by blast
  then have "consumed ?R ?es (pl_consumer s)" using assms(2) by (simp add: pipeline_inv_def)
  then obtain rs where rs: "reg_run ?R (map event_call ?es) = Some (rs, sc_registry (pl_consumer s))"
    "map (\<lambda>(q, ts, _). (q, ts)) (sc_callbacks (pl_consumer s)) = zip (map pe_sequence ?es) (map reply_trades rs)"
    by (auto simp: consumed_def simp del: event_call.simps)
  have "length (sc_callbacks (pl_consumer s)) = length (zip (map pe_sequence ?es) (map reply_trades rs))"
    using arg_cong [OF rs(2), of length] by simp
  then have "length (sc_callbacks (pl_consumer s)) = length ?es"
    using reg_run_length [OF rs(1)] by simp
  moreover obtain h where "direct_loop clock clock' symbol 0 ops ?R new_LatencyHistogram = Some (sc_registry (pl_consumer s), h)"
    "lh_count h = length ops"
    using direct_loop_run [OF rs(1), of clock clock' 0 new_LatencyHistogram] by (auto simp: lh_count_def new_LatencyHistogram_def)
  ultimately show ?thesis
    by (simp add: runDirect_def pipeline_summary_count producer_events_count)
qed

end
