(* ===== verification/Platform.thy ===== *)
theory Platform
  imports Text_Numbers
begin

text \<open>
  Thread pinning and profiling hints (\<open>src/platform/thread_affinity.cpp\<close>, \<open>include/titan/platform\<close>) and
  the part of \<open>StagedProcessor::start\<close> that pins the consumer.  The platform the program is compiled
  for is a value: on Linux it has the size of a CPU set and the system call that sets the affinity.
\<close>

datatype Platform = Linux int "int \<Rightarrow> bool" | OtherPlatform

fun pinHandleToCpu :: "int \<Rightarrow> (int \<Rightarrow> bool) \<Rightarrow> int \<Rightarrow> bool" where
  "pinHandleToCpu setSize setAffinity cpu = (if cpu < 0 \<or> cpu \<ge> setSize then False else setAffinity cpu)"

text \<open>\<open>pinCurrentThreadToCpu\<close> and \<open>pinThread\<close>; which thread it is, is part of the system call.\<close>

fun pinThread :: "Platform \<Rightarrow> int \<Rightarrow> bool" where
  "pinThread (Linux setSize setAffinity) cpu = pinHandleToCpu setSize setAffinity cpu"
| "pinThread OtherPlatform cpu = False"

fun perfStatAvailable :: "Platform \<Rightarrow> bool" where
  "perfStatAvailable (Linux setSize setAffinity) = True"
| "perfStatAvailable OtherPlatform = False"

fun perfStatHint :: "Platform \<Rightarrow> string \<Rightarrow> string" where
  "perfStatHint (Linux setSize setAffinity) binaryPath = ''perf stat -d '' @ binaryPath"
| "perfStatHint OtherPlatform binaryPath =
     ''perf unavailable on this platform -- see docs/benchmark-results/environment.md''"

text \<open>
  \<open>start\<close> with the value of \<open>TITAN_PIN_CONSUMER_CPU\<close>: whether the new thread was pinned.  The
  program ignores the answer; a number that does not fit an \<open>int\<close> has no result.
\<close>

definition sp_start :: "Platform \<Rightarrow> string option \<Rightarrow> bool option" where
  "sp_start platform cpuEnv =
     (case cpuEnv of
        None \<Rightarrow> Some False
      | Some text \<Rightarrow> do { cpu \<leftarrow> atoi text; Some (pinThread platform cpu) })"

text \<open>The system is only ever asked for a CPU inside the set.\<close>

lemma pinThread_in_range:
  "pinThread (Linux setSize setAffinity) cpu \<longleftrightarrow> 0 \<le> cpu \<and> cpu < setSize \<and> setAffinity cpu"
  by auto

lemma sp_start_pins:
  "n < 2 ^ 31 \<Longrightarrow> sp_start (Linux setSize setAffinity) (Some (decimal n)) = Some (int n < setSize \<and> setAffinity (int n))"
  by (auto simp: sp_start_def atoi_decimal)

end
