(* ===== verification/Spec2Isabelle.thy ===== *)
theory Spec2Isabelle
  imports Demo_Session Time_Priority Optimized_Sessions Event_Publisher Staged_Processor Book_Invariants Tools Feed_Parity Feed_Lifecycle
    Bench_Scenario Latency_Histogram Bench_Programs Platform
begin

text \<open>
  Titan-Engine, a price-time-priority exchange in C++: this development models its library
  code (\<open>include/titan\<close>, \<open>src\<close> and \<open>reference\<close> of the repository), its tools and benchmarks, and proves it correct.

  \<^bold>\<open>The program and how its parts interact.\<close>  \<open>InstrumentRegistry\<close> owns one \<open>OrderManager\<close> and one
  matcher per symbol, forwards calls to them and appends what happened to one numbered
  event log.  \<open>OrderManager\<close> validates orders, records their lifecycle, prevents self trades by
  sending the matcher probes no larger than the order at the front, and keeps a shadow of the
  book for that.  A matcher (\<open>IMatcher\<close>) keeps the book: \<open>ReferenceMatcher\<close> is the simple oracle,
  \<open>OptimizedMatcher\<close> the fast one, on vectors with tombstones and a pooled allocator.
  \<open>EventPublisher\<close> turns the event log into execution reports.  On the feed side \<open>ItchParser\<close>
  cuts bytes into frames, \<open>decodeMessage\<close> decodes them, and \<open>ItchBookBuilder\<close> aggregates them into
  books; \<open>ItchEngineAdapter\<close> plays the same messages into the exchange, \<open>ParityChecker\<close> compares
  the two books and \<open>EventReplayer\<close> and \<open>BacktestRunner\<close> run whole files, \<open>ItchSocketPipeline\<close> a live session.  \<open>StagedProcessor\<close> moves
  registry calls to a consumer thread through the lock-free \<open>SpscQueue\<close>.

  \<^bold>\<open>Theories, and the sources they translate.\<close>
  \<^item> \<open>Titan_Prelude\<close>: ordered maps (\<open>std::map\<close>), the option monad, shared lemmas.
  \<^item> \<open>Titan_Types\<close>: \<open>core/types.hpp\<close>, \<open>core/order_types.hpp\<close>, \<open>core/events.hpp\<close>,
    \<open>market_data/book_snapshot.hpp\<close>.
  \<^item> \<open>Price_Levels\<close>: a map of FIFO levels seen as one priority queue (\<open>flat\<close>).
  \<^item> \<open>Matcher_Spec\<close>: \<open>book/i_matcher.hpp\<close>; the abstract book, its operations \<open>spec_match\<close>,
    \<open>spec_cancel\<close>, \<open>spec_depth\<close>, and the contract of a matcher as the locale \<open>price_time_matcher\<close>.
  \<^item> \<open>Reference_Matcher\<close>: \<open>reference/order_book.{hpp,cpp}\<close>; \<open>Memory_Pool\<close>:
    \<open>core/memory_pool.hpp\<close>; \<open>Optimized_Matcher\<close>: \<open>book/optimized_matcher.{hpp,cpp}\<close>.  Both matchers
    interpret the contract, under the invariants \<open>ref_inv\<close> and \<open>opt_inv\<close>.
  \<^item> \<open>Order_Validator\<close>, \<open>Order_Manager\<close>: \<open>exchange/validator.cpp\<close>, \<open>exchange/order_manager.{hpp,cpp}\<close>
    over any matcher that keeps the contract; the manager's own contract is \<open>SpecManager\<close>.
  \<^item> \<open>Instrument_Registry\<close>: \<open>exchange/instrument_registry.{hpp,cpp}\<close>, dynamic dispatch over both
    backends, the abstract exchange and sessions (\<open>reg_run\<close>); \<open>Demo_Session\<close>: a concrete one.
  \<^item> \<open>Time_Priority\<close>: the arrival times of the orders of a session, from its calls and replies, and that every
    call keeps the queues in arrival order; \<open>Optimized_Sessions\<close>: sessions on the optimized backend, whose
    matchers stay what they are, and the pool after them.
  \<^item> \<open>Book_Invariants\<close>: \<open>book/invariants.{hpp,cpp}\<close>, the run-time checker.
  \<^item> \<open>Event_Publisher\<close>: \<open>market_data/publisher.{hpp,cpp}\<close>, \<open>market_data/execution_report.hpp\<close>.
  \<^item> \<open>Itch_Messages\<close>, \<open>Wire_Fields\<close>, \<open>Itch_Decoder\<close>: \<open>feed/itch/messages.hpp\<close>,
    \<open>feed/itch/decoder.{hpp,cpp}\<close>; fields keep the laws of the locale \<open>wire_field\<close>.
  \<^item> \<open>Itch_Parser\<close>, \<open>Itch_Book_Builder\<close>: \<open>feed/itch/parser.{hpp,cpp}\<close>, \<open>feed/itch/book_builder.{hpp,cpp}\<close>.
  \<^item> \<open>Spsc_Queue\<close>, \<open>Staged_Processor\<close>: \<open>pipeline/spsc_queue.hpp\<close>, \<open>pipeline/pipeline_event.hpp\<close>,
    \<open>pipeline/staged_processor.{hpp,cpp}\<close>; a queue is the locale \<open>bounded_fifo\<close>.
  \<^item> \<open>Itch_Replay\<close>, \<open>Log_Volume\<close>, \<open>Backtest\<close>: \<open>replay/itch_adapter.{hpp,cpp}\<close>, \<open>replay/parity_checker.{hpp,cpp}\<close>,
    \<open>replay/event_replayer.{hpp,cpp}\<close>, \<open>backtest/backtest_runner.{hpp,cpp}\<close>, \<open>backtest/strategy.hpp\<close>; how many
    shares the log of a replay can report.
  \<^item> \<open>Feed_Market\<close>, \<open>Feed_Parity\<close>: the market behind an orderly feed as an abstract specification (\<open>mkt_step\<close>), the
    proof that the feed's book and the exchange both follow it, message by message, and feeds on which they part.
  \<^item> \<open>Socket_Feed\<close>: \<open>feed/tcp/socket_feed.{hpp,cpp}\<close> and \<open>feed/tcp/itch_socket_pipeline.{hpp,cpp}\<close>; what the
    operating system answers is a list of steps.  \<open>Feed_Lifecycle\<close>: the reader thread and the calls \<open>start\<close>
    (with the sockets of \<open>connectSocket\<close>), \<open>stop\<close>, \<open>join\<close> and the destructor of its owner, as interleaved steps.
  \<^item> \<open>Text_Numbers\<close>: numbers as text (\<open>to_string\<close>, \<open>atoi\<close>, \<open>stoull\<close>); \<open>Tools\<close>: the programs
    of \<open>tools/\<close>, from arguments and files to exit code and output.
  \<^item> \<open>Bench_Scenario\<close>: \<open>bench/scenario.{hpp,cpp}\<close>; \<open>Latency_Histogram\<close>: \<open>bench/latency_histogram.{hpp,cpp}\<close> and
    \<open>bench/harness.{hpp,cpp}\<close>; \<open>Bench_Programs\<close>: how the programs of \<open>benchmarks/\<close> play their workloads;
    \<open>Platform\<close>: \<open>platform/thread_affinity.{hpp,cpp}\<close>, \<open>platform/profiling.hpp\<close>.

  \<^bold>\<open>Correspondence.\<close>  A class is a record with a field per data member, prefixed by the class (\<open>om_\<close>,
  \<open>reg_\<close>, \<open>ibb_\<close>, ...), and a member function is a definition of its name with the same prefix that
  takes and returns the state.  \<open>None\<close> stands for a call with no normal result: it loops for ever,
  throws, or reaches undefined behaviour such as dereferencing a dangling iterator, reading past a
  buffer or dividing by zero; so a theorem that a call returns \<open>Some\<close> excludes all of these.
  \<open>uint64_t\<close>, \<open>uint32_t\<close>, \<open>uint16_t\<close> and \<open>uint8_t\<close> are words of their width and wrap around; a \<open>size_t\<close>
  that counts what is in memory is a natural number, except for the ring's indices, which are 64-bit
  words.  \<open>std::map\<close> is a key-sorted association list, an unordered container a map, a set or a
  list without repetition; where its iteration order can be seen, the order is an argument.
  Clocks and the bytes of a file are arguments.  An atomic load of the other thread's index may return
  any value since the last one it returned, as acquire and release ordering allow.

  \<^bold>\<open>What is shown.\<close>  Sessions (this theory): the backends are interchangeable and refine the abstract
  exchange (C1, C2), books stay in price-time order and uncrossed (C3), no account trades with itself (C4),
  quantities are conserved, trades respect limits and priority (C5 to C7), what rests and what is
  recorded (C8, C9), cancels and amendments (C10 to C13) and
  exact snapshots (C16).  Matchers and pool: C17, C18, C21; the pool after a session: C19.  Execution reports: C25.  Feed: round trip,
  typing and bounds of the decoder (C26 to C28), independence of chunking,
  termination and error isolation of the parser (C29, C31, C32), exactness of the feed's book (C34).
  Replay: the feed's book and the exchange agree on every orderly feed (C14), the backend cannot
  be seen and backtests return (C39), nor through the tools (C30).  Live feed: a session is a replay (C23), its threads are
  safe in every interleaving without a second \<open>start\<close> over a running reader (C20) and \<open>stop\<close> returns (C33).  Pipeline: the ring is a bounded FIFO alone and
  in every interleaving (C35, C36), the pipeline equals direct calls and can always drain (C37, C38).
  Silence of the run-time checker (C40).  Benchmarks: percentiles (C15), scenario files (C22) and the passes of
  the allocation benchmark (C24).  Further theorems without a number: round trip of a
  stream, storage safety of the pool, exact levels of the feed's book, meaningful workloads, equal work of the
  direct and the pipelined benchmark.

  \<^bold>\<open>Loops and bounds.\<close>  There is no fuel: the loops of the matchers, the manager and the parser are
  partial functions whose result is \<open>None\<close> when they do not end, and the refinement theorems
  prove that they return from every state that satisfies the invariant.  Counted sessions are bounded where the
  code's numbers are: fewer than 2^32 messages in a replay, so that totals and synthetic ids do not wrap, and
  fewer than 2^31 bytes in a backtest with a strategy, so that no traded quantity wraps around to zero.

  \<^bold>\<open>Floating point.\<close>  The benchmark support computes with \<open>double\<close>.  Doubles are real numbers here, and
  every operation rounds its exact result with a function \<open>rnd\<close> that is a parameter; infinities
  and NaN have no model, nor has the hexadecimal notation \<open>std::stod\<close> accepts.

  \<^bold>\<open>Not modelled.\<close>  The tests; of the benchmarks the Google Benchmark drivers, the heap counters and the printed
  lines; creating and yielding threads, and the memory model beyond atomic loads and stores (the pipeline's ring
  excepted); the system calls themselves (\<open>poll\<close>, \<open>recv\<close>, \<open>connect\<close>, \<open>pthread_setaffinity_np\<close>), the random engine
  and its distributions, whose answers are parameters; \<open>vector::reserve\<close>, whose effect cannot be observed.
\<close>

section \<open>Sessions on the exchange\<close>

text \<open>
  C1. The two matcher backends are interchangeable: any sequence of calls on the public
  interface of \<open>InstrumentRegistry\<close> returns (no call loops or throws) with the same replies,
  the same event log and the same books, whether the registry was built with the reference
  matcher or with the optimized one.
\<close>

theorem backend_parity:
  "\<exists>rs R R'. reg_run (new_InstrumentRegistry Reference) cs = Some (rs, R) \<and>
     reg_run (new_InstrumentRegistry Optimized) cs = Some (rs, R') \<and>
     reg_eventLog R = reg_eventLog R' \<and> reg_book R = reg_book R' \<and> reg_findOrder R = reg_findOrder R'"
proof -
  obtain rs R where 1: "reg_run (new_InstrumentRegistry Reference) cs = Some (rs, R)" "ex_run empty_Exchange cs = (rs, reg_spec R)"
    using reg_run_refines [of "new_InstrumentRegistry Reference" cs] by auto
  obtain rs' R' where 2: "reg_run (new_InstrumentRegistry Optimized) cs = Some (rs', R')" "ex_run empty_Exchange cs = (rs', reg_spec R')"
    using reg_run_refines [of "new_InstrumentRegistry Optimized" cs] by auto
  from 1(2) 2(2) have "rs' = rs" and same: "reg_spec R' = reg_spec R" by simp_all
  moreover have "reg_eventLog R = reg_eventLog R'" using same by (simp add: reg_spec_def)
  ultimately show ?thesis using 1(1) 2(1) by (auto simp: reg_view_of_spec fun_eq_iff)
qed

text \<open>
  C2. Whatever the backend, a session is a run of the abstract exchange, whose state is a
  priority queue per side and the snapshots of the accepted orders: the shadow queues, id
  sets, probes, tombstones and pool of the implementation are not observable.
\<close>

theorem registry_refines_exchange:
  "\<exists>R. reg_run (new_InstrumentRegistry backend) cs = Some (fst (ex_run empty_Exchange cs), R) \<and>
     reg_spec R = snd (ex_run empty_Exchange cs)"
  using reg_run_refines [of "new_InstrumentRegistry backend" cs] by auto

text \<open>
  C3. In every state a session can reach, each side of each book is in price-time order: every
  order is behind those with a strictly better price and those of its own price that
  arrived earlier, where the arrival of an order is the call that submitted it or the last
  accepted amendment that moved it to another price or asked for more.  Besides, no side holds an
  empty order, an order of the other side or an id twice, and the best bid is below the best ask.
\<close>

theorem session_books_ok:
  assumes "reg_run (new_InstrumentRegistry backend) cs = Some (rs, R)"
  shows "sorted_wrt (before s (arrival_time backend cs symbol)) (reg_book R symbol s) \<and> book_ok (reg_book R symbol)"
  using reg_book_ok [OF session(1) [OF assms]] session_served_in_order [OF assms] by blast

theorem session_books_ok_witness:
  "\<exists>rs R. reg_run (new_InstrumentRegistry Reference) demo_requeued = Some (rs, R) \<and>
     map order_id (reg_book R ''AAPL'' Sell) = [3, 2, 1] \<and>
     arrival_time Reference demo_requeued ''AAPL'' 3 = 3 \<and> arrival_time Reference demo_requeued ''AAPL'' 2 = 4 \<and>
     sorted_wrt (before Sell (arrival_time Reference demo_requeued ''AAPL'')) (reg_book R ''AAPL'' Sell)"
proof -
  obtain rs R where run: "reg_run (new_InstrumentRegistry Reference) demo_requeued = Some (rs, R)"
    using reg_run_refines [of "new_InstrumentRegistry Reference" demo_requeued] by auto
  with demo_requeued_book have "map fst (map (\<lambda>r. (order_id r, order_price r)) (reg_book R ''AAPL'' Sell)) = [3, 2, 1]" by simp
  then have "map order_id (reg_book R ''AAPL'' Sell) = [3, 2, 1]" by (simp add: o_def)
  moreover have "arrival_time Reference demo_requeued ''AAPL'' 3 = 3" "arrival_time Reference demo_requeued ''AAPL'' 2 = 4"
    by code_simp+
  ultimately show ?thesis using run session_books_ok [OF run, of Sell "''AAPL''"]
    by (intro exI [of _ rs] exI [of _ R] conjI) auto
qed

text \<open>
  C4. Self-trade prevention: no trade of an order with a non-zero account is with a resting
  order of the same account.
\<close>

theorem no_self_trade:
  assumes "reg_run (new_InstrumentRegistry backend) cs = Some (rs, R)"
    and "reg_matchOrder R symbol ord = Some (ts, R')" "t \<in> set ts" "order_accountId ord \<noteq> 0"
  shows "\<exists>x. reg_findOrder R symbol (trade_resting t) = Some x \<and> order_accountId x \<noteq> order_accountId ord"
proof -
  note inv = session(1) [OF assms(1)]
  from reg_trade [OF inv assms(2,3)] obtain r where
    r: "r \<in> set (reg_book R symbol (opposite (order_side ord)))" "order_id r = trade_resting t"
      "\<not> collides (order_accountId ord) r" by blast
  with reg_resting(1) [OF inv r(1)] assms(4) show ?thesis
    by (auto simp: collides_def dest: same_order_sel(5))
qed

theorem no_self_trade_witness:
  "reg_matchOrder demo ''AAPL'' demo_order = Some ([demo_trade], demo_after) \<and> order_accountId demo_order \<noteq> 0 \<and>
   (\<exists>x. reg_findOrder demo ''AAPL'' (trade_resting demo_trade) = Some x \<and> order_accountId x \<noteq> order_accountId demo_order)"
  using no_self_trade [OF demo_run demo_match, of demo_trade] demo_match by (simp add: demo_order_def)

text \<open>
  C5. Conservation: what an accepted order asked for is what its trades add up to (as
  unbounded numbers, nothing wraps) plus the quantity its snapshot still shows.
\<close>

theorem match_conserves:
  assumes "reg_run (new_InstrumentRegistry backend) cs = Some (rs, R)"
    and "reg_matchOrder R symbol ord = Some (ts, R')"
    and "reg_findOrder R symbol (order_id ord) = None" "reg_findOrder R' symbol (order_id ord) = Some x"
  shows "unat (order_quantity ord) = (\<Sum>t\<leftarrow>ts. unat (trade_quantity t)) + unat (order_quantity x)"
proof (rule reg_match_book [OF session(1) [OF assms(1)] assms(2)])
  assume "reg_findOrder R' = reg_findOrder R"
  with assms(3,4) show ?thesis by simp
next
  fix left assume sub: "spec_submit (reg_book R symbol) ord = (ts, reg_book R' symbol, left)"
    and "reg_findOrder R' symbol = (fold book_trade ts (reg_findOrder R symbol))(order_id ord \<mapsto> ord\<lparr>order_quantity := left,
         order_status := final_status (order_quantity ord) left (order_id ord \<in> book_ids (reg_book R' symbol))\<rparr>)"
  then have "order_quantity x = left" using assms(4) by auto
  moreover obtain q where "stp_sweep (order_side ord) (effective_price ord) (order_id ord) (order_accountId ord)
      (order_quantity ord) (reg_book R symbol (opposite (order_side ord))) = (ts, q, left)"
    using spec_submit_parts [OF sub refl] by metis
  ultimately show ?thesis using stp_sweep_conserves by metis
qed

theorem match_conserves_witness:
  "reg_findOrder demo_after ''AAPL'' 4 = Some (demo_order\<lparr>order_quantity := 2, order_status := Filled\<rparr>) \<and>
   unat (order_quantity demo_order) = (\<Sum>t\<leftarrow>[demo_trade]. unat (trade_quantity t)) + unat (2 :: Quantity)"
  using match_conserves [OF demo_run demo_match, of "demo_order\<lparr>order_quantity := 2, order_status := Filled\<rparr>"]
    demo_found(2) demo_after_found by (simp add: demo_order_def limit_order_def)

text \<open>
  C6. Price protection: every trade is for the incoming order, at the price of the resting
  order it names, for a positive quantity, and a limit order never trades through its limit.
\<close>

theorem trade_within_limit:
  assumes "reg_run (new_InstrumentRegistry backend) cs = Some (rs, R)"
    and "reg_matchOrder R symbol ord = Some (ts, R')" "t \<in> set ts"
  shows "trade_incoming t = order_id ord \<and> trade_quantity t \<noteq> 0 \<and>
    (order_type ord = Limit \<longrightarrow> crosses (order_side ord) (order_price ord) (trade_price t)) \<and>
    (\<exists>x. reg_findOrder R symbol (trade_resting t) = Some x \<and> order_price x = trade_price t \<and>
       order_side x = opposite (order_side ord))"
proof -
  note inv = session(1) [OF assms(1)]
  note tr = reg_trade [OF inv assms(2,3)]
  from tr obtain r where r: "r \<in> set (reg_book R symbol (opposite (order_side ord)))" "order_id r = trade_resting t"
      "order_price r = trade_price t" by blast
  obtain x where x: "reg_findOrder R symbol (order_id r) = Some x" "same_order x r"
    using reg_resting(1) [OF inv r(1)] by blast
  have "order_side r = opposite (order_side ord)"
    using book_ok_queue [OF reg_book_ok [OF inv]] r(1) by (auto simp: queue_ok_def)
  with x same_order_sel(2,3) [OF x(2)] r(2,3) tr show ?thesis by (auto simp: effective_price_def)
qed

theorem trade_within_limit_witness:
  "crosses Buy 100 (trade_price demo_trade) \<and> (\<exists>x. reg_findOrder demo ''AAPL'' 2 = Some x \<and> order_price x = 100 \<and> order_side x = Sell)"
  using trade_within_limit [OF demo_run demo_match, of demo_trade]
  by (simp add: demo_order_def demo_trade_def limit_order_def)

text \<open>
  C7. Price-time priority: the orders an incoming order trades with are the first ones of the
  opposite queue, in queue order, each at most once.
\<close>

theorem match_takes_the_front:
  assumes "reg_run (new_InstrumentRegistry backend) cs = Some (rs, R)"
    and "reg_matchOrder R symbol ord = Some (ts, R')"
  shows "map trade_resting ts = take (length ts) (map order_id (reg_book R symbol (opposite (order_side ord))))"
proof (rule reg_match_book [OF session(1) [OF assms(1)] assms(2)])
  assume "ts = []"
  then show ?thesis by simp
next
  fix left assume sub: "spec_submit (reg_book R symbol) ord = (ts, reg_book R' symbol, left)"
  obtain q where "stp_sweep (order_side ord) (effective_price ord) (order_id ord) (order_accountId ord)
      (order_quantity ord) (reg_book R symbol (opposite (order_side ord))) = (ts, q, left)"
    using spec_submit_parts [OF sub refl] by metis
  then show ?thesis by (rule stp_sweep_prefix)
qed

theorem match_takes_the_front_witness:
  "map trade_resting [demo_trade] = take 1 [2, 3, 1]"
  using match_takes_the_front [OF demo_run demo_match] demo_book
  by (simp add: demo_order_def limit_order_def)

text \<open>
  C8. Only limit orders that are good till cancelled ever rest, at a positive price and with a
  positive quantity: market and IOC orders leave no trace in the book.
\<close>

theorem only_gtc_limits_rest:
  assumes "reg_run (new_InstrumentRegistry backend) cs = Some (rs, R)" "r \<in> set (reg_book R symbol s)"
  shows "order_type r = Limit \<and> order_tif r = GTC \<and> order_price r \<noteq> 0 \<and> order_quantity r \<noteq> 0"
proof -
  have "order_type r \<noteq> Market" "order_tif r \<noteq> IOC" "order_price r \<noteq> 0" "order_quantity r \<noteq> 0"
    using reg_resting(2) [OF session(1) [OF assms(1)] assms(2)] by (auto simp: cannot_rest_iff)
  then show ?thesis by (cases "order_type r"; cases "order_tif r") auto
qed

theorem only_gtc_limits_rest_witness:
  "\<exists>r\<in>set (reg_book demo ''AAPL'' Sell). order_id r = 2 \<and> order_type r = Limit \<and> order_tif r = GTC"
proof -
  have "2 \<in> order_id ` set (reg_book demo ''AAPL'' Sell)"
    using demo_book by (metis list.set_intros(1) list.set_map)
  then obtain r where "r \<in> set (reg_book demo ''AAPL'' Sell)" "order_id r = 2" by auto
  with only_gtc_limits_rest [OF demo_run this(1)] show ?thesis by auto
qed

text \<open>
  C9. Lifecycle: an order's recorded status is New or PartiallyFilled exactly while it rests,
  and then the record and the book agree on everything else.
\<close>

theorem status_tracks_book:
  assumes "reg_run (new_InstrumentRegistry backend) cs = Some (rs, R)" "reg_findOrder R symbol i = Some x"
  shows "order_id x = i \<and>
    (order_status x \<in> {New, PartiallyFilled} \<longleftrightarrow> (\<exists>s. \<exists>r\<in>set (reg_book R symbol s). order_id r = i \<and> same_order x r))"
proof -
  note inv = session(1) [OF assms(1)]
  obtain inst where i: "reg_instruments R symbol = Some inst"
    using assms(2) by (cases "reg_instruments R symbol") (auto simp: reg_findOrder_def)
  note I = reg_instD [OF inv i]
  have "om_orders (inst_manager inst) i = Some x" using assms(2) by (simp add: I(4))
  from om_linkD(6) [OF I(2) this] have st: "order_id x = i" "i \<in> book_ids (reg_book R symbol) \<longleftrightarrow> resting_status (order_status x)"
    by auto
  have "i \<in> book_ids (reg_book R symbol) \<longleftrightarrow> (\<exists>s. \<exists>r\<in>set (reg_book R symbol s). order_id r = i \<and> same_order x r)"
    using reg_resting(1) [OF inv] assms(2) by (fastforce simp: book_ids_def)
  with st show ?thesis by (auto simp: resting_status_def)
qed

theorem status_tracks_book_witness:
  "\<exists>s. \<exists>r\<in>set (reg_book demo ''AAPL'' s). order_id r = 2 \<and>
     same_order ((limit_order 2 Sell 100 10)\<lparr>order_accountId := 8\<rparr>) r"
  using status_tracks_book [OF demo_run demo_found(1)] by (simp add: limit_order_def)

text \<open>
  C10. Cancelling: an accepted cancel takes exactly the named order out of the book, leaving
  every other order where it was, and records it as Cancelled; the id was resting before.
\<close>

theorem cancel_removes_order:
  assumes "reg_run (new_InstrumentRegistry backend) cs = Some (rs, R)"
    and "reg_cancelOrder R symbol i = Some (r, R')" "accepted r"
  shows "i \<in> book_ids (reg_book R symbol) \<and>
    reg_book R' = (reg_book R)(symbol := \<lambda>s. filter (\<lambda>x. order_id x \<noteq> i) (reg_book R symbol s)) \<and>
    (\<exists>x. reg_findOrder R symbol i = Some x \<and>
       reg_findOrder R' = (reg_findOrder R)(symbol := (reg_findOrder R symbol)(i \<mapsto> x\<lparr>order_status := Cancelled\<rparr>)))"
proof -
  note inv = session(1) [OF assms(1)]
  have known: "reg_instruments R symbol \<noteq> None" using assms(2,3) reg_unknown_symbol(1) by fastforce
  let ?sm = "\<lparr>sm_book = reg_book R symbol, sm_orders = reg_findOrder R symbol\<rparr>"
  obtain r' sm where sp: "spec_om_cancel ?sm i = (r', sm)" by (metis surj_pair)
  note view = reg_cancel_view [OF inv known assms(2) sp]
  have rest: "i \<in> book_ids (reg_book R symbol)"
    using assms(3) sp view(1) by (auto simp: spec_om_cancel_def split: if_splits)
  then obtain s y where y: "y \<in> set (reg_book R symbol s)" "order_id y = i" by (auto simp: book_ids_def)
  obtain x where "reg_findOrder R symbol i = Some x" using reg_resting(1) [OF inv y(1)] y(2) by auto
  with rest sp view(2,3) show ?thesis by (auto simp: spec_om_cancel_def spec_cancel_def)
qed

theorem cancel_removes_order_witness:
  "\<exists>R'. reg_cancelOrder demo ''AAPL'' 2 = Some (accept, R') \<and> map order_id (reg_book R' ''AAPL'' Sell) = [3, 1]"
proof -
  obtain R' where R': "reg_cancelOrder demo ''AAPL'' 2 = Some (accept, R')" by (rule demo_cancel)
  have "map order_id (reg_book R' ''AAPL'' Sell) = filter (\<lambda>i. i \<noteq> 2) (map order_id (reg_book demo ''AAPL'' Sell))"
    using cancel_removes_order [OF demo_run R'] by (simp add: filter_map o_def)
  with R' demo_book show ?thesis by simp
qed

text \<open>
  C11. Amending down in place: a replacement at the same price for no more quantity keeps the
  position of every order in both queues; only the amended order changes, and no trade happens.
\<close>

theorem replace_keeps_priority:
  assumes "reg_run (new_InstrumentRegistry backend) cs = Some (rs, R)"
    and "reg_cancelReplace R symbol i ord = Some (r, R')" "accepted r"
    and "reg_findOrder R symbol i = Some old"
    and "order_price ord = order_price old" "order_quantity ord \<le> order_quantity old"
  shows "amended i (ord\<lparr>order_status := New\<rparr>) (reg_book R symbol) (reg_book R' symbol) \<and>
    map order_id (reg_book R' symbol s) = map order_id (reg_book R symbol s)"
proof -
  note inv = session(1) [OF assms(1)]
  obtain inst where i: "reg_instruments R symbol = Some inst"
    using assms(4) by (cases "reg_instruments R symbol") (auto simp: reg_findOrder_def)
  note I = reg_instD [OF inv i]
  let ?sm = "\<lparr>sm_book = reg_book R symbol, sm_orders = reg_findOrder R symbol\<rparr>"
  obtain r' sm where sp: "spec_om_replace ?sm i ord = (r', sm)" by (metis surj_pair)
  have "reg_instruments R symbol \<noteq> None" by (simp add: i)
  note view = reg_replace_view [OF inv this assms(2) sp]
  have ok: "replace_reason ?sm i ord = NoReason"
    using assms(3) sp view(1) by (auto simp: spec_om_replace_def Let_def split: if_splits)
  note am = any.replace_amended [OF I(1), of i ord old]
  have "amended i (ord\<lparr>order_status := New\<rparr>) (reg_book R symbol) (reg_book R' symbol)"
    using am ok sp view(2) assms(4-6) i I(5) by (auto simp: spec_om_replace_def Let_def reg_book_def I(4))
  moreover from this ok have "map order_id (reg_book R' symbol s) = map order_id (reg_book R symbol s)"
    by (rule_tac amended_map) (auto simp: replace_reason_def dest: same_order_sel(1) split: if_splits)
  ultimately show ?thesis by blast
qed

theorem replace_keeps_priority_witness:
  "\<exists>R'. reg_cancelReplace demo ''AAPL'' 2 (limit_order 2 Sell 100 6) = Some (accept, R') \<and>
     map order_id (reg_book R' ''AAPL'' Sell) = [2, 3, 1]"
proof -
  obtain R' where R': "reg_cancelReplace demo ''AAPL'' 2 (limit_order 2 Sell 100 6) = Some (accept, R')" by (rule demo_replace)
  with replace_keeps_priority [OF demo_run R' _ demo_found(1), of Sell] demo_book show ?thesis by (simp add: limit_order_def)
qed

text \<open>
  C12. Any other accepted amendment (a new price, a new side or more quantity) loses the queue
  position: the old order leaves the book and the new one stands behind every order with a
  price as good as its own.
\<close>

theorem replace_requeues:
  assumes "reg_run (new_InstrumentRegistry backend) cs = Some (rs, R)"
    and "reg_cancelReplace R symbol i ord = Some (r, R')" "accepted r"
    and "reg_findOrder R symbol i = Some old"
    and "order_price ord \<noteq> order_price old \<or> order_quantity old < order_quantity ord"
  shows "reg_book R' symbol = spec_rest (spec_cancel (reg_book R symbol) i) (ord\<lparr>order_status := New\<rparr>)"
proof -
  note inv = session(1) [OF assms(1)]
  obtain inst where i: "reg_instruments R symbol = Some inst"
    using assms(4) by (cases "reg_instruments R symbol") (auto simp: reg_findOrder_def)
  let ?sm = "\<lparr>sm_book = reg_book R symbol, sm_orders = reg_findOrder R symbol\<rparr>"
  obtain r' sm where sp: "spec_om_replace ?sm i ord = (r', sm)" by (metis surj_pair)
  have "reg_instruments R symbol \<noteq> None" by (simp add: i)
  note view = reg_replace_view [OF inv this assms(2) sp]
  have ok: "replace_reason ?sm i ord = NoReason"
    using assms(3) sp view(1) by (auto simp: spec_om_replace_def Let_def split: if_splits)
  have "\<not> (order_price ord = order_price old \<and> order_quantity ord \<le> order_quantity old)" using assms(5) by auto
  with ok sp view(2) assms(4) show ?thesis by (auto simp: spec_om_replace_def Let_def)
qed

theorem replace_requeues_witness:
  "\<exists>R'. reg_cancelReplace demo ''AAPL'' 2 (limit_order 2 Sell 102 6) = Some (accept, R') \<and>
     reg_book R' ''AAPL'' = spec_rest (spec_cancel (reg_book demo ''AAPL'') 2) (limit_order 2 Sell 102 6)"
proof -
  obtain R' where R': "reg_cancelReplace demo ''AAPL'' 2 (limit_order 2 Sell 102 6) = Some (accept, R')" by (rule demo_replace)
  with replace_requeues [OF demo_run R' _ demo_found(1)] show ?thesis by (simp add: limit_order_def)
qed

text \<open>
  C13. A refused cancel or amendment changes nothing but the event log, which grows by the
  one rejection that carries the reason.
\<close>

theorem refused_request_changes_nothing:
  assumes "reg_run (new_InstrumentRegistry backend) cs = Some (rs, R)"
    and "reg_cancelReplace R symbol i ord = Some (r, R') \<or> reg_cancelOrder R symbol i = Some (r, R')" "\<not> accepted r"
  shows "reg_book R' = reg_book R \<and> reg_findOrder R' = reg_findOrder R \<and>
    map event_payload (reg_eventLog R') = map event_payload (reg_eventLog R) @ [OrderRejected symbol i (reason r)]"
proof -
  note inv = session(1) [OF assms(1)]
  let ?sm = "\<lparr>sm_book = reg_book R symbol, sm_orders = reg_findOrder R symbol\<rparr>"
  have log: "map event_payload (reg_eventLog R') = map event_payload (reg_eventLog R) @ [OrderRejected symbol i (reason r)]"
    using assms(2,3) by (auto simp: reg_cancelReplace_def reg_cancelOrder_def Let_def bind_eq_Some_conv split: option.splits)
  show ?thesis
  proof (cases "reg_instruments R symbol = None")
    case True
    with assms(2) have "R' = reg_emit (OrderRejected symbol i UnknownSymbol) R"
      using reg_unknown_symbol(1,2) [OF True, of i] by auto
    with log show ?thesis by (simp add: reg_view_of_spec fun_eq_iff)
  next
    case False
    obtain r1 sm1 where sp1: "spec_om_replace ?sm i ord = (r1, sm1)" by (metis surj_pair)
    obtain r2 sm2 where sp2: "spec_om_cancel ?sm i = (r2, sm2)" by (metis surj_pair)
    have "(\<not> accepted r1 \<longrightarrow> sm1 = ?sm) \<and> (\<not> accepted r2 \<longrightarrow> sm2 = ?sm)"
      using sp1 sp2 by (auto simp: spec_om_replace_def spec_om_cancel_def Let_def split: if_splits)
    with reg_replace_view [OF inv False _ sp1] reg_cancel_view [OF inv False _ sp2] assms(2,3) log show ?thesis
      by auto
  qed
qed

theorem refused_request_changes_nothing_witness:
  "\<exists>R'. reg_cancelReplace demo ''AAPL'' 5 (limit_order 5 Sell 102 6) = Some (reject OrderNotResting, R') \<and>
     reg_book R' = reg_book demo"
proof -
  obtain R' where R': "reg_cancelReplace demo ''AAPL'' 5 (limit_order 5 Sell 102 6) = Some (reject OrderNotResting, R')"
    by (rule demo_replace)
  with refused_request_changes_nothing [OF demo_run disjI1 [OF R']] show ?thesis by simp
qed

text \<open>
  Events are numbered consecutively across all symbols (modulo \<open>2 ^ 64\<close>): the last entry
  of the log has the number before the next one, and going back each entry has one less,
  also after the log was cleared.
\<close>

theorem events_numbered:
  assumes "reg_run (new_InstrumentRegistry backend) cs = Some (rs, R)" "k < length (reg_eventLog R)"
  shows "event_sequence (reg_eventLog R ! k) =
    reg_nextSequenceNumber R - of_nat (length (reg_eventLog R) - k)"
proof -
  have "numbered (ex_log (reg_spec R)) (ex_next (reg_spec R))"
    by (rule numbered_run [OF _ session(2) [OF assms(1)]]) (simp add: numbered_def empty_Exchange_def)
  then obtain n where n: "map event_sequence (reg_eventLog R) = map (\<lambda>k. n + of_nat k) [0..<length (reg_eventLog R)]"
    "reg_nextSequenceNumber R = n + of_nat (length (reg_eventLog R))"
    by (auto simp: numbered_def reg_spec_def)
  have "event_sequence (reg_eventLog R ! k) = n + of_nat k"
    using arg_cong [OF n(1), of "\<lambda>xs. xs ! k"] assms(2) by simp
  then show ?thesis using assms(2) by (simp add: n(2) of_nat_diff)
qed

theorem events_numbered_witness:
  "event_sequence (reg_eventLog demo ! 1) = reg_nextSequenceNumber demo - 2"
  using events_numbered [OF demo_run, of 1] by (simp add: demo_log)

text \<open>
  What \<open>matchOrder\<close> logs: one submission or one rejection, then one execution per
  returned trade, in trade order.
\<close>

theorem match_logs_its_trades:
  assumes "reg_matchOrder R symbol ord = Some (ts, R')"
  shows "\<exists>e. map event_payload (reg_eventLog R') = map event_payload (reg_eventLog R) @ e # map (trade_event symbol) ts \<and>
    (e = submitted_event symbol ord \<or> (\<exists>why. e = OrderRejected symbol (order_id ord) why))"
  using assms
  by (auto simp: reg_matchOrder_def Let_def bind_eq_Some_conv submitted_event_def split: option.splits)

theorem match_logs_its_trades_witness:
  "\<exists>e. map event_payload (reg_eventLog demo_after) =
     map event_payload (reg_eventLog demo) @ [e, TradeExecuted ''AAPL'' 4 2 100 10]"
  using match_logs_its_trades [OF demo_match] by (auto simp: trade_event_def demo_trade_def)

text \<open>
  C16. A depth snapshot is exact: its prices are the first \<open>n\<close> distinct prices of the book's queue,
  in queue order (the best first, strictly worsening, none skipped), each with the total quantity
  resting at its price (a 64-bit sum), and taking it changes neither books nor orders.
\<close>

theorem snapshot_is_sorted_depth:
  assumes "reg_run (new_InstrumentRegistry backend) cs = Some (rs, R)"
    and "reg_snapshot R symbol n = Some (snap, R')"
  shows "map level_price (snap_bids snap) = take n (remdups_adj (map order_price (reg_book R symbol Buy))) \<and>
    map level_price (snap_asks snap) = take n (remdups_adj (map order_price (reg_book R symbol Sell))) \<and>
    sorted_wrt (\<lambda>x y. level_price y < level_price x) (snap_bids snap) \<and>
    sorted_wrt (\<lambda>x y. level_price x < level_price y) (snap_asks snap) \<and>
    (\<forall>l\<in>set (snap_bids snap). level_quantity l =
       (\<Sum>r\<leftarrow>filter (\<lambda>r. order_price r = level_price l) (reg_book R symbol Buy). order_quantity r)) \<and>
    (\<forall>l\<in>set (snap_asks snap). level_quantity l =
       (\<Sum>r\<leftarrow>filter (\<lambda>r. order_price r = level_price l) (reg_book R symbol Sell). order_quantity r)) \<and>
    reg_book R' = reg_book R \<and> reg_findOrder R' = reg_findOrder R"
proof -
  note inv = session(1) [OF assms(1)]
  have ex: "ex_call (reg_spec R) (Snapshot symbol n) = (Snapped snap, reg_spec R')"
    using reg_snapshot_refines [OF inv, of symbol n] assms(2) by auto
  show ?thesis
  proof (cases "reg_instruments R symbol")
    case None
    with ex have "snap_bids snap = []" "snap_asks snap = []" "reg_spec R' = reg_spec R" "reg_book R symbol = empty_book"
      by (auto simp: reg_lookup reg_book_def)
    then show ?thesis by (simp add: reg_view_of_spec fun_eq_iff empty_book_def)
  next
    case (Some inst)
    note I = reg_instD [OF inv Some]
    have "ex_instruments (reg_spec R) symbol = Some (\<lparr>sm_book = reg_book R symbol, sm_orders = reg_findOrder R symbol\<rparr>,
        inst_nextSnapshotSequenceNumber inst)"
      using Some I(5) by (simp add: reg_lookup inst_spec_def)
    with ex have d: "snap_bids snap = spec_depth (reg_book R symbol) Buy n" "snap_asks snap = spec_depth (reg_book R symbol) Sell n"
      "reg_spec R' = (reg_spec R)\<lparr>ex_instruments := (ex_instruments (reg_spec R))(symbol \<mapsto>
        (\<lparr>sm_book = reg_book R symbol, sm_orders = reg_findOrder R symbol\<rparr>, inst_nextSnapshotSequenceNumber inst + 1))\<rparr>"
      by auto
    have "reg_book R' = reg_book R" "reg_findOrder R' = reg_findOrder R"
      by (auto simp: reg_view_of_spec d(3) fun_eq_iff split: option.splits)
    with d(1,2) spec_depth_sorted [OF I(3), of Buy n] spec_depth_sorted [OF I(3), of Sell n] show ?thesis
      using spec_depth_quantity [OF I(3)] by (simp add: not_le spec_depth_prices)
  qed
qed

theorem snapshot_is_sorted_depth_witness:
  "take 5 (remdups_adj (map order_price (reg_book demo ''AAPL'' Sell))) = [100, 101] \<and>
   (\<Sum>r\<leftarrow>filter (\<lambda>r. order_price r = 100) (reg_book demo ''AAPL'' Sell). order_quantity r) = 14"
proof -
  obtain R' where R': "reg_snapshot demo ''AAPL'' 5 = Some (\<lparr>snap_symbol = ''AAPL'', snap_sequence = 0, snap_bids = [],
      snap_asks = [\<lparr>level_price = 100, level_quantity = 14\<rparr>, \<lparr>level_price = 101, level_quantity = 5\<rparr>]\<rparr>, R')"
    by (rule demo_snapshot)
  from snapshot_is_sorted_depth [OF demo_run R'] show ?thesis by simp
qed

text \<open>
  Step for step the two matchers agree: from states that stand for the same book, a match
  returns the same trades and a cancel, a best price or a depth query sees the same book.
\<close>

theorem matchers_simulate:
  assumes "ref_inv m" "opt_inv k" "ref_book m = opt_book k" "order_id ord \<notin> book_ids (ref_book m)"
  shows "(\<exists>ts m' k'. ref_matchOrder m ord = Some (ts, m') \<and> opt_matchOrder k ord = Some (ts, k') \<and>
      ref_inv m' \<and> opt_inv k' \<and> ref_book m' = opt_book k') \<and>
    (\<exists>m' k'. ref_cancelOrder m i = Some m' \<and> opt_cancelOrder k i = Some k' \<and>
      ref_inv m' \<and> opt_inv k' \<and> ref_book m' = opt_book k') \<and>
    ref_bestBid m = opt_bestBid k \<and> ref_bestAsk m = opt_bestAsk k \<and>
    ref_bidDepth m n = opt_bidDepth k n \<and> ref_askDepth m n = opt_askDepth k n"
proof (intro conjI)
  show "\<exists>ts m' k'. ref_matchOrder m ord = Some (ts, m') \<and> opt_matchOrder k ord = Some (ts, k') \<and>
      ref_inv m' \<and> opt_inv k' \<and> ref_book m' = opt_book k'"
    using ref_match_refines [OF assms(1,4)] opt_match_refines [OF assms(2), of ord] assms(3,4) by auto
  show "\<exists>m' k'. ref_cancelOrder m i = Some m' \<and> opt_cancelOrder k i = Some k' \<and>
      ref_inv m' \<and> opt_inv k' \<and> ref_book m' = opt_book k'"
    using ref_cancel_refines [OF assms(1), of i] opt_cancel_refines [OF assms(2), of i] assms(3) by auto
  show "ref_bestBid m = opt_bestBid k" "ref_bestAsk m = opt_bestAsk k"
    "ref_bidDepth m n = opt_bidDepth k n" "ref_askDepth m n = opt_askDepth k n"
    using ref.bestBid_law [OF assms(1)] opt.bestBid_law [OF assms(2)] ref.bestAsk_law [OF assms(1)] opt.bestAsk_law [OF assms(2)]
      ref.bidDepth_law [OF assms(1), of n] opt.bidDepth_law [OF assms(2), of n]
      ref.askDepth_law [OF assms(1), of n] opt.askDepth_law [OF assms(2), of n]
    by (simp_all add: assms(3) ReferenceMatcher_vtable_def OptimizedMatcher_vtable_def)
qed

theorem matchers_simulate_witness:
  "\<exists>ts m' k'. ref_matchOrder new_ReferenceMatcher (limit_order 1 Buy 100 5) = Some (ts, m') \<and>
     opt_matchOrder new_OptimizedMatcher (limit_order 1 Buy 100 5) = Some (ts, k') \<and> ref_book m' = opt_book k'"
  using matchers_simulate [OF ref_inv_new(1) opt_inv_new(1), of "limit_order 1 Buy 100 5" 0 0]
  by (auto simp: ref_inv_new(2) opt_inv_new(2) book_ids_def empty_book_def)

text \<open>
  What the status of an order that may not rest says: an immediate-or-cancel or market
  order, or a limit order stopped by self-trade prevention, that traded at least once is
  recorded as Filled even though part of it was discarded; it is Cancelled only when nothing
  traded.
\<close>

theorem discarded_remainder_status:
  assumes "reg_run (new_InstrumentRegistry backend) cs = Some (rs, R)"
    and "reg_matchOrder R symbol ord = Some (ts, R')"
    and "reg_findOrder R symbol (order_id ord) = None" "reg_findOrder R' symbol (order_id ord) = Some x"
    and "order_id ord \<notin> book_ids (reg_book R' symbol)" "order_quantity x \<noteq> 0"
  shows "order_status x = (if ts = [] then Cancelled else Filled)"
proof (rule reg_match_book [OF session(1) [OF assms(1)] assms(2)])
  assume "reg_findOrder R' = reg_findOrder R"
  with assms(3,4) show ?thesis by simp
next
  fix left assume sub: "spec_submit (reg_book R symbol) ord = (ts, reg_book R' symbol, left)"
    and f: "reg_findOrder R' symbol = (fold book_trade ts (reg_findOrder R symbol))(order_id ord \<mapsto> ord\<lparr>order_quantity := left,
         order_status := final_status (order_quantity ord) left (order_id ord \<in> book_ids (reg_book R' symbol))\<rparr>)"
  have left: "order_quantity x = left" "order_status x = final_status (order_quantity ord) left False"
    using assms(4,5) f by auto
  obtain q where sw: "stp_sweep (order_side ord) (effective_price ord) (order_id ord) (order_accountId ord)
      (order_quantity ord) (reg_book R symbol (opposite (order_side ord))) = (ts, q, left)"
    using spec_submit_parts [OF sub refl] by metis
  have "left = order_quantity ord \<longleftrightarrow> ts = []"
  proof
    assume "left = order_quantity ord"
    then have "(\<Sum>t\<leftarrow>ts. unat (trade_quantity t)) = 0" using stp_sweep_conserves [OF sw] by simp
    moreover have "trade_quantity t \<noteq> 0" if "t \<in> set ts" for t
      using reg_trade [OF session(1) [OF assms(1)] assms(2) that] by blast
    ultimately show "ts = []" by (cases ts) (auto simp: unat_eq_0)
  next
    assume "ts = []"
    with stp_sweep_conserves [OF sw] show "left = order_quantity ord" by (simp add: word_unat_eq_iff)
  qed
  with left assms(6) show ?thesis by (simp add: final_status_def)
qed

theorem discarded_remainder_status_witness:
  "reg_findOrder demo_after ''AAPL'' 4 = Some (demo_order\<lparr>order_quantity := 2, order_status := Filled\<rparr>) \<and>
   (4 :: OrderId) \<notin> book_ids (reg_book demo_after ''AAPL'')"
proof -
  have book: "4 \<notin> set (map order_id (reg_book demo_after ''AAPL'' Buy) @ map order_id (reg_book demo_after ''AAPL'' Sell))"
    by code_simp
  then have "order_id demo_order \<notin> book_ids (reg_book demo_after ''AAPL'')"
    by (auto simp: book_ids_two demo_order_def limit_order_def)
  from discarded_remainder_status [OF demo_run demo_match _ _ this, of "demo_order\<lparr>order_quantity := 2, order_status := Filled\<rparr>"]
  show ?thesis using demo_after_found demo_found(2) book by (auto simp: book_ids_two)
qed

end
